(* ===== verification/Prelude.thy ===== *)
theory Prelude
  imports Main "HOL-Library.Multiset" "HOL-Library.Word" "HOL-Library.Signed_Division"
    "HOL-Library.Sublist"
begin

text \<open>
  Shared vocabulary of the development: names of the machine integers, the runner that
  folds a partial step function over a list of actions, the interface of a machine with an
  invariant, and the generic lemmas (sums over finitely many workers, cyclic victim order)
  that the component theories use.
\<close>

unbundle bit_operations_syntax

type_synonym u8 = "8 word"
type_synonym u32 = "32 word"
type_synonym u64 = "64 word"

named_theorems machine_simps \<open>unfolding rules of one atomic step of a machine\<close>

section \<open>Runs of a partial step function\<close>

text \<open>
  A machine is a step function that returns \<^const>\<open>None\<close> when the action is not enabled.
  \<open>exec_all\<close> runs a list of actions, so an interleaving of several threads is
  the list of the actions in the order in which they happen.
\<close>

fun exec_all :: "('s \<Rightarrow> 'a \<Rightarrow> 's option) \<Rightarrow> 's \<Rightarrow> 'a list \<Rightarrow> 's option" where
  "exec_all stp s [] = Some s"
| "exec_all stp s (a # acts) =
     (case stp s a of None \<Rightarrow> None | Some t \<Rightarrow> exec_all stp t acts)"

lemma exec_all_append:
  "exec_all stp s (xs @ ys) =
     (case exec_all stp s xs of None \<Rightarrow> None | Some t \<Rightarrow> exec_all stp t ys)"
  by (induction xs arbitrary: s) (auto split: option.splits)

text \<open>
  The contract between a machine and the invariant its clients rely on.
\<close>

locale machine =
  fixes stp :: "'s \<Rightarrow> 'a \<Rightarrow> 's option"
    and good :: "'s \<Rightarrow> bool"
  assumes stp_good: "good s \<Longrightarrow> stp s a = Some t \<Longrightarrow> good t"
begin

lemma run_good: "good s \<Longrightarrow> exec_all stp s acts = Some t \<Longrightarrow> good t"
proof (induction acts arbitrary: s)
  case (Cons a acts)
  then obtain u where "stp s a = Some u" and "exec_all stp u acts = Some t"
    by (auto split: option.splits)
  with Cons.IH Cons.prems(1) show ?case by (blast intro: stp_good)
qed simp

end

text \<open>
  A machine in which some steps are counted: each of them takes one from the pace that is left,
  and no other step adds to it.
\<close>

locale paced_machine = machine stp good for stp :: "'s \<Rightarrow> 'a \<Rightarrow> 's option" and good +
  fixes counted :: "'a \<Rightarrow> bool"
    and pace :: "'s \<Rightarrow> nat"
  assumes stp_paced: "good s \<Longrightarrow> stp s a = Some t \<Longrightarrow> pace t + of_bool (counted a) \<le> pace s"
begin

lemma run_paced:
  "good s \<Longrightarrow> exec_all stp s acts = Some t \<Longrightarrow> length (filter counted acts) + pace t \<le> pace s"
proof (induction acts arbitrary: s)
  case (Cons a acts)
  then obtain u where u: "stp s a = Some u" "exec_all stp u acts = Some t"
    by (auto split: option.splits)
  with Cons have "length (filter counted acts) + pace t \<le> pace u" by (blast intro: stp_good)
  with stp_paced [OF Cons.prems(1) u(1)] show ?case by (cases "counted a") simp_all
qed simp

end

text \<open>
  A machine that comes to rest: every step from a good state does part of the remaining work,
  and a good state that is not final has a step that is certain to be possible, one that does not
  depend on what the environment chooses to do.
\<close>

locale resting_machine = machine stp good for stp :: "'s \<Rightarrow> 'a \<Rightarrow> 's option" and good +
  fixes work :: "'s \<Rightarrow> nat"
    and certain :: "'a \<Rightarrow> bool"
    and final :: "'s \<Rightarrow> bool"
  assumes stp_works: "good s \<Longrightarrow> stp s a = Some t \<Longrightarrow> work t < work s"
    and stp_possible: "good s \<Longrightarrow> \<not> final s \<Longrightarrow> \<exists>a. certain a \<and> stp s a \<noteq> None"
begin

sublocale paced_machine stp good "\<lambda>_. True" work
  by unfold_locales (use stp_works in fastforce)

lemma run_bounded:
  "good s \<Longrightarrow> exec_all stp s acts = Some t \<Longrightarrow> length acts + work t \<le> work s"
  using run_paced by simp

lemma run_rests:
  assumes "good s" "exec_all stp s acts = Some t"
  shows "length acts \<le> work s \<and> (final t \<or> (\<exists>a. certain a \<and> stp t a \<noteq> None))"
  using run_bounded [OF assms] stp_possible [OF run_good [OF assms]] by auto

lemma run_finishes: "good s \<Longrightarrow> \<exists>acts t. exec_all stp s acts = Some t \<and> final t"
proof (induction "work s" arbitrary: s rule: less_induct)
  case less
  show ?case
  proof (cases "final s")
    case True
    then have "exec_all stp s [] = Some s \<and> final s" by simp
    then show ?thesis by blast
  next
    case False
    with stp_possible less.prems obtain a u where u: "stp s a = Some u" by fastforce
    from less.hyps [OF stp_works [OF less.prems u] stp_good [OF less.prems u]]
    obtain acts t where "exec_all stp u acts = Some t" "final t" by auto
    with u have "exec_all stp s (a # acts) = Some t \<and> final t" by simp
    then show ?thesis by blast
  qed
qed

end

section \<open>Sums over workers\<close>

text \<open>
  The state of \<open>n\<close> workers is a function from the worker's index. One worker's step changes
  the function at one point; the two sums below differ in that summand only.
\<close>

lemma sum_fun_upd:
  fixes g :: "'b \<Rightarrow> 'a::comm_monoid_add" and n :: nat
  assumes "w < n"
  shows "(\<Sum>i<n. g ((f(w := v)) i)) + g (f w) = (\<Sum>i<n. g (f i)) + g v"
proof -
  have "(\<Sum>i<n. g ((f(w := v)) i)) = g v + (\<Sum>i\<in>{..<n} - {w}. g (f i))"
  proof -
    have "(\<Sum>i<n. g ((f(w := v)) i)) =
      g ((f(w := v)) w) + (\<Sum>i\<in>{..<n} - {w}. g ((f(w := v)) i))"
      by (rule sum.remove) (use assms in auto)
    also have "(\<Sum>i\<in>{..<n} - {w}. g ((f(w := v)) i)) = (\<Sum>i\<in>{..<n} - {w}. g (f i))"
      by (rule sum.cong) auto
    finally show ?thesis by simp
  qed
  moreover have "(\<Sum>i<n. g (f i)) = g (f w) + (\<Sum>i\<in>{..<n} - {w}. g (f i))"
    by (rule sum.remove) (use assms in auto)
  ultimately show ?thesis by (simp add: ac_simps)
qed

lemma sum_le_one_worker:
  fixes g :: "nat \<Rightarrow> nat"
  assumes "\<And>i. g i \<le> 1"
  shows "(\<Sum>i<n. g i) \<le> n"
proof -
  have "(\<Sum>i<n. g i) \<le> (\<Sum>i<n. 1)"
    by (rule sum_mono) (rule assms)
  then show ?thesis by simp
qed

text \<open>Less work in one place, or in two places taken together, is less work.\<close>

lemma sum_one_less:
  fixes f g :: "nat \<Rightarrow> nat"
  assumes "w < n" "f w < g w" "\<And>v. v \<noteq> w \<Longrightarrow> f v = g v"
  shows "(\<Sum>v<n. f v) < (\<Sum>v<n. g v)"
proof -
  have "(\<Sum>v<n. f v) = f w + (\<Sum>v\<in>{..<n} - {w}. f v)" "(\<Sum>v<n. g v) = g w + (\<Sum>v\<in>{..<n} - {w}. g v)"
    using assms(1) by (simp_all add: sum.remove)
  moreover have "(\<Sum>v\<in>{..<n} - {w}. f v) = (\<Sum>v\<in>{..<n} - {w}. g v)"
    by (rule sum.cong) (use assms(3) in auto)
  ultimately show ?thesis using assms(2) by simp
qed

lemma sum_two_less:
  fixes f g :: "nat \<Rightarrow> nat"
  assumes "w < n" "u < n" "w \<noteq> u" "f w + f u < g w + g u" "\<And>v. v \<noteq> w \<Longrightarrow> v \<noteq> u \<Longrightarrow> f v = g v"
  shows "(\<Sum>v<n. f v) < (\<Sum>v<n. g v)"
proof -
  have split: "(\<Sum>v<n. h v) = h w + (h u + (\<Sum>v\<in>{..<n} - {w} - {u}. h v))" for h :: "nat \<Rightarrow> nat"
    using assms(1-3) by (simp add: sum.remove)
  moreover have "(\<Sum>v\<in>{..<n} - {w} - {u}. f v) = (\<Sum>v\<in>{..<n} - {w} - {u}. g v)"
    by (rule sum.cong) (use assms(5) in auto)
  ultimately show ?thesis using assms(4) by (simp add: split [of f] split [of g])
qed

section \<open>The cyclic order in which a thief visits the other queues\<close>

definition victims :: "nat \<Rightarrow> nat \<Rightarrow> nat list" where
  "victims thief n = map (\<lambda>i. (thief + i) mod n) [1..<n]"

lemma cyclic_inj:
  fixes t i j n :: nat
  assumes "i < n" "j < n" "(t + i) mod n = (t + j) mod n"
  shows "i = j"
proof -
  have le: "b = a" if "a \<le> b" "b < n" "(t + b) mod n = (t + a) mod n" for a b :: nat
  proof -
    have "n dvd (t + b) - (t + a)"
      using that mod_eq_dvd_iff_nat [of "t + a" "t + b" n] by simp
    then have "n dvd b - a" by simp
    moreover have "b - a < n" using that by simp
    ultimately have "b - a = 0" by (metis dvd_imp_le not_le gr_zeroI)
    then show ?thesis using that(1) by simp
  qed
  show ?thesis
  proof (cases "i \<le> j")
    case True
    then have "j = i" by (rule le) (use assms in simp_all)
    then show ?thesis by simp
  next
    case False
    then have "j \<le> i" by simp
    then show ?thesis by (rule le) (use assms in simp_all)
  qed
qed

lemma distinct_victims: "distinct (victims t n)"
  by (auto simp: victims_def distinct_map inj_on_def dest: cyclic_inj)

lemma set_victims:
  assumes "t < n"
  shows "set (victims t n) = {..<n} - {t}"
proof -
  have "t \<notin> set (victims t n)"
  proof
    assume "t \<in> set (victims t n)"
    then obtain i where "1 \<le> i" "i < n" "(t + i) mod n = t"
      by (auto simp: victims_def)
    with assms cyclic_inj [of i n 0 t] show False by simp
  qed
  moreover have "set (victims t n) \<subseteq> {..<n}"
    using assms by (auto simp: victims_def)
  ultimately have sub: "set (victims t n) \<subseteq> {..<n} - {t}" by auto
  have "card (set (victims t n)) = n - 1"
    using distinct_card [OF distinct_victims, of t n] by (simp add: victims_def)
  moreover have "card ({..<n} - {t}) = n - 1" using assms by simp
  ultimately show ?thesis by (intro card_subset_eq sub) auto
qed

end
