(* ===== verification/Koro_Fiber.thy ===== *)
theory Koro_Fiber
  imports Prelude
begin

text \<open>
  The fibers of \<^verbatim>\<open>koro/fiber.h\<close> and \<^verbatim>\<open>koro/fiber.cpp\<close>: the fiber object with its
  four states and its execution lock, the three thread-local pointers of a worker thread, and
  the operations that move control between the thread's native stack and the fibers' stacks.
  The theory ends with the step relation of one worker thread that drives fibers the way the
  scheduler does, its invariant, and the proof that none of the assertions of the code fails.
\<close>

section \<open>The fiber object\<close>

type_synonym fid = nat
type_synonym callback = nat

text \<open>
  A \<open>fid\<close> is the identity of a \<^verbatim>\<open>Fiber\<close> object, a \<open>callback\<close> that of the target of a
  \<^verbatim>\<open>std::function<void()>\<close> (an empty function is \<^const>\<open>None\<close>). \<open>fb_stack\<close> says
  whether \<^verbatim>\<open>stack_sp_\<close> is set; only the fiber that stands for the thread itself has none.
\<close>

datatype fiber_state = kReady | kRunning | kHold | kTerm

record fiber =
  fb_state :: fiber_state
  fb_cb :: "callback option"
  fb_in_scheduler :: bool
  fb_stack_size :: u32
  fb_stack :: bool
  fb_execute :: bool

datatype fiber_error = AssertFailure | NullDeref | Dangling | BadContext

definition thread_fiber :: fiber where
  "thread_fiber = \<lparr>fb_state = kRunning, fb_cb = None, fb_in_scheduler = False,
     fb_stack_size = 0, fb_stack = False, fb_execute = False\<rparr>"

definition new_fiber :: "callback option \<Rightarrow> bool \<Rightarrow> u32 \<Rightarrow> fiber_error + fiber" where
  "new_fiber cb in_sched stk =
     (if stk = 0 then Inl AssertFailure
      else Inr \<lparr>fb_state = kReady, fb_cb = cb, fb_in_scheduler = in_sched,
             fb_stack_size = stk, fb_stack = True, fb_execute = False\<rparr>)"

definition default_stack_size :: u32 where
  "default_stack_size = 16 * 1024"

text \<open>The constructor the scheduler uses: both defaulted arguments.\<close>

definition wrapper_fiber :: "callback option \<Rightarrow> fiber" where
  "wrapper_fiber cb = \<lparr>fb_state = kReady, fb_cb = cb, fb_in_scheduler = True,
     fb_stack_size = default_stack_size, fb_stack = True, fb_execute = False\<rparr>"

lemma wrapper_fiber_is_new: "new_fiber cb True default_stack_size = Inr (wrapper_fiber cb)"
  by (simp add: new_fiber_def wrapper_fiber_def default_stack_size_def)

definition tryLock :: "fiber \<Rightarrow> bool \<times> fiber" where
  "tryLock f = (if fb_execute f then (False, f) else (True, f\<lparr>fb_execute := True\<rparr>))"

definition unlock :: "fiber \<Rightarrow> fiber" where
  "unlock f = f\<lparr>fb_execute := False\<rparr>"

definition resetFunc :: "callback option \<Rightarrow> fiber \<Rightarrow> fiber_error + fiber" where
  "resetFunc cb f =
     (if fb_stack f then Inr (f\<lparr>fb_state := kReady, fb_cb := cb\<rparr>) else Inl AssertFailure)"

text \<open>The destructor frees the stack, or asserts that a stackless fiber is still running.\<close>

definition destroy_fiber :: "fiber \<Rightarrow> fiber_error + unit" where
  "destroy_fiber f =
     (if fb_stack f then Inr () else if fb_state f = kRunning then Inr () else Inl AssertFailure)"

text \<open>
  What resume, hold, yield and the tail of \<^verbatim>\<open>mainFunc\<close> do to the object they are called
  on, before the context switch.
\<close>

definition mark_resumed :: "fiber \<Rightarrow> fiber_error + fiber" where
  "mark_resumed f =
     (if fb_state f = kReady \<or> fb_state f = kHold then Inr (f\<lparr>fb_state := kRunning\<rparr>)
      else Inl AssertFailure)"

definition mark_held :: "fiber \<Rightarrow> fiber_error + fiber" where
  "mark_held f =
     (if fb_state f = kRunning then Inr (f\<lparr>fb_state := kHold\<rparr>) else Inl AssertFailure)"

definition mark_yielded :: "fiber \<Rightarrow> fiber_error + fiber" where
  "mark_yielded f =
     (if fb_state f = kRunning \<or> fb_state f = kTerm
      then Inr (if fb_state f \<noteq> kTerm then f\<lparr>fb_state := kReady\<rparr> else f)
      else Inl AssertFailure)"

definition mark_finished :: "fiber \<Rightarrow> fiber" where
  "mark_finished f = f\<lparr>fb_cb := None, fb_state := kTerm\<rparr>"

lemmas fiber_object_defs = tryLock_def unlock_def mark_resumed_def mark_held_def
  mark_yielded_def mark_finished_def

section \<open>A thread and its contexts\<close>

text \<open>
  \<open>exec\<close> names a stack on which code can execute: the thread's native one, or that of a
  fiber. \<open>ctx f\<close> is the execution that the saved \<^verbatim>\<open>ucontext_t\<close> of the fiber object
  \<open>f\<close> continues, \<open>control\<close> is the stack that executes now. \<open>owners\<close> counts the
  \<^verbatim>\<open>shared_ptr\<close>s to an object other than \<^verbatim>\<open>t_scheduler_fiber\<close>: \<^verbatim>\<open>t_fiber\<close>
  and \<^verbatim>\<open>t_thread_fiber\<close> are raw pointers and keep nothing alive. A destroyed object is
  \<^const>\<open>None\<close> in \<open>heap\<close>.
\<close>

datatype exec = Native | Body fid

record thread_state =
  t_fiber :: "fid option"
  t_scheduler_fiber :: "fid option"
  t_thread_fiber :: "fid option"
  heap :: "fid \<Rightarrow> fiber option"
  owners :: "fid \<Rightarrow> nat"
  next_fid :: fid
  ctx :: "fid \<Rightarrow> exec option"
  control :: exec

definition fresh_thread :: thread_state where
  "fresh_thread = \<lparr>t_fiber = None, t_scheduler_fiber = None, t_thread_fiber = None,
     heap = (\<lambda>_. None), owners = (\<lambda>_. 0), next_fid = 0, ctx = (\<lambda>_. None), control = Native\<rparr>"

definition setRunningFiber :: "fid option \<Rightarrow> thread_state \<Rightarrow> thread_state" where
  "setRunningFiber f s = s\<lparr>t_fiber := f\<rparr>"

text \<open>
  Assigning \<^verbatim>\<open>t_scheduler_fiber\<close> drops the reference it held: an object with no other
  owner is destroyed.
\<close>

definition setSchedulerFiber :: "fid \<Rightarrow> thread_state \<Rightarrow> thread_state" where
  "setSchedulerFiber f s =
     (let s1 = s\<lparr>t_scheduler_fiber := Some f\<rparr> in
      case t_scheduler_fiber s of
        None \<Rightarrow> s1
      | Some old \<Rightarrow> if old \<noteq> f \<and> owners s old = 0 then s1\<lparr>heap := (heap s)(old := None)\<rparr> else s1)"

text \<open>
  The first call of a thread creates the object that stands for the thread; its constructor
  sets \<^verbatim>\<open>t_fiber\<close>, and \<^verbatim>\<open>getcontext\<close> records the execution that called it.
\<close>

definition runningFiber :: "thread_state \<Rightarrow> fid \<times> thread_state" where
  "runningFiber s =
     (case t_fiber s of
        Some f \<Rightarrow> (f, s)
      | None \<Rightarrow>
          let m = next_fid s;
              s1 = setRunningFiber (Some m)
                     (s\<lparr>heap := (heap s)(m \<mapsto> thread_fiber), ctx := (ctx s)(m \<mapsto> control s),
                        next_fid := Suc m\<rparr>)
          in (m, s1\<lparr>t_thread_fiber := Some m, t_scheduler_fiber := Some m\<rparr>))"

definition make_fiber :: "callback option \<Rightarrow> bool \<Rightarrow> u32 \<Rightarrow> thread_state \<Rightarrow>
    fiber_error + fid \<times> thread_state" where
  "make_fiber cb in_sched stk s =
     (case new_fiber cb in_sched stk of
        Inl e \<Rightarrow> Inl e
      | Inr fb \<Rightarrow>
          let f = next_fid s in
          Inr (f, s\<lparr>heap := (heap s)(f \<mapsto> fb), owners := (owners s)(f := 1),
                   ctx := (ctx s)(f \<mapsto> Body f), next_fid := Suc f\<rparr>))"

text \<open>
  \<open>swapcontext from to\<close> saves the executing context into the object \<open>from\<close> and
  continues the one saved in the object \<open>to\<close>.
\<close>

definition swap_context :: "fid \<Rightarrow> fid \<Rightarrow> thread_state \<Rightarrow> fiber_error + thread_state" where
  "swap_context from to s =
     (if heap s from = None \<or> heap s to = None then Inl Dangling
      else case ctx s to of
             None \<Rightarrow> Inl BadContext
           | Some e \<Rightarrow> Inr (s\<lparr>ctx := (ctx s)(from \<mapsto> control s), control := e\<rparr>))"

text \<open>The object to which control returns: the scheduler's fiber or the thread's.\<close>

definition return_target :: "fiber \<Rightarrow> thread_state \<Rightarrow> fid option" where
  "return_target fb s = (if fb_in_scheduler fb then t_scheduler_fiber s else t_thread_fiber s)"

definition resume :: "fid \<Rightarrow> thread_state \<Rightarrow> fiber_error + thread_state" where
  "resume f s =
     (case heap s f of
        None \<Rightarrow> Inl Dangling
      | Some fb \<Rightarrow>
          (case mark_resumed fb of
             Inl e \<Rightarrow> Inl e
           | Inr fb1 \<Rightarrow>
               let s1 = setRunningFiber (Some f) (s\<lparr>heap := (heap s)(f \<mapsto> fb1)\<rparr>) in
               (case return_target fb s1 of
                  None \<Rightarrow> Inl NullDeref
                | Some r \<Rightarrow> swap_context r f s1)))"

text \<open>The common tail of \<^verbatim>\<open>hold\<close> and \<^verbatim>\<open>yield\<close>, after the state change.\<close>

definition switch_out :: "fid \<Rightarrow> fiber \<Rightarrow> thread_state \<Rightarrow> fiber_error + thread_state" where
  "switch_out f fb s =
     (let s1 = setRunningFiber (return_target fb s) (s\<lparr>heap := (heap s)(f \<mapsto> fb)\<rparr>) in
      case return_target fb s of
        None \<Rightarrow> Inl NullDeref
      | Some r \<Rightarrow> swap_context f r s1)"

definition hold :: "fid \<Rightarrow> thread_state \<Rightarrow> fiber_error + thread_state" where
  "hold f s =
     (case heap s f of
        None \<Rightarrow> Inl Dangling
      | Some fb \<Rightarrow> (case mark_held fb of Inl e \<Rightarrow> Inl e | Inr fb1 \<Rightarrow> switch_out f fb1 s))"

definition yield :: "fid \<Rightarrow> thread_state \<Rightarrow> fiber_error + thread_state" where
  "yield f s =
     (case heap s f of
        None \<Rightarrow> Inl Dangling
      | Some fb \<Rightarrow> (case mark_yielded fb of Inl e \<Rightarrow> Inl e | Inr fb1 \<Rightarrow> switch_out f fb1 s))"

text \<open>
  \<^verbatim>\<open>mainFunc\<close>: on entry the running fiber must not be the thread's; the callback to invoke,
  if any, is returned. On exit the callback is dropped, the fiber terminates and yields.
\<close>

definition mainFunc_enter :: "thread_state \<Rightarrow> fiber_error + fid \<times> callback option" where
  "mainFunc_enter s =
     (let (f, s1) = runningFiber s in
      if Some f = t_thread_fiber s1 then Inl AssertFailure
      else case heap s1 f of None \<Rightarrow> Inl Dangling | Some fb \<Rightarrow> Inr (f, fb_cb fb))"

definition mainFunc_exit :: "fid \<Rightarrow> thread_state \<Rightarrow> fiber_error + thread_state" where
  "mainFunc_exit f s =
     (case heap s f of
        None \<Rightarrow> Inl Dangling
      | Some fb \<Rightarrow> yield f (s\<lparr>heap := (heap s)(f \<mapsto> mark_finished fb)\<rparr>))"

lemmas switch_defs = setRunningFiber_def swap_context_def return_target_def resume_def
  switch_out_def hold_def yield_def mainFunc_exit_def


section \<open>One worker thread that drives fibers as the scheduler does\<close>

text \<open>
  The scheduler calls \<^verbatim>\<open>resume\<close> from the thread's native stack only; a fiber's body calls
  \<^verbatim>\<open>hold\<close> and \<^verbatim>\<open>yield\<close> on \<^verbatim>\<open>runningFiber()\<close>, or returns into the tail of
  \<^verbatim>\<open>mainFunc\<close>. Fibers are created at any time, and a fiber that is not running can be given
  a new function.
\<close>

inductive worker_step :: "thread_state \<Rightarrow> thread_state \<Rightarrow> bool" where
  create: "make_fiber cb b stk s = Inr (f, t) \<Longrightarrow> worker_step s t"
| reset: "heap s f = Some fb \<Longrightarrow> fb_state fb \<noteq> kRunning \<Longrightarrow> resetFunc cb fb = Inr fb1 \<Longrightarrow>
    worker_step s (s\<lparr>heap := (heap s)(f \<mapsto> fb1), ctx := (ctx s)(f \<mapsto> Body f)\<rparr>)"
| resume: "control s = Native \<Longrightarrow> resume f s = Inr t \<Longrightarrow> worker_step s t"
| hold: "control s = Body g \<Longrightarrow> runningFiber s = (f, s1) \<Longrightarrow> hold f s1 = Inr t \<Longrightarrow> worker_step s t"
| yield: "control s = Body g \<Longrightarrow> runningFiber s = (f, s1) \<Longrightarrow> yield f s1 = Inr t \<Longrightarrow> worker_step s t"
| finish: "control s = Body g \<Longrightarrow> mainFunc_exit g s = Inr t \<Longrightarrow> worker_step s t"

inductive_cases worker_stepE: "worker_step s t"

text \<open>The reachable states of a worker that has called \<^verbatim>\<open>runningFiber()\<close> first.\<close>

inductive worker_reach :: "thread_state \<Rightarrow> bool" where
  start: "worker_reach (snd (runningFiber fresh_thread))"
| step: "worker_reach s \<Longrightarrow> worker_step s t \<Longrightarrow> worker_reach t"

text \<open>
  The invariant. \<open>0\<close> is the object of the thread. All other objects have a stack; those
  that do not execute are not in state \<^const>\<open>kRunning\<close> and their context continues their
  own body; \<^verbatim>\<open>t_fiber\<close> always points to the object whose stack executes.
\<close>

definition parked :: "thread_state \<Rightarrow> fid \<Rightarrow> bool" where
  "parked s f \<longleftrightarrow> (\<forall>fb. heap s f = Some fb \<longrightarrow>
      fb_stack fb \<and> fb_state fb \<noteq> kRunning \<and> ctx s f = Some (Body f))"

definition worker_ok :: "thread_state \<Rightarrow> bool" where
  "worker_ok s \<longleftrightarrow>
     t_thread_fiber s = Some 0 \<and> t_scheduler_fiber s = Some 0 \<and>
     heap s 0 = Some thread_fiber \<and> 0 < next_fid s \<and>
     (\<forall>f \<ge> next_fid s. heap s f = None) \<and>
     (case control s of
        Native \<Rightarrow> t_fiber s = Some 0 \<and> (\<forall>f. f \<noteq> 0 \<longrightarrow> parked s f)
      | Body g \<Rightarrow> g \<noteq> 0 \<and> t_fiber s = Some g \<and> ctx s 0 = Some Native \<and>
          (\<exists>fb. heap s g = Some fb \<and> fb_stack fb \<and> fb_state fb = kRunning) \<and>
          (\<forall>f. f \<noteq> 0 \<longrightarrow> f \<noteq> g \<longrightarrow> parked s f))"

lemma worker_ok_start: "worker_ok (snd (runningFiber fresh_thread))"
  by (simp add: worker_ok_def runningFiber_def fresh_thread_def setRunningFiber_def parked_def)

lemma worker_okD:
  assumes "worker_ok s"
  shows "t_thread_fiber s = Some 0" and "t_scheduler_fiber s = Some 0"
    and "heap s 0 = Some thread_fiber"
    and "f \<ge> next_fid s \<Longrightarrow> heap s f = None" and "0 < next_fid s"
  using assms by (auto simp: worker_ok_def)

lemma return_target_worker: "worker_ok s \<Longrightarrow> return_target fb s = Some 0"
  by (simp add: return_target_def worker_ok_def)

text \<open>The three moves of control, each as an equation under the invariant.\<close>

lemma resume_worker:
  assumes "worker_ok s" "control s = Native" "heap s f = Some fb"
    "fb_state fb = kReady \<or> fb_state fb = kHold"
  shows "resume f s = Inr (s\<lparr>heap := (heap s)(f \<mapsto> fb\<lparr>fb_state := kRunning\<rparr>), t_fiber := Some f,
           ctx := (ctx s)(0 \<mapsto> Native), control := Body f\<rparr>)"
proof -
  from assms have f: "f \<noteq> 0"
    by (cases "f = 0") (auto simp: worker_ok_def thread_fiber_def)
  with assms have "ctx s f = Some (Body f)" by (auto simp: worker_ok_def parked_def)
  with assms f show ?thesis
    by (auto simp: switch_defs mark_resumed_def Let_def worker_ok_def)
qed

lemma switch_out_worker:
  assumes "worker_ok s" "control s = Body g"
  shows "switch_out g fb s = Inr (s\<lparr>heap := (heap s)(g \<mapsto> fb), t_fiber := Some 0,
           ctx := (ctx s)(g \<mapsto> Body g), control := Native\<rparr>)"
  using assms by (auto simp: switch_defs worker_ok_def)

lemma switch_out_ok:
  assumes "worker_ok s" "control s = Body g" "fb_stack fb" "fb_state fb \<noteq> kRunning"
    and "switch_out g fb s = Inr t"
  shows "worker_ok t"
  using assms(1-4) assms(5) unfolding switch_out_worker [OF assms(1,2)]
  by (auto simp: worker_ok_def parked_def)

lemma running_is_executing:
  assumes "worker_ok s" "control s = Body g"
  shows "runningFiber s = (g, s)"
  using assms by (simp add: worker_ok_def runningFiber_def)

lemma hold_worker:
  assumes "worker_ok s" "control s = Body g" "heap s g = Some fb"
  shows "hold g s = switch_out g (fb\<lparr>fb_state := kHold\<rparr>) s"
  using assms by (auto simp: hold_def mark_held_def worker_ok_def)

lemma yield_worker:
  assumes "worker_ok s" "control s = Body g" "heap s g = Some fb"
  shows "yield g s = switch_out g (fb\<lparr>fb_state := kReady\<rparr>) s"
  using assms by (auto simp: yield_def mark_yielded_def worker_ok_def)

lemma switch_out_heap: "switch_out g fb (s\<lparr>heap := (heap s)(g \<mapsto> x)\<rparr>) = switch_out g fb s"
  by (auto simp: switch_defs split: option.splits)

lemma mainFunc_exit_worker:
  assumes "heap s g = Some fb"
  shows "mainFunc_exit g s = switch_out g (mark_finished fb) s"
proof -
  have "mark_yielded (mark_finished fb) = Inr (mark_finished fb)"
    by (simp add: mark_finished_def mark_yielded_def)
  with assms show ?thesis
    by (simp add: mainFunc_exit_def yield_def switch_out_heap)
qed

lemma executing_fiber:
  assumes "worker_ok s" "control s = Body g"
  obtains fb where "heap s g = Some fb" "fb_stack fb" "fb_state fb = kRunning"
  using assms by (auto simp: worker_ok_def)

lemma worker_step_ok: "worker_step s t \<Longrightarrow> worker_ok s \<Longrightarrow> worker_ok t"
proof (induction rule: worker_step.induct)
  case (create cb b stk s f t)
  then show ?case
    by (auto simp: make_fiber_def new_fiber_def worker_ok_def parked_def Let_def
        split: if_splits exec.splits)
next
  case (reset s f fb cb fb1)
  then have "f \<noteq> 0" by (cases "f = 0") (auto simp: worker_ok_def thread_fiber_def)
  with reset show ?case
    by (auto simp: resetFunc_def worker_ok_def parked_def thread_fiber_def
        split: if_splits exec.splits)
next
  case (resume s f t)
  then obtain fb where fb: "heap s f = Some fb" "fb_state fb = kReady \<or> fb_state fb = kHold"
    by (auto simp: resume_def mark_resumed_def split: option.splits if_splits)
  with resume have f: "f \<noteq> 0"
    by (cases "f = 0") (auto simp: worker_ok_def thread_fiber_def)
  with resume fb have stk: "fb_stack fb" by (auto simp: worker_ok_def parked_def)
  from resume resume_worker [OF _ _ fb]
  have "t = s\<lparr>heap := (heap s)(f \<mapsto> fb\<lparr>fb_state := kRunning\<rparr>), t_fiber := Some f,
           ctx := (ctx s)(0 \<mapsto> Native), control := Body f\<rparr>" by simp
  with resume f stk fb show ?case by (auto simp: worker_ok_def parked_def)
next
  case (hold s g f s1 t)
  then obtain fb where fb: "heap s g = Some fb" "fb_stack fb" by (blast elim: executing_fiber)
  from hold have "hold g s = Inr t" by (simp add: running_is_executing)
  with hold fb have "switch_out g (fb\<lparr>fb_state := kHold\<rparr>) s = Inr t"
    by (simp add: hold_worker)
  then show ?case
    using switch_out_ok [OF hold.prems hold.hyps(1), of "fb\<lparr>fb_state := kHold\<rparr>" t] fb by simp
next
  case (yield s g f s1 t)
  then obtain fb where fb: "heap s g = Some fb" "fb_stack fb" by (blast elim: executing_fiber)
  from yield have "yield g s = Inr t" by (simp add: running_is_executing)
  with yield fb have "switch_out g (fb\<lparr>fb_state := kReady\<rparr>) s = Inr t"
    by (simp add: yield_worker)
  then show ?case
    using switch_out_ok [OF yield.prems yield.hyps(1), of "fb\<lparr>fb_state := kReady\<rparr>" t] fb by simp
next
  case (finish s g t)
  then obtain fb where fb: "heap s g = Some fb" "fb_stack fb" by (blast elim: executing_fiber)
  with finish have "switch_out g (mark_finished fb) s = Inr t"
    by (simp add: mainFunc_exit_worker)
  then show ?case
    using switch_out_ok [OF finish.prems finish.hyps(1), of "mark_finished fb" t] fb by (simp add: mark_finished_def)
qed

lemma worker_reach_ok: "worker_reach s \<Longrightarrow> worker_ok s"
  by (induction rule: worker_reach.induct) (auto intro: worker_ok_start worker_step_ok)


section \<open>Properties\<close>

text \<open>
  C21: In every reachable state of a worker thread, \<^verbatim>\<open>runningFiber()\<close> returns exactly the
  fiber whose stack executes, without changing anything; that fiber is in state
  \<^const>\<open>kRunning\<close>, and no other task fiber is.
\<close>

theorem running_fiber_tracks_control:
  assumes "worker_reach s" and "control s = Body g"
  shows "runningFiber s = (g, s) \<and>
    (\<forall>f fb. f \<noteq> 0 \<longrightarrow> heap s f = Some fb \<longrightarrow> (fb_state fb = kRunning \<longleftrightarrow> f = g))"
proof -
  from assms(1) have ok: "worker_ok s" by (rule worker_reach_ok)
  with assms(2) have "runningFiber s = (g, s)" by (intro running_is_executing)
  moreover from ok assms(2)
  have "\<forall>f fb. f \<noteq> 0 \<longrightarrow> heap s f = Some fb \<longrightarrow> (fb_state fb = kRunning \<longleftrightarrow> f = g)"
    by (auto simp: worker_ok_def parked_def)
  ultimately show ?thesis by simp
qed

text \<open>A reachable state with an executing fiber, for the witnesses.\<close>

definition demo_idle :: thread_state where
  "demo_idle = (case make_fiber (Some 7) True 4096 (snd (runningFiber fresh_thread)) of
     Inr (f, t) \<Rightarrow> t | Inl e \<Rightarrow> fresh_thread)"

definition demo_running :: thread_state where
  "demo_running = (case resume 1 demo_idle of Inr t \<Rightarrow> t | Inl e \<Rightarrow> fresh_thread)"

lemmas demo_defs = demo_idle_def demo_running_def make_fiber_def new_fiber_def runningFiber_def
  fresh_thread_def setRunningFiber_def switch_defs mark_resumed_def thread_fiber_def

lemma demo_idle_reach: "worker_reach demo_idle"
proof -
  have "make_fiber (Some 7) True 4096 (snd (runningFiber fresh_thread)) = Inr (1, demo_idle)"
    by (simp add: demo_defs)
  then show ?thesis by (blast intro: worker_reach.intros worker_step.create)
qed

lemma demo_running_reach: "worker_reach demo_running"
proof -
  have "resume 1 demo_idle = Inr demo_running" and "control demo_idle = Native"
    by (simp_all add: demo_defs)
  then show ?thesis using demo_idle_reach by (blast intro: worker_reach.step worker_step.resume)
qed

lemma demo_control: "control demo_running = Body 1" "control demo_idle = Native"
  by (simp_all add: demo_defs)

theorem running_fiber_tracks_control_witness:
  "runningFiber demo_running = (1, demo_running) \<and>
    map_option fb_state (heap demo_running 1) = Some kRunning"
proof -
  obtain fb where "heap demo_running 1 = Some fb"
    by (simp add: demo_defs)
  with running_fiber_tracks_control [OF demo_running_reach demo_control(1)] show ?thesis by auto
qed

text \<open>
  C22: No assertion, null pointer or stale context is ever met by a worker: in a reachable
  state, from the native stack every ready or held fiber can be resumed and then executes;
  from a fiber's body, holding, yielding and returning all succeed and give control back to
  the native stack.
\<close>

theorem fiber_switches_never_fail:
  assumes "worker_reach s"
  shows "(control s = Native \<longrightarrow>
      (\<forall>f fb. heap s f = Some fb \<longrightarrow> fb_state fb \<in> {kReady, kHold} \<longrightarrow>
         (\<exists>t. resume f s = Inr t \<and> control t = Body f \<and> t_fiber t = Some f))) \<and>
    (\<forall>g. control s = Body g \<longrightarrow>
      (\<forall>op \<in> {hold, yield, mainFunc_exit}.
         \<exists>t. op (fst (runningFiber s)) s = Inr t \<and> control t = Native \<and> t_fiber t = Some 0))"
proof -
  from assms have ok: "worker_ok s" by (rule worker_reach_ok)
  have "\<exists>t. op (fst (runningFiber s)) s = Inr t \<and> control t = Native \<and> t_fiber t = Some 0"
    if g: "control s = Body g" and op: "op \<in> {hold, yield, mainFunc_exit}" for g op
  proof -
    from ok g obtain fb where fb: "heap s g = Some fb" by (rule executing_fiber)
    have "\<exists>fb'. op g s = switch_out g fb' s"
      using op hold_worker [OF ok g fb] yield_worker [OF ok g fb] mainFunc_exit_worker [OF fb]
      by auto
    then show ?thesis
      by (auto simp: running_is_executing [OF ok g] switch_out_worker [OF ok g])
  qed
  then show ?thesis using resume_worker [OF ok] by fastforce
qed

theorem fiber_switches_never_fail_witness:
  "\<exists>t. resume 1 demo_idle = Inr t \<and> control t = Body 1 \<and> t_fiber t = Some 1"
proof -
  obtain fb where "heap demo_idle 1 = Some fb" "fb_state fb = kReady"
    by (simp add: demo_defs)
  with fiber_switches_never_fail [OF demo_idle_reach] demo_control(2) show ?thesis by simp
qed

text \<open>
  Round trip of a resumption. Resuming a parked fiber from the native stack and then
  holding, yielding or finishing it restores control and the thread-local pointers; the only
  change to the objects is the fiber's own: \<^const>\<open>kHold\<close>, \<^const>\<open>kReady\<close>, or
  \<^const>\<open>kTerm\<close> with the callback dropped.
\<close>

theorem resume_switch_back:
  assumes "worker_reach s" "control s = Native" "heap s f = Some fb"
    and "fb_state fb \<in> {kReady, kHold}" and "resume f s = Inr t"
    and "(op, fb') \<in> {(hold, fb\<lparr>fb_state := kHold\<rparr>), (yield, fb\<lparr>fb_state := kReady\<rparr>),
           (mainFunc_exit, fb\<lparr>fb_cb := None, fb_state := kTerm\<rparr>)}"
  shows "\<exists>u. op f t = Inr u \<and> heap u = (heap s)(f \<mapsto> fb') \<and> control u = Native \<and>
    t_fiber u = t_fiber s \<and> t_thread_fiber u = t_thread_fiber s \<and>
    t_scheduler_fiber u = t_scheduler_fiber s"
proof -
  have ok: "worker_ok s" using assms(1) by (rule worker_reach_ok)
  have t: "t = s\<lparr>heap := (heap s)(f \<mapsto> fb\<lparr>fb_state := kRunning\<rparr>), t_fiber := Some f,
      ctx := (ctx s)(0 \<mapsto> Native), control := Body f\<rparr>"
    using resume_worker [OF ok assms(2,3)] assms(4,5) by auto
  have okt: "worker_ok t"
    using worker_step_ok [OF worker_step.resume [OF assms(2,5)] ok] .
  have g: "control t = Body f" and fbt: "heap t f = Some (fb\<lparr>fb_state := kRunning\<rparr>)"
    by (simp_all add: t)
  have "op f t = switch_out f fb' t"
    using assms(6) hold_worker [OF okt g fbt] yield_worker [OF okt g fbt]
      mainFunc_exit_worker [OF fbt] by (auto simp: mark_finished_def)
  moreover have "t_fiber s = Some 0" using ok assms(2) by (simp add: worker_ok_def)
  ultimately show ?thesis by (simp add: switch_out_worker [OF okt g]) (simp add: t)
qed

theorem resume_switch_back_witness:
  "\<exists>u. hold 1 demo_running = Inr u \<and> control u = Native \<and> t_fiber u = Some 0"
proof -
  obtain fb where "heap demo_idle 1 = Some fb" "fb_state fb = kReady"
    by (simp add: demo_defs)
  moreover have "resume 1 demo_idle = Inr demo_running" by (simp add: demo_defs)
  moreover have "t_fiber demo_idle = Some 0" by (simp add: demo_defs)
  ultimately show ?thesis
    using resume_switch_back [OF demo_idle_reach demo_control(2), of 1 fb demo_running hold] by auto
qed

text \<open>
  A thread whose own fiber object is owned by \<^verbatim>\<open>t_scheduler_fiber\<close> alone loses it when
  a fiber is installed as the scheduler's with \<^verbatim>\<open>setSchedulerFiber\<close>, while
  \<^verbatim>\<open>t_thread_fiber\<close> keeps pointing to it: the next switch of a fiber created with
  \<^verbatim>\<open>run_in_scheduler = false\<close> goes through a dangling pointer. This is the call sequence
  of \<^verbatim>\<open>test/fiber_test.cpp\<close>.
\<close>

theorem setSchedulerFiber_leaves_dangling:
  "\<exists>f t u. make_fiber (Some 1) False 4096 (snd (runningFiber fresh_thread)) = Inr (f, t) \<and>
     resume f t = Inr u \<and>
     (let v = setSchedulerFiber (fst (runningFiber u)) u in
      t_thread_fiber v = Some 0 \<and> heap v 0 = None \<and> yield f v = Inl Dangling)"
  by (simp add: make_fiber_def new_fiber_def runningFiber_def fresh_thread_def switch_defs
      mark_resumed_def mark_yielded_def thread_fiber_def setSchedulerFiber_def Let_def)

end
