(* ===== verification/Koro_Task.thy ===== *)
theory Koro_Task
  imports Koro_Fiber
begin

text \<open>
  \<^verbatim>\<open>koro/task.h\<close>: the unit of work that the queues hold, and its move semantics. A
  \<^verbatim>\<open>ScheduledTask\<close> refers to a fiber or carries a callback; both may be empty.
\<close>

record scheduled_task =
  st_fiber :: "fid option"
  st_cb :: "callback option"

definition empty_task :: scheduled_task where
  "empty_task = \<lparr>st_fiber = None, st_cb = None\<rparr>"

definition task_of_fiber :: "fid \<Rightarrow> scheduled_task" where
  "task_of_fiber f = \<lparr>st_fiber = Some f, st_cb = None\<rparr>"

definition task_of_callback :: "callback \<Rightarrow> scheduled_task" where
  "task_of_callback c = \<lparr>st_fiber = None, st_cb = Some c\<rparr>"

text \<open>
  The constructors from a pointer swap the pointee with the empty member: the second component
  is what the caller's variable holds afterwards.
\<close>

definition task_swap_fiber :: "fid option \<Rightarrow> scheduled_task \<times> fid option" where
  "task_swap_fiber p = (\<lparr>st_fiber = p, st_cb = None\<rparr>, None)"

definition task_swap_callback :: "callback option \<Rightarrow> scheduled_task \<times> callback option" where
  "task_swap_callback p = (\<lparr>st_fiber = None, st_cb = p\<rparr>, None)"

text \<open>Move construction and assignment return the target and the moved-from source.\<close>

definition task_move :: "scheduled_task \<Rightarrow> scheduled_task \<times> scheduled_task" where
  "task_move other =
     (\<lparr>st_fiber = st_fiber other, st_cb = st_cb other\<rparr>, other\<lparr>st_fiber := None, st_cb := None\<rparr>)"

definition task_move_assign :: "bool \<Rightarrow> scheduled_task \<Rightarrow> scheduled_task \<Rightarrow>
    scheduled_task \<times> scheduled_task" where
  "task_move_assign same this other =
     (if same then (this, other)
      else (this\<lparr>st_fiber := st_fiber other, st_cb := st_cb other\<rparr>,
            other\<lparr>st_fiber := None, st_cb := None\<rparr>))"

definition task_clear :: "scheduled_task \<Rightarrow> scheduled_task" where
  "task_clear t = t\<lparr>st_fiber := None, st_cb := None\<rparr>"

definition task_bool :: "scheduled_task \<Rightarrow> bool" where
  "task_bool t \<longleftrightarrow> st_fiber t \<noteq> None \<or> st_cb t \<noteq> None"

lemma st_fiber_task_of_fiber [simp]: "st_fiber (task_of_fiber f) = Some f"
  by (simp add: task_of_fiber_def)

lemma st_fiber_task_of_callback [simp]: "st_fiber (task_of_callback c) = None"
  by (simp add: task_of_callback_def)

text \<open>A move transfers the work: the target is as runnable as the source was, the source is empty.\<close>

lemma task_move_transfers:
  "task_move t = (u, v) \<Longrightarrow> u = t \<and> \<not> task_bool v"
  by (auto simp: task_move_def task_bool_def)

lemma task_move_assign_transfers:
  "task_move_assign False a b = (u, v) \<Longrightarrow> u = b \<and> \<not> task_bool v"
  by (auto simp: task_move_assign_def task_bool_def)

end
