(* ===== verification/Work_Queues.thy ===== *)
theory Work_Queues
  imports Prelude
begin

text \<open>
  The interface of an array of work queues, which the scheduler and the thread pool both
  offer to their workers: post a task on a queue, take the next one of the own queue, steal one
  from another. A provider promises that each operation accounts for every task; the client
  lemma lifts this to any sequence of operations.
\<close>

datatype 'a queue_op = Post nat 'a | Take nat | Steal nat "nat \<Rightarrow> bool"

fun run_op :: "(nat \<Rightarrow> 'a \<Rightarrow> 'q \<Rightarrow> 'q) \<Rightarrow> (nat \<Rightarrow> 'q \<Rightarrow> 'a option \<times> 'q) \<Rightarrow>
    (nat \<Rightarrow> (nat \<Rightarrow> bool) \<Rightarrow> 'q \<Rightarrow> 'a option \<times> 'q) \<Rightarrow> 'a queue_op \<Rightarrow> 'q \<Rightarrow> 'a option \<times> 'q" where
  "run_op post fetch steal (Post i x) q = (None, post i x q)"
| "run_op post fetch steal (Take i) q = fetch i q"
| "run_op post fetch steal (Steal i free) q = steal i free q"

text \<open>The tasks handed out by a sequence of operations, and the queues it leaves.\<close>

fun run_ops :: "(nat \<Rightarrow> 'a \<Rightarrow> 'q \<Rightarrow> 'q) \<Rightarrow> (nat \<Rightarrow> 'q \<Rightarrow> 'a option \<times> 'q) \<Rightarrow>
    (nat \<Rightarrow> (nat \<Rightarrow> bool) \<Rightarrow> 'q \<Rightarrow> 'a option \<times> 'q) \<Rightarrow> 'a queue_op list \<Rightarrow> 'q \<Rightarrow> 'a list \<times> 'q" where
  "run_ops post fetch steal [] q = ([], q)"
| "run_ops post fetch steal (p # ps) q =
     (let (r, q1) = run_op post fetch steal p q; (rs, q2) = run_ops post fetch steal ps q1
      in (case r of None \<Rightarrow> rs | Some x \<Rightarrow> x # rs, q2))"

fun op_posts :: "'a queue_op \<Rightarrow> 'a multiset" where
  "op_posts (Post i x) = {#x#}"
| "op_posts _ = {#}"

fun op_index :: "'a queue_op \<Rightarrow> nat" where
  "op_index (Post i x) = i"
| "op_index (Take i) = i"
| "op_index (Steal i free) = i"

definition posted :: "'a queue_op list \<Rightarrow> 'a multiset" where
  "posted ps = sum_list (map op_posts ps)"

definition opt_mset :: "'a option \<Rightarrow> 'a multiset" where
  "opt_mset r = (case r of None \<Rightarrow> {#} | Some x \<Rightarrow> {#x#})"

lemma opt_mset_simps [simp]: "opt_mset None = {#}" "opt_mset (Some x) = {#x#}"
  by (simp_all add: opt_mset_def)

locale work_queues =
  fixes post :: "nat \<Rightarrow> 'a \<Rightarrow> 'q \<Rightarrow> 'q"
    and fetch :: "nat \<Rightarrow> 'q \<Rightarrow> 'a option \<times> 'q"
    and steal :: "nat \<Rightarrow> (nat \<Rightarrow> bool) \<Rightarrow> 'q \<Rightarrow> 'a option \<times> 'q"
    and contents :: "'q \<Rightarrow> 'a multiset"
    and width :: nat
  assumes post_contents: "i < width \<Longrightarrow> contents (post i x q) = add_mset x (contents q)"
    and fetch_contents: "i < width \<Longrightarrow> fetch i q = (r, q') \<Longrightarrow> contents q = opt_mset r + contents q'"
    and steal_contents: "i < width \<Longrightarrow> steal i free q = (r, q') \<Longrightarrow>
      contents q = opt_mset r + contents q'"
begin

lemma run_op_contents:
  assumes "run_op post fetch steal p q = (r, q')" "op_index p < width"
  shows "contents q + op_posts p = opt_mset r + contents q'"
  using assms fetch_contents steal_contents by (cases p) (auto simp: post_contents)

lemma run_ops_contents:
  "run_ops post fetch steal ps q = (rs, q') \<Longrightarrow> (\<And>p. p \<in> set ps \<Longrightarrow> op_index p < width) \<Longrightarrow>
   contents q + posted ps = mset rs + contents q'"
proof (induction ps arbitrary: q rs)
  case (Cons p ps)
  obtain r q1 where one: "run_op post fetch steal p q = (r, q1)" by fastforce
  obtain rs' where more: "run_ops post fetch steal ps q1 = (rs', q')"
    and rs: "rs = (case r of None \<Rightarrow> rs' | Some x \<Rightarrow> x # rs')"
    using Cons.prems(1) one by (auto split: prod.splits)
  have "contents q1 + posted ps = mset rs' + contents q'"
    using Cons.IH [OF more] Cons.prems(2) by simp
  moreover have "contents q + op_posts p = opt_mset r + contents q1"
    using run_op_contents [OF one] Cons.prems(2) by simp
  moreover have "mset rs = opt_mset r + mset rs'" by (simp add: rs split: option.split)
  ultimately show ?case by (simp add: posted_def) (metis (no_types, lifting) add.assoc add.commute)
qed (simp add: posted_def)

end

section \<open>Contents of an array of lists\<close>

definition array_contents :: "nat \<Rightarrow> (nat \<Rightarrow> 'a list) \<Rightarrow> 'a multiset" where
  "array_contents n qs = (\<Sum>i<n. mset (qs i))"

lemma array_contents_upd:
  "i < n \<Longrightarrow> array_contents n (qs(i := xs)) + mset (qs i) = array_contents n qs + mset xs"
  unfolding array_contents_def by (rule sum_fun_upd)

lemma array_contents_snoc:
  "i < n \<Longrightarrow> array_contents n (qs(i := qs i @ [x])) = add_mset x (array_contents n qs)"
  using array_contents_upd [of i n qs "qs i @ [x]"] by simp

lemma array_contents_remove:
  assumes "i < n" "mset (qs i) = add_mset x (mset xs)"
  shows "array_contents n qs = add_mset x (array_contents n (qs(i := xs)))"
  using array_contents_upd [OF assms(1), of qs xs] assms(2) by simp

lemma mset_snoc_butlast: "xs \<noteq> [] \<Longrightarrow> mset xs = add_mset (last xs) (mset (butlast xs))"
  by (metis append_butlast_last_id mset.simps(1,2) add_mset_add_single mset_append)

section \<open>Tallies\<close>

text \<open>How often \<open>x\<close> occurs in the multisets that \<open>n\<close> components hold.\<close>

definition tally :: "nat \<Rightarrow> ('b \<Rightarrow> 'a multiset) \<Rightarrow> (nat \<Rightarrow> 'b) \<Rightarrow> 'a \<Rightarrow> int" where
  "tally n g f x = (\<Sum>i<n. int (count (g (f i)) x))"

lemma tally_upd [simp]:
  "w < n \<Longrightarrow> tally n g (f(w := v)) x =
     tally n g f x - int (count (g (f w)) x) + int (count (g v) x)"
  using sum_fun_upd [of w n "\<lambda>p. int (count (g p) x)" f v] by (simp add: tally_def)

lemma tally_empty: "(\<And>i. i < n \<Longrightarrow> g (f i) = {#}) \<Longrightarrow> tally n g f x = 0"
  by (simp add: tally_def)

lemma tally_sum: "tally n g f x = int (count (\<Sum>i<n. g (f i)) x)"
  by (simp add: tally_def count_sum)

end
