(* ===== verification/Koro_Scheduler.thy ===== *)
theory Koro_Scheduler
  imports Koro_Task Work_Queues
begin

text \<open>
  The shared state of \<^verbatim>\<open>Scheduler\<close> (\<^verbatim>\<open>koro/scheduler.h\<close>, \<^verbatim>\<open>koro/scheduler.cpp\<close>)
  and \<^verbatim>\<open>IOManager\<close> (\<^verbatim>\<open>koro/io_manager.cpp\<close>), and each atomic operation on it: one
  lock-protected section, one atomic access or one system call. \<^verbatim>\<open>Koro_Worker\<close> puts them
  together into the interleaved machine. Memory is sequentially consistent: the orderings
  weaker than \<^verbatim>\<open>seq_cst\<close> in the code are not modelled.
\<close>

section \<open>Program counters\<close>

text \<open>
  \<open>chk\<close> is the position inside \<^verbatim>\<open>Scheduler::stopping\<close>, which reads the three atomics
  one after the other and then locks the queues in turn.
\<close>

datatype chk = ChkStop | ChkActive | ChkPending | ChkQueue nat

text \<open>
  What \<^verbatim>\<open>epoll_wait\<close> reports: the queue's own wake-up descriptor, or an event whose
  handler pushes a task (a channel's callback, a timer that is due).
\<close>

datatype event = EvWakeup | EvTask scheduled_task

text \<open>
  The positions of a worker: the \<open>Run\<close> ones are in \<^verbatim>\<open>Scheduler::run\<close>, the \<open>Idle\<close> ones
  in \<^verbatim>\<open>IOManager::idle\<close>, the \<open>Base\<close> ones in \<^verbatim>\<open>Scheduler::idle\<close>.
  \<open>RunBody t f\<close>: the user code of fiber \<open>f\<close> executes. \<open>RunFail\<close>: an assertion failed.
\<close>

datatype wpc =
    RunTop
  | RunSteal nat
  | RunNoTask
  | RunGot scheduled_task
  | RunDispatch scheduled_task
  | RunRequeue scheduled_task
  | RunCheck scheduled_task fid
  | RunDrop fid
  | RunResume scheduled_task fid
  | RunBody scheduled_task fid
  | RunBack scheduled_task fid
  | RunUnlock fid
  | RunDone
  | RunExit
  | RunFail
  | IdleTop
  | IdleStop chk
  | IdleHasTask
  | IdleLeave
  | IdlePoll
  | IdleWoken "event list"
  | IdleEvents "event list"
  | IdleStop2 chk
  | IdleQuit
  | BaseTop
  | BaseLock
  | BaseSleep
  | BaseWake
  | BaseStop chk

text \<open>The positions inside \<^verbatim>\<open>submit\<close> and \<^verbatim>\<open>tickle\<close>, and inside \<^verbatim>\<open>stop\<close>.\<close>

datatype subpc = SubNone | SubIndex scheduled_task | SubPush nat scheduled_task
  | SubTickle nat | SubWake nat

datatype stpc = StIdle | StSweep nat | StSweepWake nat | StCheck chk | StFinal nat
  | StFinalWake nat | StJoin nat | StDone

section \<open>The state\<close>

text \<open>
  \<open>io\<close> selects the virtual functions of \<^verbatim>\<open>IOManager\<close>. \<open>wakeups\<close> are the counters of
  the wake-up eventfds. \<open>idle_term\<close>: the idle fiber has terminated. \<open>n_all\<close> bounds the
  threads that can be inside \<^verbatim>\<open>submit\<close>: the workers and the other threads of the process.
  \<open>born\<close> and \<open>retired\<close> are history variables, not fields of the program: the tasks that
  entered the scheduler, and those whose fiber terminated, is held by an event, or was
  replaced by the fiber created for it.
\<close>

record sched =
  io :: bool
  n_threads :: nat
  n_all :: nat
  stop_flag :: bool
  pending :: u64
  active :: u64
  post_index :: u64
  tasks :: "nat \<Rightarrow> scheduled_task list"
  idling :: "nat \<Rightarrow> bool"
  wakeups :: "nat \<Rightarrow> nat"
  fibers :: "fid \<Rightarrow> fiber option"
  fresh :: fid
  pcs :: "nat \<Rightarrow> wpc"
  idle_term :: "nat \<Rightarrow> bool"
  subs :: "nat \<Rightarrow> subpc"
  stopper :: stpc
  born :: "scheduled_task multiset"
  retired :: "scheduled_task multiset"

text \<open>The state after \<^verbatim>\<open>init()\<close>: the workers start at the top of \<^verbatim>\<open>run\<close>.\<close>

definition init_sched :: "bool \<Rightarrow> nat \<Rightarrow> nat \<Rightarrow> sched" where
  "init_sched b n m = \<lparr>io = b, n_threads = n, n_all = n + m, stop_flag = False, pending = 0,
     active = 0, post_index = 0, tasks = (\<lambda>_. []), idling = (\<lambda>_. False), wakeups = (\<lambda>_. 0),
     fibers = (\<lambda>_. None), fresh = 0, pcs = (\<lambda>_. RunTop), idle_term = (\<lambda>_. False),
     subs = (\<lambda>_. SubNone), stopper = StIdle, born = {#}, retired = {#}\<rparr>"

definition goto :: "nat \<Rightarrow> wpc \<Rightarrow> sched \<Rightarrow> sched" where
  "goto w pc s = s\<lparr>pcs := (pcs s)(w := pc)\<rparr>"

definition push_back :: "nat \<Rightarrow> scheduled_task \<Rightarrow> sched \<Rightarrow> sched" where
  "push_back i t s = s\<lparr>tasks := (tasks s)(i := tasks s i @ [t])\<rparr>"

definition set_idling :: "nat \<Rightarrow> bool \<Rightarrow> sched \<Rightarrow> sched" where
  "set_idling w b s = s\<lparr>idling := (idling s)(w := b)\<rparr>"

definition set_fiber :: "fid \<Rightarrow> fiber \<Rightarrow> sched \<Rightarrow> sched" where
  "set_fiber f fb s = s\<lparr>fibers := (fibers s)(f \<mapsto> fb)\<rparr>"

definition add_born :: "scheduled_task \<Rightarrow> sched \<Rightarrow> sched" where
  "add_born t s = s\<lparr>born := add_mset t (born s)\<rparr>"

definition add_retired :: "scheduled_task \<Rightarrow> sched \<Rightarrow> sched" where
  "add_retired t s = s\<lparr>retired := add_mset t (retired s)\<rparr>"

lemmas update_defs [machine_simps] = goto_def push_back_def set_idling_def set_fiber_def
  add_born_def add_retired_def

section \<open>\<^verbatim>\<open>Scheduler::stopping\<close>\<close>

definition no_skip :: nat where
  "no_skip = 2 ^ 64 - 1"

text \<open>One access of \<^verbatim>\<open>stopping\<close>: the next position, or the result.\<close>

definition stopping_step :: "sched \<Rightarrow> nat \<Rightarrow> chk \<Rightarrow> chk + bool" where
  "stopping_step s skip c =
     (case c of
        ChkStop \<Rightarrow> if \<not> stop_flag s then Inr False else Inl ChkActive
      | ChkActive \<Rightarrow> if active s \<noteq> 0 then Inr False else Inl ChkPending
      | ChkPending \<Rightarrow> if pending s \<noteq> 0 then Inr False else Inl (ChkQueue 0)
      | ChkQueue i \<Rightarrow>
          if i < n_threads s
          then (if i = skip then Inl (ChkQueue (Suc i))
                else if tasks s i \<noteq> [] then Inr False else Inl (ChkQueue (Suc i)))
          else Inr True)"

text \<open>The whole function on a state that does not change meanwhile.\<close>

definition stopping :: "sched \<Rightarrow> nat \<Rightarrow> bool" where
  "stopping s skip \<longleftrightarrow>
     stop_flag s \<and> active s = 0 \<and> pending s = 0 \<and>
     (\<forall>i \<in> set [0..<n_threads s]. i \<noteq> skip \<longrightarrow> tasks s i = [])"

fun stopping_run :: "nat \<Rightarrow> sched \<Rightarrow> nat \<Rightarrow> chk \<Rightarrow> bool option" where
  "stopping_run 0 s skip c = None"
| "stopping_run (Suc k) s skip c =
     (case stopping_step s skip c of Inr b \<Rightarrow> Some b | Inl c' \<Rightarrow> stopping_run k s skip c')"

lemma stopping_run_queues:
  "k > n_threads s - i \<Longrightarrow> i \<le> n_threads s \<Longrightarrow>
   stopping_run k s skip (ChkQueue i) =
     Some (\<forall>j \<in> {i..<n_threads s}. j \<noteq> skip \<longrightarrow> tasks s j = [])"
proof (induction k arbitrary: i)
  case (Suc k)
  show ?case
  proof (cases "i < n_threads s")
    case True
    then have split: "{i..<n_threads s} = insert i {Suc i..<n_threads s}" by auto
    from True Suc.prems have "stopping_run k s skip (ChkQueue (Suc i)) =
      Some (\<forall>j \<in> {Suc i..<n_threads s}. j \<noteq> skip \<longrightarrow> tasks s j = [])"
      by (intro Suc.IH) auto
    with True show ?thesis
      by (auto simp: stopping_step_def split)
  qed (use Suc.prems in \<open>simp add: stopping_step_def\<close>)
qed simp

section \<open>\<^verbatim>\<open>submit\<close> and \<^verbatim>\<open>tickle\<close>\<close>

text \<open>
  The second half of \<^verbatim>\<open>tickle\<close>, after it has read \<^verbatim>\<open>idling\<close> as true: the I/O manager
  adds one to the eventfd, the base class notifies the condition variable, which wakes the
  worker if it sleeps on it and is lost otherwise.
\<close>

definition wake :: "nat \<Rightarrow> sched \<Rightarrow> sched" where
  "wake i s =
     (if io s then s\<lparr>wakeups := (wakeups s)(i := Suc (wakeups s i))\<rparr>
      else if pcs s i = BaseSleep then goto i BaseWake s else s)"

definition submit_target :: "u64 \<Rightarrow> nat \<Rightarrow> nat" where
  "submit_target idx n = unat idx mod n"

definition submit_index :: "nat \<Rightarrow> scheduled_task \<Rightarrow> sched \<Rightarrow> sched" where
  "submit_index c t s =
     s\<lparr>post_index := post_index s + 1,
       subs := (subs s)(c := SubPush (submit_target (post_index s) (n_threads s)) t)\<rparr>"

definition submit_push :: "nat \<Rightarrow> nat \<Rightarrow> scheduled_task \<Rightarrow> sched \<Rightarrow> sched" where
  "submit_push c i t s =
     (let need_tickle = (tasks s i = []) in
      (push_back i t s)\<lparr>subs := (subs s)(c := if need_tickle then SubTickle i else SubNone)\<rparr>)"

definition submit_tickle :: "nat \<Rightarrow> nat \<Rightarrow> sched \<Rightarrow> sched" where
  "submit_tickle c i s = s\<lparr>subs := (subs s)(c := if idling s i then SubWake i else SubNone)\<rparr>"

definition submit_wake :: "nat \<Rightarrow> nat \<Rightarrow> sched \<Rightarrow> sched" where
  "submit_wake c i s = (wake i s)\<lparr>subs := (subs s)(c := SubNone)\<rparr>"

definition submit_step :: "nat \<Rightarrow> sched \<Rightarrow> sched option" where
  "submit_step c s =
     (case subs s c of
        SubNone \<Rightarrow> None
      | SubIndex t \<Rightarrow> Some (submit_index c t s)
      | SubPush i t \<Rightarrow> Some (submit_push c i t s)
      | SubTickle i \<Rightarrow> Some (submit_tickle c i s)
      | SubWake i \<Rightarrow> Some (submit_wake c i s))"

text \<open>
  A call of \<^verbatim>\<open>submit\<close> begins: by a thread that is not a worker, or by the code of the fiber
  that a worker runs. The task carries a callback or an existing fiber; \<open>spawn\<close> is the call
  with a fiber that the caller has just created.
\<close>

definition may_submit :: "nat \<Rightarrow> sched \<Rightarrow> bool" where
  "may_submit c s \<longleftrightarrow> c < n_all s \<and> subs s c = SubNone \<and>
     (c < n_threads s \<longrightarrow> (case pcs s c of RunBody t f \<Rightarrow> True | _ \<Rightarrow> False))"

definition submit_begin :: "nat \<Rightarrow> scheduled_task \<Rightarrow> sched \<Rightarrow> sched option" where
  "submit_begin c t s =
     (if may_submit c s \<and> (\<forall>f \<in> set_option (st_fiber t). fibers s f \<noteq> None)
      then Some (add_born t (s\<lparr>subs := (subs s)(c := SubIndex t)\<rparr>)) else None)"

definition submit_spawn :: "nat \<Rightarrow> callback option \<Rightarrow> sched \<Rightarrow> sched option" where
  "submit_spawn c cb s =
     (if may_submit c s
      then let f = fresh s; t = task_of_fiber f in
           Some (add_born t (set_fiber f (wrapper_fiber cb)
                   (s\<lparr>fresh := Suc f, subs := (subs s)(c := SubIndex t)\<rparr>)))
      else None)"

section \<open>\<^verbatim>\<open>Scheduler::stealTask\<close>\<close>

text \<open>
  One try: \<open>free\<close> is the outcome of the \<^verbatim>\<open>try_lock\<close>. A task is taken from the back of
  the victim's queue.
\<close>

definition steal_try :: "nat \<Rightarrow> bool \<Rightarrow> (nat \<Rightarrow> 'a list) \<Rightarrow> ('a \<times> (nat \<Rightarrow> 'a list)) option" where
  "steal_try victim free qs =
     (if free \<and> qs victim \<noteq> [] then Some (last (qs victim), qs(victim := butlast (qs victim)))
      else None)"

text \<open>The loop over the victims, on queues that do not change meanwhile.\<close>

fun steal_first :: "nat list \<Rightarrow> (nat \<Rightarrow> bool) \<Rightarrow> (nat \<Rightarrow> 'a list) \<Rightarrow> 'a option \<times> (nat \<Rightarrow> 'a list)" where
  "steal_first [] free qs = (None, qs)"
| "steal_first (v # vs) free qs =
     (case steal_try v (free v) qs of
        Some (t, qs') \<Rightarrow> (Some t, qs')
      | None \<Rightarrow> steal_first vs free qs)"

definition stealTask :: "nat \<Rightarrow> nat \<Rightarrow> (nat \<Rightarrow> bool) \<Rightarrow> (nat \<Rightarrow> 'a list) \<Rightarrow>
    'a option \<times> (nat \<Rightarrow> 'a list)" where
  "stealTask n thief free qs = steal_first (victims thief n) free qs"

lemma steal_first_None:
  "steal_first vs free qs = (None, qs') \<Longrightarrow>
   qs' = qs \<and> (\<forall>v \<in> set vs. free v \<longrightarrow> qs v = [])"
  by (induction vs) (auto simp: steal_try_def split: if_splits)

lemma steal_first_Some:
  "steal_first vs free qs = (Some t, qs') \<Longrightarrow>
   \<exists>v \<in> set vs. free v \<and> qs v \<noteq> [] \<and> t = last (qs v) \<and> qs' = qs(v := butlast (qs v))"
  by (induction vs) (auto simp: steal_try_def split: if_splits)

text \<open>
  The queues of the scheduler as a provider of \<^verbatim>\<open>Work_Queues\<close>: \<open>submit\<close> and the
  requeueing of a fiber push at the back, a worker takes at the front, a thief at the back.
\<close>

definition queue_post :: "nat \<Rightarrow> 'a \<Rightarrow> (nat \<Rightarrow> 'a list) \<Rightarrow> (nat \<Rightarrow> 'a list)" where
  "queue_post i x qs = qs(i := qs i @ [x])"

definition queue_take :: "nat \<Rightarrow> (nat \<Rightarrow> 'a list) \<Rightarrow> 'a option \<times> (nat \<Rightarrow> 'a list)" where
  "queue_take i qs = (case qs i of [] \<Rightarrow> (None, qs) | x # xs \<Rightarrow> (Some x, qs(i := xs)))"

lemma stealTask_Some:
  assumes "stealTask n thief free qs = (Some t, qs')" "thief < n"
  shows "\<exists>v < n. v \<noteq> thief \<and> free v \<and> qs v \<noteq> [] \<and> t = last (qs v) \<and> qs' = qs(v := butlast (qs v))"
  using steal_first_Some [of "victims thief n" free qs t qs'] assms set_victims [of thief n]
  by (auto simp: stealTask_def)

interpretation sched_queues: work_queues queue_post queue_take "stealTask n" "array_contents n" n
  for n
proof unfold_locales
  fix i :: nat and x :: 'a and q
  assume "i < n"
  then show "array_contents n (queue_post i x q) = add_mset x (array_contents n q)"
    by (simp add: queue_post_def array_contents_snoc)
next
  fix i :: nat and q q' :: "nat \<Rightarrow> 'a list" and r
  assume "i < n" "queue_take i q = (r, q')"
  then show "array_contents n q = opt_mset r + array_contents n q'"
    by (auto simp: queue_take_def array_contents_remove split: list.splits)
next
  fix i :: nat and free and q q' :: "nat \<Rightarrow> 'a list" and r
  assume i: "i < n" and st: "stealTask n i free q = (r, q')"
  show "array_contents n q = opt_mset r + array_contents n q'"
  proof (cases r)
    case None
    with st steal_first_None [of "victims i n" free q q'] show ?thesis by (auto simp: stealTask_def)
  next
    case (Some t)
    with stealTask_Some [of n i free q t q'] st i obtain v
      where "v < n" "q v \<noteq> []" "t = last (q v)" "q' = q(v := butlast (q v))" by auto
    then show ?thesis using Some mset_snoc_butlast [of "q v"]
      by (simp add: array_contents_remove)
  qed
qed

lemma mset_hd_tl: "xs \<noteq> [] \<Longrightarrow> mset xs = add_mset (hd xs) (mset (tl xs))"
  by (cases xs) auto

end
