(* ===== verification/Koro_Worker.thy ===== *)
theory Koro_Worker
  imports Koro_Scheduler
begin

text \<open>
  The interleaved machine: every worker in \<^verbatim>\<open>Scheduler::run\<close> and in its idle fiber
  (\<^verbatim>\<open>IOManager::idle\<close> or \<^verbatim>\<open>Scheduler::idle\<close>), any number of threads inside
  \<^verbatim>\<open>submit\<close>, and one thread inside \<^verbatim>\<open>stop\<close>. An action names the thread that moves
  and what its environment decides; \<open>sched_step\<close> executes it.
\<close>

section \<open>\<^verbatim>\<open>Scheduler::run\<close>\<close>

text \<open>Take the front of the own queue, under its lock.\<close>

definition run_take :: "nat \<Rightarrow> sched \<Rightarrow> sched" where
  "run_take w s =
     (case tasks s w of
        [] \<Rightarrow> goto w (RunSteal 1) s
      | t # ts \<Rightarrow> goto w (RunGot t) (s\<lparr>tasks := (tasks s)(w := ts)\<rparr>))"

text \<open>One iteration of the loop of \<^verbatim>\<open>stealTask\<close>.\<close>

definition run_steal :: "nat \<Rightarrow> nat \<Rightarrow> bool \<Rightarrow> sched \<Rightarrow> sched" where
  "run_steal w i free s =
     (if i < n_threads s
      then (case steal_try ((w + i) mod n_threads s) free (tasks s) of
              Some (t, qs) \<Rightarrow> goto w (RunGot t) (s\<lparr>tasks := qs\<rparr>)
            | None \<Rightarrow> goto w (RunSteal (Suc i)) s)
      else goto w RunNoTask s)"

text \<open>No task: resume the idle fiber where it yielded, or leave when it has terminated.\<close>

definition run_no_task :: "nat \<Rightarrow> sched \<Rightarrow> sched" where
  "run_no_task w s =
     (if \<not> idle_term s w then goto w (if io s then IdleTop else BaseTop) s else goto w RunExit s)"

definition run_got :: "nat \<Rightarrow> scheduled_task \<Rightarrow> sched \<Rightarrow> sched" where
  "run_got w t s = goto w (RunDispatch t) (s\<lparr>active := active s + 1\<rparr>)"

text \<open>
  A task with a fiber tries the fiber's lock; a task with a callback gets a new fiber, locked
  by this worker (the result of \<^verbatim>\<open>tryLock\<close> is ignored).
\<close>

definition run_dispatch :: "nat \<Rightarrow> scheduled_task \<Rightarrow> sched \<Rightarrow> sched" where
  "run_dispatch w t s =
     (case st_fiber t of
        Some f \<Rightarrow>
          (case fibers s f of
             None \<Rightarrow> goto w RunFail s
           | Some fb \<Rightarrow>
               let (ok, fb1) = tryLock fb in
               if ok then goto w (RunCheck t f) (set_fiber f fb1 s)
               else goto w (RunRequeue t) s)
      | None \<Rightarrow>
          let f = fresh s; u = task_of_fiber f; (_, fb) = tryLock (wrapper_fiber (st_cb t)) in
          goto w (RunResume u f)
            (add_retired t (add_born u (set_fiber f fb (s\<lparr>fresh := Suc f\<rparr>)))))"

definition run_requeue :: "nat \<Rightarrow> scheduled_task \<Rightarrow> sched \<Rightarrow> sched" where
  "run_requeue w t s = goto w RunDone (push_back w t s)"

definition run_check :: "nat \<Rightarrow> scheduled_task \<Rightarrow> fid \<Rightarrow> sched \<Rightarrow> sched" where
  "run_check w t f s =
     (case fibers s f of
        None \<Rightarrow> goto w RunFail s
      | Some fb \<Rightarrow>
          if fb_state fb = kTerm then goto w (RunDrop f) (add_retired t s)
          else goto w (RunResume t f) s)"

definition run_resume :: "nat \<Rightarrow> scheduled_task \<Rightarrow> fid \<Rightarrow> sched \<Rightarrow> sched" where
  "run_resume w t f s =
     (case fibers s f of
        None \<Rightarrow> goto w RunFail s
      | Some fb \<Rightarrow>
          (case mark_resumed fb of
             Inl e \<Rightarrow> goto w RunFail s
           | Inr fb1 \<Rightarrow> goto w (RunBody t f) (set_fiber f fb1 s)))"

text \<open>
  The user code gives control back: \<open>m\<close> is what \<^verbatim>\<open>yield\<close>, \<^verbatim>\<open>hold\<close> or the tail of
  \<^verbatim>\<open>mainFunc\<close> do to the fiber.
\<close>

definition run_leave :: "nat \<Rightarrow> scheduled_task \<Rightarrow> fid \<Rightarrow> (fiber \<Rightarrow> fiber_error + fiber) \<Rightarrow>
    sched \<Rightarrow> sched" where
  "run_leave w t f m s =
     (case fibers s f of
        None \<Rightarrow> goto w RunFail s
      | Some fb \<Rightarrow>
          (case m fb of
             Inl e \<Rightarrow> goto w RunFail s
           | Inr fb1 \<Rightarrow> goto w (RunBack t f) (set_fiber f fb1 s)))"

definition finish_fiber :: "fiber \<Rightarrow> fiber_error + fiber" where
  "finish_fiber fb = mark_yielded (mark_finished fb)"

text \<open>
  The user code runs the wake-up callback of \<^verbatim>\<open>do_io\<close>: it pushes a held fiber on the
  queue of the worker that executes the callback.
\<close>

definition run_wake_fiber :: "nat \<Rightarrow> fid \<Rightarrow> sched \<Rightarrow> sched option" where
  "run_wake_fiber w g s =
     (if fibers s g \<noteq> None
      then Some (add_born (task_of_fiber g) (push_back w (task_of_fiber g) s)) else None)"

text \<open>The user code registers or cancels an event or a timer: the count of pending events.\<close>

definition run_pending :: "u64 \<Rightarrow> sched \<Rightarrow> sched" where
  "run_pending d s = s\<lparr>pending := pending s + d\<rparr>"

text \<open>After the fiber has switched back: requeue it if it is ready, under the queue's lock.\<close>

definition run_back :: "nat \<Rightarrow> scheduled_task \<Rightarrow> fid \<Rightarrow> sched \<Rightarrow> sched" where
  "run_back w t f s =
     (case fibers s f of
        None \<Rightarrow> goto w RunFail s
      | Some fb \<Rightarrow>
          if fb_state fb = kRunning then goto w RunFail s
          else if fb_state fb = kReady then goto w (RunUnlock f) (push_back w t s)
          else goto w (RunUnlock f) (add_retired t s))"

definition run_unlock :: "nat \<Rightarrow> fid \<Rightarrow> sched \<Rightarrow> sched" where
  "run_unlock w f s =
     (case fibers s f of
        None \<Rightarrow> goto w RunFail s
      | Some fb \<Rightarrow> goto w RunDone (set_fiber f (unlock fb) s))"

definition run_done :: "nat \<Rightarrow> sched \<Rightarrow> sched" where
  "run_done w s = goto w RunTop (s\<lparr>active := active s - 1\<rparr>)"

lemmas run_defs [machine_simps] = run_take_def run_steal_def run_no_task_def run_got_def
  run_dispatch_def run_requeue_def run_check_def run_resume_def run_leave_def
  run_wake_fiber_def run_pending_def run_back_def run_unlock_def run_done_def

section \<open>\<^verbatim>\<open>IOManager::idle\<close>\<close>

definition idle_top :: "nat \<Rightarrow> sched \<Rightarrow> sched" where
  "idle_top w s = goto w (IdleStop ChkStop) (set_idling w True s)"

definition idle_stop :: "nat \<Rightarrow> chk \<Rightarrow> sched \<Rightarrow> sched" where
  "idle_stop w c s =
     (case stopping_step s no_skip c of
        Inl c' \<Rightarrow> goto w (IdleStop c') s
      | Inr b \<Rightarrow> goto w (if b then IdleQuit else IdleHasTask) s)"

definition idle_quit :: "nat \<Rightarrow> sched \<Rightarrow> sched" where
  "idle_quit w s = goto w RunTop ((set_idling w False s)\<lparr>idle_term := (idle_term s)(w := True)\<rparr>)"

definition idle_has_task :: "nat \<Rightarrow> sched \<Rightarrow> sched" where
  "idle_has_task w s = goto w (if tasks s w \<noteq> [] then IdleLeave else IdlePoll) s"

definition idle_leave :: "nat \<Rightarrow> sched \<Rightarrow> sched" where
  "idle_leave w s = goto w RunTop (set_idling w False s)"

text \<open>
  \<^verbatim>\<open>epoll_wait\<close> without a timeout returns with the events that are ready, or with none
  when a signal interrupts it. The wake-up descriptor is readable if its counter is not zero.
\<close>

definition idle_poll :: "nat \<Rightarrow> event list \<Rightarrow> sched \<Rightarrow> sched option" where
  "idle_poll w evs s =
     (if EvWakeup \<in> set evs \<longrightarrow> wakeups s w \<noteq> 0 then Some (goto w (IdleWoken evs) s) else None)"

definition idle_woken :: "nat \<Rightarrow> event list \<Rightarrow> sched \<Rightarrow> sched" where
  "idle_woken w evs s = goto w (IdleEvents evs) (set_idling w False s)"

definition idle_events :: "nat \<Rightarrow> event list \<Rightarrow> sched \<Rightarrow> sched option" where
  "idle_events w evs s =
     (case evs of
        [] \<Rightarrow> Some (goto w (IdleStop2 ChkStop) s)
      | EvWakeup # es \<Rightarrow> Some (goto w (IdleEvents es) (s\<lparr>wakeups := (wakeups s)(w := 0)\<rparr>))
      | EvTask t # es \<Rightarrow>
          if \<forall>f \<in> set_option (st_fiber t). fibers s f \<noteq> None
          then Some (goto w (IdleEvents es) (add_born t (push_back w t s))) else None)"

definition idle_stop2 :: "nat \<Rightarrow> chk \<Rightarrow> sched \<Rightarrow> sched" where
  "idle_stop2 w c s =
     (case stopping_step s no_skip c of
        Inl c' \<Rightarrow> goto w (IdleStop2 c') s
      | Inr b \<Rightarrow> goto w RunTop (if b then s\<lparr>idle_term := (idle_term s)(w := True)\<rparr> else s))"

lemmas idle_defs [machine_simps] = idle_top_def idle_stop_def idle_quit_def idle_has_task_def
  idle_leave_def idle_poll_def idle_woken_def idle_events_def idle_stop2_def

section \<open>\<^verbatim>\<open>Scheduler::idle\<close>\<close>

definition base_top :: "nat \<Rightarrow> sched \<Rightarrow> sched" where
  "base_top w s = goto w BaseLock (set_idling w True s)"

text \<open>\<^verbatim>\<open>cv.wait(lock)\<close> sleeps, whatever the queue holds.\<close>

definition base_lock :: "nat \<Rightarrow> sched \<Rightarrow> sched" where
  "base_lock w s = goto w BaseSleep s"

definition base_wake :: "nat \<Rightarrow> sched \<Rightarrow> sched" where
  "base_wake w s = goto w (BaseStop ChkStop) (set_idling w False s)"

definition base_stop :: "nat \<Rightarrow> chk \<Rightarrow> sched \<Rightarrow> sched" where
  "base_stop w c s =
     (case stopping_step s no_skip c of
        Inl c' \<Rightarrow> goto w (BaseStop c') s
      | Inr b \<Rightarrow> goto w RunTop (if b then s\<lparr>idle_term := (idle_term s)(w := True)\<rparr> else s))"

lemmas base_defs [machine_simps] = base_top_def base_lock_def base_wake_def base_stop_def

section \<open>\<^verbatim>\<open>Scheduler::stop\<close>\<close>

definition stop_step :: "sched \<Rightarrow> sched option" where
  "stop_step s =
     (case stopper s of
        StIdle \<Rightarrow> Some (s\<lparr>stop_flag := True, stopper := if stop_flag s then StDone else StSweep 0\<rparr>)
      | StSweep i \<Rightarrow>
          Some (s\<lparr>stopper := if i < n_threads s
                  then (if idling s i then StSweepWake i else StSweep (Suc i)) else StCheck ChkStop\<rparr>)
      | StSweepWake i \<Rightarrow> Some ((wake i s)\<lparr>stopper := StSweep (Suc i)\<rparr>)
      | StCheck c \<Rightarrow>
          Some (s\<lparr>stopper := (case stopping_step s no_skip c of
                  Inl c' \<Rightarrow> StCheck c' | Inr b \<Rightarrow> if b then StFinal 0 else StSweep 0)\<rparr>)
      | StFinal i \<Rightarrow>
          Some (s\<lparr>stopper := if i < n_threads s
                  then (if idling s i then StFinalWake i else StFinal (Suc i)) else StJoin 0\<rparr>)
      | StFinalWake i \<Rightarrow> Some ((wake i s)\<lparr>stopper := StFinal (Suc i)\<rparr>)
      | StJoin i \<Rightarrow>
          if i < n_threads s
          then (if pcs s i = RunExit then Some (s\<lparr>stopper := StJoin (Suc i)\<rparr>) else None)
          else Some (s\<lparr>stopper := StDone\<rparr>)
      | StDone \<Rightarrow> None)"

section \<open>The machine\<close>

text \<open>
  The environment's choice for a worker's step: nothing to choose, the outcome of a
  \<^verbatim>\<open>try_lock\<close>, the events of a poll, a spurious wake-up, or what the user code does next.
\<close>

datatype choice = Go | Try bool | Poll "event list" | Spurious
  | UserYield | UserHold | UserReturn | UserWake fid | UserPending u64

definition on_go :: "choice \<Rightarrow> sched \<Rightarrow> sched option" where
  "on_go c t = (if c = Go then Some t else None)"

definition user_step :: "nat \<Rightarrow> scheduled_task \<Rightarrow> fid \<Rightarrow> choice \<Rightarrow> sched \<Rightarrow> sched option" where
  "user_step w t f c s =
     (if subs s w \<noteq> SubNone then None
      else case c of
             UserYield \<Rightarrow> Some (run_leave w t f mark_yielded s)
           | UserHold \<Rightarrow> Some (run_leave w t f mark_held s)
           | UserReturn \<Rightarrow> Some (run_leave w t f finish_fiber s)
           | UserWake g \<Rightarrow> run_wake_fiber w g s
           | UserPending d \<Rightarrow> Some (run_pending d s)
           | _ \<Rightarrow> None)"

definition run_worker :: "nat \<Rightarrow> choice \<Rightarrow> sched \<Rightarrow> sched option" where
  "run_worker w c s =
     (case pcs s w of
        RunTop \<Rightarrow> on_go c (run_take w s)
      | RunSteal i \<Rightarrow> (case c of Try free \<Rightarrow> Some (run_steal w i free s) | _ \<Rightarrow> None)
      | RunNoTask \<Rightarrow> on_go c (run_no_task w s)
      | RunGot t \<Rightarrow> on_go c (run_got w t s)
      | RunDispatch t \<Rightarrow> on_go c (run_dispatch w t s)
      | RunRequeue t \<Rightarrow> on_go c (run_requeue w t s)
      | RunCheck t f \<Rightarrow> on_go c (run_check w t f s)
      | RunDrop f \<Rightarrow> on_go c (run_unlock w f s)
      | RunResume t f \<Rightarrow> on_go c (run_resume w t f s)
      | RunBody t f \<Rightarrow> user_step w t f c s
      | RunBack t f \<Rightarrow> on_go c (run_back w t f s)
      | RunUnlock f \<Rightarrow> on_go c (run_unlock w f s)
      | RunDone \<Rightarrow> on_go c (run_done w s)
      | RunExit \<Rightarrow> None
      | RunFail \<Rightarrow> None
      | IdleTop \<Rightarrow> on_go c (idle_top w s)
      | IdleStop k \<Rightarrow> on_go c (idle_stop w k s)
      | IdleHasTask \<Rightarrow> on_go c (idle_has_task w s)
      | IdleLeave \<Rightarrow> on_go c (idle_leave w s)
      | IdlePoll \<Rightarrow> (case c of Poll evs \<Rightarrow> idle_poll w evs s | _ \<Rightarrow> None)
      | IdleWoken evs \<Rightarrow> on_go c (idle_woken w evs s)
      | IdleEvents evs \<Rightarrow> (if c = Go then idle_events w evs s else None)
      | IdleStop2 k \<Rightarrow> on_go c (idle_stop2 w k s)
      | IdleQuit \<Rightarrow> on_go c (idle_quit w s)
      | BaseTop \<Rightarrow> on_go c (base_top w s)
      | BaseLock \<Rightarrow> on_go c (base_lock w s)
      | BaseSleep \<Rightarrow> (if c = Spurious then Some (goto w BaseWake s) else None)
      | BaseWake \<Rightarrow> on_go c (base_wake w s)
      | BaseStop k \<Rightarrow> on_go c (base_stop w k s))"

datatype action =
    Worker nat choice
  | Submit nat
  | BeginSubmit nat scheduled_task
  | SpawnSubmit nat "callback option"
  | Stop

fun sched_step :: "sched \<Rightarrow> action \<Rightarrow> sched option" where
  "sched_step s (Worker w c) = (if w < n_threads s then run_worker w c s else None)"
| "sched_step s (Submit c) = (if c < n_all s then submit_step c s else None)"
| "sched_step s (BeginSubmit c t) = submit_begin c t s"
| "sched_step s (SpawnSubmit c cb) = submit_spawn c cb s"
| "sched_step s Stop = stop_step s"

text \<open>
  A \<^verbatim>\<open>BeginSubmit\<close> or \<^verbatim>\<open>SpawnSubmit\<close> by a worker is the code of its fiber calling
  \<^verbatim>\<open>submit\<close>; \<open>user_step\<close> waits until the call has returned.
\<close>

inductive sched_reach :: "bool \<Rightarrow> nat \<Rightarrow> nat \<Rightarrow> sched \<Rightarrow> bool" for b n m where
  init: "sched_reach b n m (init_sched b n m)"
| step: "sched_reach b n m s \<Longrightarrow> sched_step s a = Some t \<Longrightarrow> sched_reach b n m t"

lemma exec_all_reach:
  "sched_reach b n m s \<Longrightarrow> exec_all sched_step s acts = Some t \<Longrightarrow> sched_reach b n m t"
proof (induction acts arbitrary: s)
  case (Cons a acts)
  then obtain u where "sched_step s a = Some u" "exec_all sched_step u acts = Some t"
    by (auto split: option.splits)
  with Cons show ?case by (blast intro: sched_reach.step)
qed simp

lemma exec_all_init_reach:
  "exec_all sched_step (init_sched b n m) acts = Some t \<Longrightarrow> sched_reach b n m t"
  by (rule exec_all_reach [OF sched_reach.init])

end
