(* ===== verification/Koro_Worker_Inv.thy ===== *)
theory Koro_Worker_Inv
  imports Koro_Worker
begin

text \<open>
  The invariants of the scheduler's machine: the books on tasks and on active workers, the
  fiber lock, the fibers' states, and the wake-up of sleeping workers. Each is shown to be
  kept by every step, through a case rule with one case per operation.
\<close>

section \<open>One case per operation\<close>

lemma on_go_Some [simp]: "on_go c t = Some u \<longleftrightarrow> c = Go \<and> u = t"
  by (auto simp: on_go_def)

lemma run_worker_cases [consumes 1, case_names take steal no_task got dispatch requeue check drop
    resume leave_yield leave_hold leave_return wake_fiber pend returned unlock finished
    itop istop ihas ileave ipoll iwoken ievents istop2 iquit btop block bspurious bwake bstop]:
  assumes "run_worker w c s = Some t"
  obtains
    (take) "pcs s w = RunTop" "t = run_take w s"
  | (steal) i free where "pcs s w = RunSteal i" "t = run_steal w i free s"
  | (no_task) "pcs s w = RunNoTask" "t = run_no_task w s"
  | (got) u where "pcs s w = RunGot u" "t = run_got w u s"
  | (dispatch) u where "pcs s w = RunDispatch u" "t = run_dispatch w u s"
  | (requeue) u where "pcs s w = RunRequeue u" "t = run_requeue w u s"
  | (check) u f where "pcs s w = RunCheck u f" "t = run_check w u f s"
  | (drop) f where "pcs s w = RunDrop f" "t = run_unlock w f s"
  | (resume) u f where "pcs s w = RunResume u f" "t = run_resume w u f s"
  | (leave_yield) u f where "pcs s w = RunBody u f" "t = run_leave w u f mark_yielded s"
  | (leave_hold) u f where "pcs s w = RunBody u f" "t = run_leave w u f mark_held s"
  | (leave_return) u f where "pcs s w = RunBody u f" "t = run_leave w u f finish_fiber s"
  | (wake_fiber) u f g where "pcs s w = RunBody u f" "run_wake_fiber w g s = Some t"
  | (pend) u f d where "pcs s w = RunBody u f" "t = run_pending d s"
  | (returned) u f where "pcs s w = RunBack u f" "t = run_back w u f s"
  | (unlock) f where "pcs s w = RunUnlock f" "t = run_unlock w f s"
  | (finished) "pcs s w = RunDone" "t = run_done w s"
  | (itop) "pcs s w = IdleTop" "t = idle_top w s"
  | (istop) k where "pcs s w = IdleStop k" "t = idle_stop w k s"
  | (ihas) "pcs s w = IdleHasTask" "t = idle_has_task w s"
  | (ileave) "pcs s w = IdleLeave" "t = idle_leave w s"
  | (ipoll) evs where "pcs s w = IdlePoll" "idle_poll w evs s = Some t"
  | (iwoken) evs where "pcs s w = IdleWoken evs" "t = idle_woken w evs s"
  | (ievents) evs where "pcs s w = IdleEvents evs" "idle_events w evs s = Some t"
  | (istop2) k where "pcs s w = IdleStop2 k" "t = idle_stop2 w k s"
  | (iquit) "pcs s w = IdleQuit" "t = idle_quit w s"
  | (btop) "pcs s w = BaseTop" "t = base_top w s"
  | (block) "pcs s w = BaseLock" "t = base_lock w s"
  | (bspurious) "pcs s w = BaseSleep" "t = goto w BaseWake s"
  | (bwake) "pcs s w = BaseWake" "t = base_wake w s"
  | (bstop) k where "pcs s w = BaseStop k" "t = base_stop w k s"
proof (cases "pcs s w")
  case (RunBody u f)
  with assms have "user_step w u f c s = Some t" by (simp add: run_worker_def)
  then show thesis
    by (cases c) (use RunBody that(10-14) in \<open>auto simp: user_step_def split: if_splits\<close>)
next
  case RunTop
  with assms that(1) show thesis
    by (auto simp: run_worker_def split: choice.splits if_splits)
next
  case RunSteal
  with assms that(2) show thesis
    by (auto simp: run_worker_def split: choice.splits if_splits)
next
  case RunNoTask
  with assms that(3) show thesis
    by (auto simp: run_worker_def split: choice.splits if_splits)
next
  case RunGot
  with assms that(4) show thesis
    by (auto simp: run_worker_def split: choice.splits if_splits)
next
  case RunDispatch
  with assms that(5) show thesis
    by (auto simp: run_worker_def split: choice.splits if_splits)
next
  case RunRequeue
  with assms that(6) show thesis
    by (auto simp: run_worker_def split: choice.splits if_splits)
next
  case RunCheck
  with assms that(7) show thesis
    by (auto simp: run_worker_def split: choice.splits if_splits)
next
  case RunDrop
  with assms that(8) show thesis
    by (auto simp: run_worker_def split: choice.splits if_splits)
next
  case RunResume
  with assms that(9) show thesis
    by (auto simp: run_worker_def split: choice.splits if_splits)
next
  case RunBack
  with assms that(15) show thesis
    by (auto simp: run_worker_def split: choice.splits if_splits)
next
  case RunUnlock
  with assms that(16) show thesis
    by (auto simp: run_worker_def split: choice.splits if_splits)
next
  case RunDone
  with assms that(17) show thesis
    by (auto simp: run_worker_def split: choice.splits if_splits)
next
  case IdleTop
  with assms that(18) show thesis
    by (auto simp: run_worker_def split: choice.splits if_splits)
next
  case IdleStop
  with assms that(19) show thesis
    by (auto simp: run_worker_def split: choice.splits if_splits)
next
  case IdleHasTask
  with assms that(20) show thesis
    by (auto simp: run_worker_def split: choice.splits if_splits)
next
  case IdleLeave
  with assms that(21) show thesis
    by (auto simp: run_worker_def split: choice.splits if_splits)
next
  case IdlePoll
  with assms that(22) show thesis
    by (auto simp: run_worker_def split: choice.splits if_splits)
next
  case IdleWoken
  with assms that(23) show thesis
    by (auto simp: run_worker_def split: choice.splits if_splits)
next
  case IdleEvents
  with assms that(24) show thesis
    by (auto simp: run_worker_def split: choice.splits if_splits)
next
  case IdleStop2
  with assms that(25) show thesis
    by (auto simp: run_worker_def split: choice.splits if_splits)
next
  case IdleQuit
  with assms that(26) show thesis
    by (auto simp: run_worker_def split: choice.splits if_splits)
next
  case BaseTop
  with assms that(27) show thesis
    by (auto simp: run_worker_def split: choice.splits if_splits)
next
  case BaseLock
  with assms that(28) show thesis
    by (auto simp: run_worker_def split: choice.splits if_splits)
next
  case BaseSleep
  with assms that(29) show thesis
    by (auto simp: run_worker_def split: choice.splits if_splits)
next
  case BaseWake
  with assms that(30) show thesis
    by (auto simp: run_worker_def split: choice.splits if_splits)
next
  case BaseStop
  with assms that(31) show thesis
    by (auto simp: run_worker_def split: choice.splits if_splits)
qed (use assms in \<open>simp_all add: run_worker_def\<close>)


section \<open>Sums over workers and submitters\<close>

text \<open>The task that a worker holds between taking it and giving it away.\<close>

fun hand :: "wpc \<Rightarrow> scheduled_task multiset" where
  "hand (RunGot t) = {#t#}"
| "hand (RunDispatch t) = {#t#}"
| "hand (RunRequeue t) = {#t#}"
| "hand (RunCheck t f) = {#t#}"
| "hand (RunResume t f) = {#t#}"
| "hand (RunBody t f) = {#t#}"
| "hand (RunBack t f) = {#t#}"
| "hand _ = {#}"

fun sub_hand :: "subpc \<Rightarrow> scheduled_task multiset" where
  "sub_hand (SubIndex t) = {#t#}"
| "sub_hand (SubPush i t) = {#t#}"
| "sub_hand _ = {#}"

text \<open>The worker has counted itself in \<^verbatim>\<open>active_thread_count_\<close>.\<close>

fun busy :: "wpc \<Rightarrow> bool" where
  "busy (RunDispatch t) = True"
| "busy (RunRequeue t) = True"
| "busy (RunCheck t f) = True"
| "busy (RunDrop f) = True"
| "busy (RunResume t f) = True"
| "busy (RunBody t f) = True"
| "busy (RunBack t f) = True"
| "busy (RunUnlock f) = True"
| "busy RunDone = True"
| "busy _ = False"

definition queued :: "nat \<Rightarrow> (nat \<Rightarrow> scheduled_task list) \<Rightarrow> scheduled_task \<Rightarrow> int" where
  "queued n qs x = (\<Sum>i<n. int (count (mset (qs i)) x))"

definition in_hand :: "nat \<Rightarrow> (nat \<Rightarrow> wpc) \<Rightarrow> scheduled_task \<Rightarrow> int" where
  "in_hand n ps x = (\<Sum>w<n. int (count (hand (ps w)) x))"

definition submitting :: "nat \<Rightarrow> (nat \<Rightarrow> subpc) \<Rightarrow> scheduled_task \<Rightarrow> int" where
  "submitting m ss x = (\<Sum>c<m. int (count (sub_hand (ss c)) x))"

definition busy_count :: "nat \<Rightarrow> (nat \<Rightarrow> wpc) \<Rightarrow> nat" where
  "busy_count n ps = (\<Sum>w<n. of_bool (busy (ps w)))"

lemma queued_upd [simp]:
  "i < n \<Longrightarrow> queued n (qs(i := v)) x = queued n qs x - int (count (mset (qs i)) x) + int (count (mset v) x)"
  using sum_fun_upd [of i n "\<lambda>q. int (count (mset q) x)" qs v] by (simp add: queued_def)

lemma in_hand_upd [simp]:
  "w < n \<Longrightarrow> in_hand n (ps(w := v)) x = in_hand n ps x - int (count (hand (ps w)) x) + int (count (hand v) x)"
  using sum_fun_upd [of w n "\<lambda>p. int (count (hand p) x)" ps v] by (simp add: in_hand_def)

lemma submitting_upd [simp]:
  "c < m \<Longrightarrow> submitting m (ss(c := v)) x =
     submitting m ss x - int (count (sub_hand (ss c)) x) + int (count (sub_hand v) x)"
  using sum_fun_upd [of c m "\<lambda>p. int (count (sub_hand p) x)" ss v] by (simp add: submitting_def)

lemma busy_count_upd [simp]:
  "w < n \<Longrightarrow> of_nat (busy_count n (ps(w := v))) =
     (of_nat (busy_count n ps) - of_bool (busy (ps w)) + of_bool (busy v) :: 'a::comm_ring_1)"
proof -
  assume "w < n"
  then have "busy_count n (ps(w := v)) + of_bool (busy (ps w)) = busy_count n ps + of_bool (busy v)"
    unfolding busy_count_def by (rule sum_fun_upd)
  then have "of_nat (busy_count n (ps(w := v)) + of_bool (busy (ps w))) =
    (of_nat (busy_count n ps + of_bool (busy v)) :: 'a)" by (rule arg_cong)
  then show ?thesis by (simp add: algebra_simps)
qed

lemma in_hand_woken [simp]:
  "ps i = BaseSleep \<Longrightarrow> in_hand n (ps(i := BaseWake)) x = in_hand n ps x"
  unfolding in_hand_def by (rule sum.cong) auto

lemma busy_count_woken [simp]:
  "ps i = BaseSleep \<Longrightarrow> busy_count n (ps(i := BaseWake)) = busy_count n ps"
  unfolding busy_count_def by (rule sum.cong) auto

lemma sums_nonneg:
  "0 \<le> queued n qs x" "0 \<le> in_hand n ps x" "0 \<le> submitting m ss x"
  by (simp_all add: queued_def in_hand_def submitting_def sum_nonneg)

lemma queued_pos: "i < n \<Longrightarrow> x \<in> set (qs i) \<Longrightarrow> 0 < queued n qs x"
  unfolding queued_def
  by (rule sum_pos2 [of _ i]) (auto simp: count_mset_0_iff)

lemma in_hand_pos: "w < n \<Longrightarrow> x \<in># hand (ps w) \<Longrightarrow> 0 < in_hand n ps x"
  unfolding in_hand_def by (rule sum_pos2 [of _ w]) auto

lemma submitting_pos: "c < m \<Longrightarrow> x \<in># sub_hand (ss c) \<Longrightarrow> 0 < submitting m ss x"
  unfolding submitting_def by (rule sum_pos2 [of _ c]) auto

section \<open>The shape of the state\<close>

text \<open>
  The number of threads never changes, and the queue index that a call of \<^verbatim>\<open>submit\<close> has
  computed is in range.
\<close>

fun sub_target :: "subpc \<Rightarrow> nat option" where
  "sub_target (SubPush i t) = Some i"
| "sub_target (SubTickle i) = Some i"
| "sub_target (SubWake i) = Some i"
| "sub_target _ = None"

definition shape :: "bool \<Rightarrow> nat \<Rightarrow> nat \<Rightarrow> sched \<Rightarrow> bool" where
  "shape b n m s \<longleftrightarrow> io s = b \<and> n_threads s = n \<and> n_all s = n + m \<and>
     (\<forall>c i. sub_target (subs s c) = Some i \<longrightarrow> i < n)"

lemma sub_target_lt: "shape b n m s \<Longrightarrow> subs s c = p \<Longrightarrow> sub_target p = Some i \<Longrightarrow> i < n"
  by (auto simp: shape_def)

lemma wake_simps [simp]:
  "io (wake i s) = io s" "n_threads (wake i s) = n_threads s" "n_all (wake i s) = n_all s"
  "stop_flag (wake i s) = stop_flag s" "pending (wake i s) = pending s"
  "active (wake i s) = active s" "tasks (wake i s) = tasks s" "idling (wake i s) = idling s"
  "fibers (wake i s) = fibers s" "fresh (wake i s) = fresh s" "subs (wake i s) = subs s"
  "born (wake i s) = born s" "retired (wake i s) = retired s"
  "in_hand n (pcs (wake i s)) x = in_hand n (pcs s) x"
  "busy_count n (pcs (wake i s)) = busy_count n (pcs s)"
  by (auto simp: wake_def goto_def)


lemmas case_splits = option.splits sum.splits if_splits list.splits prod.splits event.splits

lemma run_worker_frame:
  assumes "run_worker w c s = Some t"
  shows "io t = io s \<and> n_threads t = n_threads s \<and> n_all t = n_all s \<and> subs t = subs s \<and>
    stop_flag t = stop_flag s \<and> stopper t = stopper s \<and> post_index t = post_index s \<and>
    (\<forall>v. v \<noteq> w \<longrightarrow> pcs t v = pcs s v \<and> idling t v = idling s v \<and> wakeups t v = wakeups s v)"
  using assms
  by (cases rule: run_worker_cases) (auto simp: machine_simps Let_def split: case_splits)

lemma submit_step_cases [consumes 1, case_names index push tickle waking]:
  assumes "submit_step c s = Some t"
  obtains
    (index) u where "subs s c = SubIndex u" "t = submit_index c u s"
  | (push) i u where "subs s c = SubPush i u" "t = submit_push c i u s"
  | (tickle) i where "subs s c = SubTickle i" "t = submit_tickle c i s"
  | (waking) i where "subs s c = SubWake i" "t = submit_wake c i s"
  using assms by (auto simp: submit_step_def split: subpc.splits)

lemmas submit_defs [machine_simps] = submit_index_def submit_push_def submit_tickle_def
  submit_wake_def

lemma submit_begin_Some:
  assumes "submit_begin c u s = Some t"
  shows "c < n_all s \<and> subs s c = SubNone \<and> (\<forall>f. st_fiber u = Some f \<longrightarrow> fibers s f \<noteq> None) \<and>
    t = s\<lparr>subs := (subs s)(c := SubIndex u), born := add_mset u (born s)\<rparr>"
  using assms by (auto simp: submit_begin_def may_submit_def add_born_def split: if_splits)

lemma submit_spawn_Some:
  assumes "submit_spawn c cb s = Some t"
  shows "c < n_all s \<and> subs s c = SubNone \<and>
    t = s\<lparr>subs := (subs s)(c := SubIndex (task_of_fiber (fresh s))), fresh := Suc (fresh s),
      fibers := (fibers s)(fresh s \<mapsto> wrapper_fiber cb),
      born := add_mset (task_of_fiber (fresh s)) (born s)\<rparr>"
  using assms
  by (auto simp: submit_spawn_def may_submit_def add_born_def set_fiber_def Let_def split: if_splits)

text \<open>
  A step of \<^verbatim>\<open>stop\<close> touches the flag, its own position, the eventfds and the position of a
  sleeping worker.
\<close>

lemma stop_step_cases [consumes 1, case_names flag move waking]:
  assumes "stop_step s = Some t"
  obtains
    (flag) p where "t = s\<lparr>stop_flag := True, stopper := p\<rparr>"
  | (move) p where "t = s\<lparr>stopper := p\<rparr>"
  | (waking) i p where "t = (wake i s)\<lparr>stopper := p\<rparr>"
proof -
  have "(\<exists>p. t = s\<lparr>stop_flag := True, stopper := p\<rparr>) \<or> (\<exists>p. t = s\<lparr>stopper := p\<rparr>) \<or>
    (\<exists>i p. t = (wake i s)\<lparr>stopper := p\<rparr>)"
    using assms by (cases "stopper s") (auto simp: stop_step_def split: if_splits)
  with that show thesis by blast
qed

lemma submit_step_target:
  assumes "submit_step c s = Some t"
  obtains p where "io t = io s" "n_threads t = n_threads s" "n_all t = n_all s"
    "subs t = (subs s)(c := p)"
    "sub_target p = None \<or> sub_target p = sub_target (subs s c) \<or>
      (\<exists>k. sub_target p = Some (k mod n_threads s))"
  using assms
proof (cases rule: submit_step_cases)
  case (index u)
  then show thesis
    by (intro that [of "SubPush (submit_target (post_index s) (n_threads s)) u"])
      (auto simp: submit_index_def submit_target_def)
next
  case (push i u)
  then show thesis
    by (intro that [of "if tasks s i = [] then SubTickle i else SubNone"])
      (auto simp: submit_push_def push_back_def Let_def)
next
  case (tickle i)
  then show thesis
    by (intro that [of "if idling s i then SubWake i else SubNone"])
      (auto simp: submit_tickle_def)
next
  case (waking i)
  then show thesis
    by (intro that [of SubNone]) (auto simp: submit_wake_def)
qed

lemma shape_upd_subs:
  assumes "shape b n m s" "io t = io s" "n_threads t = n_threads s" "n_all t = n_all s"
    and "subs t = (subs s)(c := p)" and "\<And>i. sub_target p = Some i \<Longrightarrow> i < n"
  shows "shape b n m t"
  using assms by (auto simp: shape_def)

lemma shape_step:
  assumes "sched_step s a = Some t" "shape b n m s" "0 < n"
  shows "shape b n m t"
proof (cases a)
  case (Worker w c)
  with assms run_worker_frame [of w c s t] show ?thesis
    by (auto simp: shape_def split: if_splits)
next
  case (Submit c)
  with assms have "submit_step c s = Some t" by (auto split: if_splits)
  then show ?thesis
  proof (rule submit_step_target)
    fix p
    assume "io t = io s" "n_threads t = n_threads s" "n_all t = n_all s" "subs t = (subs s)(c := p)"
      and "sub_target p = None \<or> sub_target p = sub_target (subs s c) \<or>
        (\<exists>k. sub_target p = Some (k mod n_threads s))"
    moreover have "n_threads s = n" using assms(2) by (simp add: shape_def)
    ultimately show ?thesis
      using assms(3) sub_target_lt [OF assms(2) refl, of c]
      by (intro shape_upd_subs [OF assms(2)]) auto
  qed
next
  case (BeginSubmit c u)
  with assms submit_begin_Some [of c u s t] show ?thesis by (auto simp: shape_def)
next
  case (SpawnSubmit c cb)
  with assms submit_spawn_Some [of c cb s t] show ?thesis by (auto simp: shape_def)
next
  case Stop
  with assms have "stop_step s = Some t" by simp
  then show ?thesis using assms by (cases rule: stop_step_cases) (auto simp: shape_def)
qed

section \<open>The fiber lock and the fibers' states\<close>

text \<open>The fiber whose lock the worker holds, and the task that refers to it.\<close>

fun holds :: "wpc \<Rightarrow> fid option" where
  "holds (RunCheck t f) = Some f"
| "holds (RunDrop f) = Some f"
| "holds (RunResume t f) = Some f"
| "holds (RunBody t f) = Some f"
| "holds (RunBack t f) = Some f"
| "holds (RunUnlock f) = Some f"
| "holds _ = None"

fun token :: "wpc \<Rightarrow> (scheduled_task \<times> fid) option" where
  "token (RunCheck t f) = Some (t, f)"
| "token (RunResume t f) = Some (t, f)"
| "token (RunBody t f) = Some (t, f)"
| "token (RunBack t f) = Some (t, f)"
| "token _ = None"

text \<open>The states of the locked fiber at each position.\<close>

fun fits :: "wpc \<Rightarrow> fiber_state \<Rightarrow> bool" where
  "fits (RunResume t f) st = (st = kReady \<or> st = kHold)"
| "fits (RunBody t f) st = (st = kRunning)"
| "fits _ st = (st \<noteq> kRunning)"

definition fibers_ok :: "(fid \<Rightarrow> fiber option) \<Rightarrow> fid \<Rightarrow> (nat \<Rightarrow> wpc) \<Rightarrow> bool" where
  "fibers_ok fs fr ps \<longleftrightarrow>
     (\<forall>f. fr \<le> f \<longrightarrow> fs f = None) \<and>
     (\<forall>w f. holds (ps w) = Some f \<longrightarrow>
        (\<exists>fb. fs f = Some fb \<and> fb_execute fb \<and> fits (ps w) (fb_state fb))) \<and>
     (\<forall>v w f. holds (ps v) = Some f \<longrightarrow> holds (ps w) = Some f \<longrightarrow> v = w) \<and>
     (\<forall>f fb. fs f = Some fb \<longrightarrow> fb_execute fb \<longrightarrow> (\<exists>w. holds (ps w) = Some f)) \<and>
     (\<forall>f fb. fs f = Some fb \<longrightarrow> fb_state fb = kRunning \<longrightarrow> fb_execute fb) \<and>
     (\<forall>w t f. token (ps w) = Some (t, f) \<longrightarrow> st_fiber t = Some f) \<and>
     (\<forall>w. ps w \<noteq> RunFail)"

lemma token_holds: "token p = Some (t, f) \<Longrightarrow> holds p = Some f"
  by (cases p) auto

lemma fibers_okD:
  assumes "fibers_ok fs fr ps"
  shows "fr \<le> f \<Longrightarrow> fs f = None"
    and "holds (ps w) = Some f \<Longrightarrow>
      \<exists>fb. fs f = Some fb \<and> fb_execute fb \<and> fits (ps w) (fb_state fb)"
    and "holds (ps v) = Some f \<Longrightarrow> holds (ps w) = Some f \<Longrightarrow> v = w"
    and "fs f = Some fb \<Longrightarrow> fb_execute fb \<Longrightarrow> \<exists>w. holds (ps w) = Some f"
    and "fs f = Some fb \<Longrightarrow> fb_state fb = kRunning \<Longrightarrow> fb_execute fb"
    and "token (ps w) = Some (t, f) \<Longrightarrow> st_fiber t = Some f"
    and "ps w \<noteq> RunFail"
  using assms unfolding fibers_ok_def by blast+

text \<open>The five kinds of change that a step makes.\<close>

lemma fibers_okI:
  assumes "\<And>f. fr \<le> f \<Longrightarrow> fs f = None"
    and "\<And>w f. holds (ps w) = Some f \<Longrightarrow>
      \<exists>fb. fs f = Some fb \<and> fb_execute fb \<and> fits (ps w) (fb_state fb)"
    and "\<And>v w f. holds (ps v) = Some f \<Longrightarrow> holds (ps w) = Some f \<Longrightarrow> v = w"
    and "\<And>f fb. fs f = Some fb \<Longrightarrow> fb_execute fb \<Longrightarrow> \<exists>w. holds (ps w) = Some f"
    and "\<And>f fb. fs f = Some fb \<Longrightarrow> fb_state fb = kRunning \<Longrightarrow> fb_execute fb"
    and "\<And>w t f. token (ps w) = Some (t, f) \<Longrightarrow> st_fiber t = Some f"
    and "\<And>w. ps w \<noteq> RunFail"
  shows "fibers_ok fs fr ps"
  unfolding fibers_ok_def using assms by blast

lemma fibers_ok_move:
  assumes ok: "fibers_ok fs fr ps" and w: "holds (ps w) = None" and p: "holds p = None" "p \<noteq> RunFail"
  shows "fibers_ok fs fr (ps(w := p))"
proof -
  have tok: "token p = None" using p(1) by (cases p) auto
  show ?thesis
  proof (rule fibers_okI)
    fix f fb assume "fs f = Some fb" "fb_execute fb"
    with fibers_okD(4) [OF ok] obtain v where v: "holds (ps v) = Some f" by blast
    with w have "v \<noteq> w" by auto
    with v show "\<exists>v. holds ((ps(w := p)) v) = Some f" by (intro exI [of _ v]) simp
  qed (use fibers_okD [OF ok] p tok in \<open>auto split: if_splits\<close>)
qed

text \<open>A worker that holds no lock acquires that of a fiber which nobody holds.\<close>

lemma fibers_ok_acquire:
  assumes ok: "fibers_ok fs fr ps" and w: "holds (ps w) = None"
    and free: "\<And>fb. fs f = Some fb \<Longrightarrow> \<not> fb_execute fb"
    and p: "holds p = Some f" "fits p (fb_state fb1)" "fb_execute fb1"
      "\<And>t g. token p = Some (t, g) \<Longrightarrow> st_fiber t = Some g"
    and fr: "f < fr'" "fr \<le> fr'"
  shows "fibers_ok (fs(f \<mapsto> fb1)) fr' (ps(w := p))"
proof (rule fibers_okI)
  fix g fb assume g: "(fs(f \<mapsto> fb1)) g = Some fb" "fb_execute fb"
  show "\<exists>v. holds ((ps(w := p)) v) = Some g"
  proof (cases "g = f")
    case True
    with p show ?thesis by (intro exI [of _ w]) simp
  next
    case False
    with g fibers_okD(4) [OF ok] obtain v where v: "holds (ps v) = Some g" by auto
    with w have "v \<noteq> w" by auto
    with v show ?thesis by (intro exI [of _ v]) simp
  qed
next
  have nobody: "holds (ps v) \<noteq> Some f" for v
    using fibers_okD(2) [OF ok] free by blast
  fix v u g assume "holds ((ps(w := p)) v) = Some g" "holds ((ps(w := p)) u) = Some g"
  with nobody p fibers_okD(3) [OF ok] show "v = u" by (auto split: if_splits)
next
  have nobody: "holds (ps v) \<noteq> Some f" for v
    using fibers_okD(2) [OF ok] free by blast
  fix v g assume "holds ((ps(w := p)) v) = Some g"
  with nobody p fibers_okD(2) [OF ok]
  show "\<exists>fb. (fs(f \<mapsto> fb1)) g = Some fb \<and> fb_execute fb \<and> fits ((ps(w := p)) v) (fb_state fb)"
    by (auto split: if_splits)
next
  fix v show "(ps(w := p)) v \<noteq> RunFail" using fibers_okD(7) [OF ok] p(1) by auto
qed (use fibers_okD(1,5,6) [OF ok] p fr in \<open>auto split: if_splits\<close>)

text \<open>A worker that holds a fiber's lock moves on, and changes the fiber's state.\<close>

lemma fibers_ok_keep:
  assumes ok: "fibers_ok fs fr ps" and w: "holds (ps w) = Some f" "holds p = Some f"
    and p: "fits p (fb_state fb1)" "fb_execute fb1"
      "\<And>t g. token p = Some (t, g) \<Longrightarrow> st_fiber t = Some g"
  shows "fibers_ok (fs(f \<mapsto> fb1)) fr (ps(w := p))"
proof -
  have h: "holds ((ps(w := p)) v) = holds (ps v)" for v using w by simp
  have f: "f < fr" using fibers_okD(1,2) [OF ok] w(1) by (metis not_le option.distinct(1))
  show ?thesis
  proof (rule fibers_okI)
    fix v show "(ps(w := p)) v \<noteq> RunFail" using fibers_okD(7) [OF ok] w(2) by auto
  next
    fix v g assume a: "holds ((ps(w := p)) v) = Some g"
    then have "holds (ps v) = Some g" by (simp only: h)
    moreover have "v = w \<longleftrightarrow> g = f"
      using calculation w(1) fibers_okD(3) [OF ok] by auto
    ultimately show "\<exists>fb. (fs(f \<mapsto> fb1)) g = Some fb \<and> fb_execute fb \<and>
        fits ((ps(w := p)) v) (fb_state fb)"
      using fibers_okD(2) [OF ok] p(1,2) by auto
  next
    fix g fb assume "(fs(f \<mapsto> fb1)) g = Some fb" "fb_execute fb"
    then show "\<exists>v. holds ((ps(w := p)) v) = Some g"
      unfolding h using fibers_okD(4) [OF ok] w(1) by (auto split: if_splits)
  qed (use fibers_okD(1,3,5,6) [OF ok] f p h in \<open>auto split: if_splits\<close>)
qed

lemma fibers_ok_same:
  assumes ok: "fibers_ok fs fr ps" and w: "holds (ps w) = Some f" "holds p = Some f"
    and p: "fs f = Some fb" "fits p (fb_state fb)"
      "\<And>t g. token p = Some (t, g) \<Longrightarrow> st_fiber t = Some g"
  shows "fibers_ok fs fr (ps(w := p))"
proof -
  have "fb_execute fb" using fibers_okD(2) [OF ok w(1)] p(1) by auto
  with fibers_ok_keep [OF ok w p(2)] p(3) have "fibers_ok (fs(f \<mapsto> fb)) fr (ps(w := p))" by blast
  then show ?thesis using p(1) by (simp add: map_upd_triv)
qed

text \<open>A worker releases the lock of a fiber that does not run.\<close>

lemma fibers_ok_release:
  assumes ok: "fibers_ok fs fr ps" and w: "holds (ps w) = Some f"
    and p: "holds p = None" "p \<noteq> RunFail" and fb1: "\<not> fb_execute fb1" "fb_state fb1 \<noteq> kRunning"
  shows "fibers_ok (fs(f \<mapsto> fb1)) fr (ps(w := p))"
proof -
  have tok: "token p = None" using p(1) by (cases p) auto
  have f: "f < fr" using fibers_okD(1,2) [OF ok] w(1) by (metis not_le option.distinct(1))
  have other: "holds (ps v) \<noteq> Some f" if "v \<noteq> w" for v
    using fibers_okD(3) [OF ok] w that by blast
  show ?thesis
  proof (rule fibers_okI)
    fix g fb assume g: "(fs(f \<mapsto> fb1)) g = Some fb" "fb_execute fb"
    then have "g \<noteq> f" using fb1 by auto
    with g fibers_okD(4) [OF ok] obtain v where v: "holds (ps v) = Some g" by auto
    with w \<open>g \<noteq> f\<close> have "v \<noteq> w" by auto
    with v show "\<exists>v. holds ((ps(w := p)) v) = Some g" by (intro exI [of _ v]) simp
  next
    fix v g assume "holds ((ps(w := p)) v) = Some g"
    with p other [of v] have "v \<noteq> w" "holds (ps v) = Some g" "g \<noteq> f"
      by (auto split: if_splits)
    with fibers_okD(2) [OF ok]
    show "\<exists>fb. (fs(f \<mapsto> fb1)) g = Some fb \<and> fb_execute fb \<and> fits ((ps(w := p)) v) (fb_state fb)"
      by auto
  qed (use fibers_okD(1,3,5,6,7) [OF ok] f p tok fb1 in \<open>auto split: if_splits\<close>)
qed

text \<open>A new fiber that nobody holds.\<close>

lemma fibers_ok_new:
  assumes ok: "fibers_ok fs fr ps" and fb: "\<not> fb_execute fb1" "fb_state fb1 \<noteq> kRunning"
  shows "fibers_ok (fs(fr \<mapsto> fb1)) (Suc fr) ps"
proof -
  have "holds (ps w) \<noteq> Some fr" for w
    using fibers_okD(2) [OF ok, of w fr] fibers_okD(1) [OF ok, of fr] by auto
  then show ?thesis
    using fb fibers_okD [OF ok] by (intro fibers_okI) (auto split: if_splits)
qed

section \<open>The books: tasks and active workers\<close>

text \<open>
  \<open>outstanding\<close> is what entered and is not retired. The tasks in the queues, in the hands of
  the workers and in calls of \<^verbatim>\<open>submit\<close> are exactly the outstanding ones, and the counter
  of active workers is the number of workers that have counted themselves in.
\<close>

definition located :: "sched \<Rightarrow> scheduled_task \<Rightarrow> int" where
  "located s x = queued (n_threads s) (tasks s) x + in_hand (n_threads s) (pcs s) x +
     submitting (n_all s) (subs s) x"

definition books :: "sched \<Rightarrow> bool" where
  "books s \<longleftrightarrow>
     (\<forall>x. int (count (born s) x) = int (count (retired s) x) + located s x) \<and>
     active s = of_nat (busy_count (n_threads s) (pcs s))"

lemma count_butlast: "xs \<noteq> [] \<Longrightarrow> count (mset xs) x = count (mset (butlast xs)) x + count {#last xs#} x"
  by (simp add: mset_snoc_butlast)

lemma books_worker:
  assumes "run_worker w c s = Some t" "w < n_threads s" "pcs t w \<noteq> RunFail" "books s"
  shows "books t"
  using assms
  by (cases rule: run_worker_cases)
    (auto simp: machine_simps books_def located_def Let_def steal_try_def count_butlast
      split: case_splits)

lemma books_submit:
  assumes "submit_step c s = Some t" "c < n_all s" "shape b n m s" "books s"
  shows "books t"
  using assms
proof (cases rule: submit_step_cases)
  case (push i u)
  then have "i < n_threads s"
    using assms(3) sub_target_lt [OF assms(3) push(1)] by (simp add: shape_def)
  with push assms show ?thesis
    by (auto simp: machine_simps books_def located_def Let_def)
qed (auto simp: machine_simps books_def located_def Let_def)

lemma books_step:
  assumes "sched_step s a = Some t" "shape b n m s" "books s" "\<And>w. pcs t w \<noteq> RunFail"
  shows "books t"
proof (cases a)
  case (Worker w c)
  with assms show ?thesis by (auto split: if_splits intro: books_worker)
next
  case (Submit c)
  with assms show ?thesis by (auto split: if_splits intro: books_submit)
next
  case (BeginSubmit c u)
  with assms submit_begin_Some [of c u s t] show ?thesis
    by (auto simp: books_def located_def)
next
  case (SpawnSubmit c cb)
  with assms submit_spawn_Some [of c cb s t] show ?thesis
    by (auto simp: books_def located_def)
next
  case Stop
  with assms have "stop_step s = Some t" by simp
  then show ?thesis using assms by (cases rule: stop_step_cases) (auto simp: books_def located_def)
qed


lemma located_count:
  assumes "books s" "0 < located s x"
  shows "count (retired s) x < count (born s) x"
proof -
  have "int (count (born s) x) = int (count (retired s) x) + located s x"
    using assms(1) by (simp add: books_def)
  with assms(2) show ?thesis by linarith
qed

lemma located_hand:
  assumes "w < n_threads s" "x \<in># hand (pcs s w)"
  shows "0 < located s x"
  using in_hand_pos [of w "n_threads s" x "pcs s"] assms sums_nonneg
  by (simp add: located_def add_nonneg_pos add_pos_nonneg)

lemma located_queue:
  assumes "i < n_threads s" "x \<in> set (tasks s i)"
  shows "0 < located s x"
  using queued_pos [of i "n_threads s" x "tasks s"] assms sums_nonneg
  by (simp add: located_def add_nonneg_pos add_pos_nonneg)

section \<open>Tasks refer to existing fibers\<close>

definition known :: "(fid \<Rightarrow> fiber option) \<Rightarrow> scheduled_task \<Rightarrow> bool" where
  "known fs x \<longleftrightarrow> (\<forall>f. st_fiber x = Some f \<longrightarrow> fs f \<noteq> None)"

definition born_known :: "sched \<Rightarrow> bool" where
  "born_known s \<longleftrightarrow> (\<forall>x. x \<in># born s \<longrightarrow> known (fibers s) x)"

lemma known_upd [simp]: "known fs x \<Longrightarrow> known (fs(f \<mapsto> fb)) x"
  by (auto simp: known_def)

lemma known_of_fiber [simp]: "known fs (task_of_fiber f) \<longleftrightarrow> fs f \<noteq> None"
  by (auto simp: known_def)

lemma known_option [simp]:
  "(\<forall>f \<in> set_option (st_fiber x). \<exists>y. fs f = Some y) \<longleftrightarrow> known fs x"
  by (auto simp: known_def)

lemma born_known_worker:
  assumes "run_worker w c s = Some t" "born_known s"
  shows "born_known t"
  using assms
  by (cases rule: run_worker_cases)
    (auto simp: machine_simps born_known_def Let_def split: case_splits)

lemma born_known_step:
  assumes "sched_step s a = Some t" "born_known s"
  shows "born_known t"
proof (cases a)
  case (Worker w c)
  with assms show ?thesis by (auto split: if_splits intro: born_known_worker)
next
  case (Submit c)
  with assms have "submit_step c s = Some t" by (auto split: if_splits)
  then show ?thesis
    using assms by (cases rule: submit_step_cases) (auto simp: machine_simps born_known_def Let_def)
next
  case (BeginSubmit c u)
  with assms submit_begin_Some [of c u s t] show ?thesis
    by (auto simp: born_known_def known_def)
next
  case (SpawnSubmit c cb)
  with assms submit_spawn_Some [of c cb s t] show ?thesis by (auto simp: born_known_def)
next
  case Stop
  with assms have "stop_step s = Some t" by simp
  then show ?thesis using assms by (cases rule: stop_step_cases) (auto simp: born_known_def)
qed

lemma hand_known:
  assumes "books s" "born_known s" "w < n_threads s" "x \<in># hand (pcs s w)"
  shows "known (fibers s) x"
proof -
  from located_count [OF assms(1) located_hand [OF assms(3,4)]]
  have "x \<in># born s" by (metis count_eq_zero_iff not_less_zero)
  with assms(2) show ?thesis by (simp add: born_known_def)
qed

section \<open>Every step keeps the locks and the states of the fibers\<close>

lemma fibers_ok_wake:
  "fibers_ok fs fr (pcs s) \<Longrightarrow> fibers_ok fs fr (pcs (wake i s))"
  by (auto simp: wake_def goto_def intro: fibers_ok_move)

lemma mark_simps:
  "mark_resumed fb = Inr fb1 \<Longrightarrow> fb_execute fb1 = fb_execute fb \<and> fb_state fb1 = kRunning"
  "fb_state fb = kRunning \<Longrightarrow> mark_held fb = Inr (fb\<lparr>fb_state := kHold\<rparr>)"
  "fb_state fb = kRunning \<Longrightarrow> mark_yielded fb = Inr (fb\<lparr>fb_state := kReady\<rparr>)"
  "finish_fiber fb = Inr (mark_finished fb)"
  by (auto simp: mark_resumed_def mark_held_def mark_yielded_def finish_fiber_def
      mark_finished_def split: if_splits)

lemma fibers_ok_worker:
  assumes step: "run_worker w c s = Some t" and ok: "fibers_ok (fibers s) (fresh s) (pcs s)"
    and known: "\<And>u. u \<in># hand (pcs s w) \<Longrightarrow> known (fibers s) u"
  shows "fibers_ok (fibers t) (fresh t) (pcs t)"
proof -
  note mv = fibers_ok_move [OF ok]
  note held = fibers_okD(2) [OF ok, of w]
  note tok = fibers_okD(6) [OF ok, of w]
  show ?thesis
    using step
  proof (cases rule: run_worker_cases)
    case (dispatch u)
    show ?thesis
    proof (cases "st_fiber u")
      case None
      have "\<not> fb_execute fb" if "fibers s (fresh s) = Some fb" for fb
        using fibers_okD(1) [OF ok, of "fresh s"] that by simp
      with dispatch None show ?thesis
        by (auto simp: machine_simps Let_def tryLock_def wrapper_fiber_def
            intro!: fibers_ok_acquire [OF ok])
    next
      case (Some f)
      then obtain fb where fb: "fibers s f = Some fb"
        using known dispatch by (auto simp: known_def)
      then have fr: "f < fresh s" using fibers_okD(1) [OF ok, of f] by (metis not_le option.distinct(1))
      have "fb_state fb \<noteq> kRunning" if "\<not> fb_execute fb"
        using fibers_okD(5) [OF ok fb] that by blast
      with dispatch Some fb fr show ?thesis
        by (auto simp: machine_simps Let_def tryLock_def split: if_splits
            intro!: fibers_ok_acquire [OF ok] mv)
    qed
  next
    case (check u f)
    then obtain fb where fb: "fibers s f = Some fb" "fb_execute fb" "fb_state fb \<noteq> kRunning"
      using held by auto
    from check fb tok show ?thesis
      by (cases "fb_state fb") (auto simp: machine_simps intro!: fibers_ok_same [OF ok])
  next
    case (resume u f)
    then obtain fb where fb: "fibers s f = Some fb" "fb_execute fb"
        "fb_state fb = kReady \<or> fb_state fb = kHold"
      using held by auto
    then obtain fb1 where "mark_resumed fb = Inr fb1" by (auto simp: mark_resumed_def)
    with resume fb tok show ?thesis
      by (auto simp: machine_simps dest: mark_simps(1) intro!: fibers_ok_keep [OF ok])
  next
    case (leave_yield u f)
    then obtain fb where "fibers s f = Some fb" "fb_execute fb" "fb_state fb = kRunning"
      using held by auto
    with leave_yield tok show ?thesis
      by (auto simp: machine_simps mark_simps intro!: fibers_ok_keep [OF ok])
  next
    case (leave_hold u f)
    then obtain fb where "fibers s f = Some fb" "fb_execute fb" "fb_state fb = kRunning"
      using held by auto
    with leave_hold tok show ?thesis
      by (auto simp: machine_simps mark_simps intro!: fibers_ok_keep [OF ok])
  next
    case (leave_return u f)
    then obtain fb where "fibers s f = Some fb" "fb_execute fb" "fb_state fb = kRunning"
      using held by auto
    with leave_return tok show ?thesis
      by (auto simp: machine_simps mark_simps mark_finished_def intro!: fibers_ok_keep [OF ok])
  next
    case (returned u f)
    then obtain fb where fb: "fibers s f = Some fb" "fb_execute fb" "fb_state fb \<noteq> kRunning"
      using held by auto
    from returned fb show ?thesis
      by (auto simp: machine_simps intro!: fibers_ok_same [OF ok])
  next
    case (unlock f)
    then obtain fb where "fibers s f = Some fb" "fb_state fb \<noteq> kRunning"
      using held by auto
    with unlock show ?thesis
      by (auto simp: machine_simps unlock_def intro!: fibers_ok_release [OF ok])
  next
    case (drop f)
    then obtain fb where "fibers s f = Some fb" "fb_state fb \<noteq> kRunning"
      using held by auto
    with drop show ?thesis
      by (auto simp: machine_simps unlock_def intro!: fibers_ok_release [OF ok])
  qed (auto simp: machine_simps ok split: case_splits intro!: mv)
qed

lemma fibers_ok_step:
  assumes "sched_step s a = Some t" "fibers_ok (fibers s) (fresh s) (pcs s)" "books s" "born_known s"
  shows "fibers_ok (fibers t) (fresh t) (pcs t)"
proof (cases a)
  case (Worker w c)
  with assms have "run_worker w c s = Some t" "w < n_threads s" by (auto split: if_splits)
  with assms show ?thesis by (blast intro: fibers_ok_worker hand_known)
next
  case (Submit c)
  with assms have "submit_step c s = Some t" by (auto split: if_splits)
  then show ?thesis
    using assms
    by (cases rule: submit_step_cases) (auto simp: machine_simps Let_def fibers_ok_wake)
next
  case (BeginSubmit c u)
  with assms submit_begin_Some [of c u s t] show ?thesis by auto
next
  case (SpawnSubmit c cb)
  with assms submit_spawn_Some [of c cb s t] show ?thesis
    by (auto simp: wrapper_fiber_def intro!: fibers_ok_new)
next
  case Stop
  with assms have "stop_step s = Some t" by simp
  then show ?thesis using assms by (cases rule: stop_step_cases) (auto intro: fibers_ok_wake)
qed

section \<open>No runnable fiber is forgotten\<close>

text \<open>A fiber that is ready to run has an outstanding task that refers to it.\<close>

definition runnable_kept :: "sched \<Rightarrow> bool" where
  "runnable_kept s \<longleftrightarrow>
     (\<forall>f fb. fibers s f = Some fb \<longrightarrow> fb_state fb = kReady \<longrightarrow>
        (\<exists>u. st_fiber u = Some f \<and> count (retired s) u < count (born s) u))"

lemma runnable_keptI:
  assumes "runnable_kept s"
    and "\<And>f fb. fibers t f = Some fb \<Longrightarrow> fb_state fb = kReady \<Longrightarrow>
      (\<exists>fb0. fibers s f = Some fb0 \<and> fb_state fb0 = kReady) \<and>
        (\<forall>u. st_fiber u = Some f \<longrightarrow> count (retired t) u = count (retired s) u \<and>
           count (born s) u \<le> count (born t) u) \<or>
      (\<exists>u. st_fiber u = Some f \<and> count (retired t) u < count (born t) u)"
  shows "runnable_kept t"
  unfolding runnable_kept_def
proof (intro allI impI)
  fix f fb assume a: "fibers t f = Some fb" "fb_state fb = kReady"
  from assms(2) [OF a]
  show "\<exists>u. st_fiber u = Some f \<and> count (retired t) u < count (born t) u"
  proof
    assume b: "(\<exists>fb0. fibers s f = Some fb0 \<and> fb_state fb0 = kReady) \<and>
      (\<forall>u. st_fiber u = Some f \<longrightarrow> count (retired t) u = count (retired s) u \<and>
         count (born s) u \<le> count (born t) u)"
    with assms(1) obtain u where u: "st_fiber u = Some f" "count (retired s) u < count (born s) u"
      unfolding runnable_kept_def by blast
    with b have "count (retired t) u < count (born t) u" by (metis less_le_trans)
    with u(1) show ?thesis by blast
  qed
qed

lemma retired_le_born: "books s \<Longrightarrow> count (retired s) x \<le> count (born s) x"
proof -
  assume "books s"
  then have "int (count (born s) x) = int (count (retired s) x) + located s x"
    by (simp add: books_def)
  moreover have "0 \<le> located s x" using sums_nonneg by (simp add: located_def)
  ultimately show ?thesis by linarith
qed

lemma runnable_kept_worker:
  assumes step: "run_worker w c s = Some t" "w < n_threads s"
    and ok: "fibers_ok (fibers s) (fresh s) (pcs s)" and books: "books s"
    and kept: "runnable_kept s"
  shows "runnable_kept t"
proof -
  note tok = fibers_okD(6) [OF ok, of w]
  note held = fibers_okD(2) [OF ok, of w]
  note le = le_imp_less_Suc [OF retired_le_born [OF books]]
  have hand: "count (retired s) u < count (born s) u" if "u \<in># hand (pcs s w)" for u
    by (rule located_count [OF books located_hand [OF step(2) that]])
  show ?thesis
    using step(1)
  proof (cases rule: run_worker_cases)
    case (dispatch u)
    show ?thesis
    proof (cases "st_fiber u")
      case None
      show ?thesis
      proof (rule runnable_keptI [OF kept])
        fix f fb assume "fibers t f = Some fb" "fb_state fb = kReady"
        with dispatch None le [of "task_of_fiber (fresh s)"]
        show "(\<exists>fb0. fibers s f = Some fb0 \<and> fb_state fb0 = kReady) \<and>
          (\<forall>u. st_fiber u = Some f \<longrightarrow> count (retired t) u = count (retired s) u \<and>
             count (born s) u \<le> count (born t) u) \<or>
          (\<exists>u. st_fiber u = Some f \<and> count (retired t) u < count (born t) u)"
          by (auto simp: machine_simps Let_def split: if_splits prod.splits
              intro!: exI [of _ "task_of_fiber (fresh s)"])
      qed
    next
      case (Some f)
      with dispatch show ?thesis
        by (intro runnable_keptI [OF kept])
          (auto simp: machine_simps Let_def tryLock_def split: case_splits)
    qed
  next
    case (check u f)
    then show ?thesis using tok
      by (intro runnable_keptI [OF kept]) (auto simp: machine_simps split: case_splits)
  next
    case (resume u f)
    then show ?thesis
      by (intro runnable_keptI [OF kept])
        (auto simp: machine_simps dest: mark_simps(1) split: case_splits)
  next
    case (leave_yield u f)
    then obtain fb where fb: "fibers s f = Some fb" "fb_state fb = kRunning"
      using held by auto
    from leave_yield hand have "count (retired s) u < count (born s) u" by simp
    with leave_yield fb tok show ?thesis
      by (intro runnable_keptI [OF kept])
        (auto simp: machine_simps mark_simps split: if_splits)
  next
    case (leave_hold u f)
    then obtain fb where fb: "fibers s f = Some fb" "fb_state fb = kRunning"
      using held by auto
    with leave_hold show ?thesis
      by (intro runnable_keptI [OF kept])
        (auto simp: machine_simps mark_simps split: if_splits)
  next
    case (leave_return u f)
    then obtain fb where fb: "fibers s f = Some fb" "fb_state fb = kRunning"
      using held by auto
    with leave_return show ?thesis
      by (intro runnable_keptI [OF kept])
        (auto simp: machine_simps mark_simps mark_finished_def split: if_splits)
  next
    case (returned u f)
    then show ?thesis using tok
      by (intro runnable_keptI [OF kept]) (auto simp: machine_simps split: case_splits)
  next
    case (unlock f)
    then show ?thesis
      by (intro runnable_keptI [OF kept]) (auto simp: machine_simps unlock_def split: case_splits)
  next
    case (drop f)
    then show ?thesis
      by (intro runnable_keptI [OF kept]) (auto simp: machine_simps unlock_def split: case_splits)
  next
    case (wake_fiber u f g)
    then show ?thesis
      by (intro runnable_keptI [OF kept]) (auto simp: machine_simps split: if_splits)
  next
    case (ievents evs)
    then show ?thesis
      by (intro runnable_keptI [OF kept]) (auto simp: machine_simps split: case_splits)
  qed (use kept in \<open>auto simp: machine_simps runnable_kept_def split: case_splits\<close>)
qed

lemma runnable_kept_step:
  assumes "sched_step s a = Some t" "fibers_ok (fibers s) (fresh s) (pcs s)" "books s"
    and kept: "runnable_kept s"
  shows "runnable_kept t"
proof (cases a)
  case (Worker w c)
  with assms show ?thesis by (auto split: if_splits intro: runnable_kept_worker)
next
  case (Submit c)
  with assms have "submit_step c s = Some t" by (auto split: if_splits)
  then show ?thesis
    using kept by (cases rule: submit_step_cases) (auto simp: machine_simps runnable_kept_def Let_def)
next
  case (BeginSubmit c u)
  with assms have "submit_begin c u s = Some t" by simp
  from submit_begin_Some [OF this] show ?thesis
    by (intro runnable_keptI [OF kept]) auto
next
  case (SpawnSubmit c cb)
  with assms have "submit_spawn c cb s = Some t" by simp
  note t = submit_spawn_Some [OF this]
  show ?thesis
  proof (rule runnable_keptI [OF kept])
    fix f fb assume "fibers t f = Some fb" "fb_state fb = kReady"
    with t le_imp_less_Suc [OF retired_le_born [OF assms(3)]]
    show "(\<exists>fb0. fibers s f = Some fb0 \<and> fb_state fb0 = kReady) \<and>
      (\<forall>u. st_fiber u = Some f \<longrightarrow> count (retired t) u = count (retired s) u \<and>
         count (born s) u \<le> count (born t) u) \<or>
      (\<exists>u. st_fiber u = Some f \<and> count (retired t) u < count (born t) u)"
      by (cases "f = fresh s") (auto intro!: exI [of _ "task_of_fiber (fresh s)"])
  qed
next
  case Stop
  with assms have "stop_step s = Some t" by simp
  then show ?thesis using kept by (cases rule: stop_step_cases) (auto simp: runnable_kept_def)
qed

section \<open>No sleeping worker is forgotten\<close>

text \<open>
  The positions between setting \<^verbatim>\<open>idling\<close> and clearing it. A worker that waits in
  \<^verbatim>\<open>epoll_wait\<close> while its queue holds a task has a wake-up pending in its eventfd, or some
  thread is between its push and the write to it.
\<close>

fun asleep :: "wpc \<Rightarrow> bool" where
  "asleep (IdleStop k) = True"
| "asleep IdleHasTask = True"
| "asleep IdleLeave = True"
| "asleep IdlePoll = True"
| "asleep (IdleWoken evs) = True"
| "asleep IdleQuit = True"
| "asleep _ = False"

definition wakeups_ok :: "sched \<Rightarrow> bool" where
  "wakeups_ok s \<longleftrightarrow>
     (\<forall>w. asleep (pcs s w) \<longrightarrow> idling s w) \<and>
     (\<forall>w. pcs s w = IdlePoll \<longrightarrow> tasks s w \<noteq> [] \<longrightarrow>
        0 < wakeups s w \<or> (\<exists>c < n_all s. subs s c = SubTickle w \<or> subs s c = SubWake w))"

lemma wakeups_ok_worker:
  assumes "run_worker w c s = Some t" "wakeups_ok s"
  shows "wakeups_ok t"
  using assms
  by (cases rule: run_worker_cases)
    (auto simp: machine_simps wakeups_ok_def Let_def steal_try_def split: case_splits)

text \<open>Every push on a queue by a thread that is not its worker is followed by a tickle.\<close>

lemma wakeups_ok_upd_sub:
  assumes ok: "wakeups_ok s" and c: "c < n_all s"
    and pc: "\<And>i. subs s c = SubTickle i \<or> subs s c = SubWake i \<Longrightarrow>
      p = SubWake i \<or> \<not> idling s i \<or> 0 < wakeups t i"
    and t: "pcs t = pcs s" "idling t = idling s" "n_all t = n_all s" "subs t = (subs s)(c := p)"
      "\<And>i. wakeups s i \<le> wakeups t i"
      "\<And>i. tasks t i \<noteq> [] \<Longrightarrow> tasks s i \<noteq> [] \<or> p = SubTickle i"
  shows "wakeups_ok t"
proof -
  have "0 < wakeups t w \<or> (\<exists>d < n_all t. subs t d = SubTickle w \<or> subs t d = SubWake w)"
    if w: "pcs t w = IdlePoll" "tasks t w \<noteq> []" for w
  proof (cases "tasks s w = []")
    case True
    with t(6) [OF w(2)] t c show ?thesis by auto
  next
    case False
    have idl: "idling s w" and wk: "0 < wakeups s w \<or>
        (\<exists>d < n_all s. subs s d = SubTickle w \<or> subs s d = SubWake w)"
      using ok w(1) False t(1) by (auto simp: wakeups_ok_def)
    from wk consider (counted) "0 < wakeups s w"
      | (caller) d where "d < n_all s" "subs s d = SubTickle w \<or> subs s d = SubWake w"
      by auto
    then show ?thesis
    proof cases
      case counted
      with t(5) [of w] show ?thesis by simp
    next
      case caller
      show ?thesis
      proof (cases "d = c")
        case True
        with caller pc idl t c show ?thesis by fastforce
      next
        case False
        with caller t show ?thesis by (metis fun_upd_apply)
      qed
    qed
  qed
  moreover have "\<forall>w. asleep (pcs t w) \<longrightarrow> idling t w"
    using ok t by (simp add: wakeups_ok_def)
  ultimately show ?thesis by (simp add: wakeups_ok_def)
qed

lemma wakeups_ok_step:
  assumes "sched_step s a = Some t" "io s" "wakeups_ok s"
  shows "wakeups_ok t"
proof (cases a)
  case (Worker w c)
  with assms show ?thesis by (auto split: if_splits intro: wakeups_ok_worker)
next
  case (Submit c)
  with assms have st: "submit_step c s = Some t" and c: "c < n_all s" by (auto split: if_splits)
  from st show ?thesis
  proof (cases rule: submit_step_cases)
    case (index u)
    then show ?thesis
      by (intro wakeups_ok_upd_sub [OF assms(3) c]) (auto simp: machine_simps)
  next
    case (push i u)
    then show ?thesis
      by (intro wakeups_ok_upd_sub [OF assms(3) c,
            where p = "if tasks s i = [] then SubTickle i else SubNone"])
        (auto simp: machine_simps Let_def split: if_splits)
  next
    case (tickle i)
    then show ?thesis
      by (intro wakeups_ok_upd_sub [OF assms(3) c,
            where p = "if idling s i then SubWake i else SubNone"])
        (auto simp: machine_simps split: if_splits)
  next
    case (waking i)
    then show ?thesis using assms(2)
      by (intro wakeups_ok_upd_sub [OF assms(3) c, where p = SubNone])
        (auto simp: machine_simps wake_def)
  qed
next
  case (BeginSubmit c u)
  with assms have "submit_begin c u s = Some t" by simp
  from submit_begin_Some [OF this] show ?thesis
    by (intro wakeups_ok_upd_sub [OF assms(3), of c]) auto
next
  case (SpawnSubmit c cb)
  with assms have "submit_spawn c cb s = Some t" by simp
  from submit_spawn_Some [OF this] show ?thesis
    by (intro wakeups_ok_upd_sub [OF assms(3), of c]) auto
next
  case Stop
  with assms have "stop_step s = Some t" by simp
  then show ?thesis
    using assms by (cases rule: stop_step_cases) (auto simp: wakeups_ok_def wake_def)
qed

section \<open>Workers stay until stop is called\<close>

fun past_stop :: "wpc \<Rightarrow> bool" where
  "past_stop (IdleStop k) = (k \<noteq> ChkStop)"
| "past_stop (IdleStop2 k) = (k \<noteq> ChkStop)"
| "past_stop (BaseStop k) = (k \<noteq> ChkStop)"
| "past_stop IdleQuit = True"
| "past_stop _ = False"

definition exits_ok :: "sched \<Rightarrow> bool" where
  "exits_ok s \<longleftrightarrow>
     (stop_flag s \<or> (\<forall>w. \<not> past_stop (pcs s w) \<and> \<not> idle_term s w)) \<and>
     (\<forall>w. pcs s w = RunExit \<longrightarrow> idle_term s w)"

lemma exits_ok_worker:
  assumes "run_worker w c s = Some t" "exits_ok s"
  shows "exits_ok t"
proof (cases "stop_flag s")
  case True
  with assms(1) have "stop_flag t" using run_worker_frame by auto
  moreover have "\<forall>v. pcs t v = RunExit \<longrightarrow> idle_term t v"
    using assms
    by (cases rule: run_worker_cases)
      (auto simp: machine_simps exits_ok_def Let_def split: case_splits)
  ultimately show ?thesis by (simp add: exits_ok_def)
next
  case False
  then have none: "\<not> past_stop (pcs s v) \<and> \<not> idle_term s v" for v
    using assms(2) by (simp add: exits_ok_def)
  have "stopping_step s no_skip ChkStop = Inr False" using False by (simp add: stopping_step_def)
  with assms(1) none [of w] have "\<not> past_stop (pcs t w) \<and> \<not> idle_term t w \<and> pcs t w \<noteq> RunExit"
    by (cases rule: run_worker_cases)
      (auto simp: machine_simps Let_def split: case_splits)
  moreover have "idle_term t v = idle_term s v" if "v \<noteq> w" for v
    using assms(1) that
    by (cases rule: run_worker_cases) (auto simp: machine_simps Let_def split: case_splits)
  moreover have "pcs t v = pcs s v" if "v \<noteq> w" for v
    using run_worker_frame [OF assms(1)] that by blast
  moreover have "pcs s v \<noteq> RunExit" for v
    using assms(2) none [of v] by (auto simp: exits_ok_def)
  ultimately have "\<not> past_stop (pcs t v) \<and> \<not> idle_term t v \<and> pcs t v \<noteq> RunExit" for v
    using none [of v] by (cases "v = w") auto
  then show ?thesis by (simp add: exits_ok_def)
qed

lemma exits_ok_step:
  assumes "sched_step s a = Some t" "exits_ok s"
  shows "exits_ok t"
proof (cases a)
  case (Worker w c)
  with assms show ?thesis by (auto split: if_splits intro: exits_ok_worker)
next
  case (Submit c)
  with assms have "submit_step c s = Some t" by (auto split: if_splits)
  then show ?thesis
    using assms
    by (cases rule: submit_step_cases) (auto simp: machine_simps exits_ok_def Let_def wake_def)
next
  case (BeginSubmit c u)
  with assms submit_begin_Some [of c u s t] show ?thesis by (auto simp: exits_ok_def)
next
  case (SpawnSubmit c cb)
  with assms submit_spawn_Some [of c cb s t] show ?thesis by (auto simp: exits_ok_def)
next
  case Stop
  with assms have "stop_step s = Some t" by simp
  then show ?thesis
    using assms by (cases rule: stop_step_cases) (auto simp: exits_ok_def wake_def goto_def)
qed

section \<open>The invariant of the machine\<close>

definition sched_ok :: "bool \<Rightarrow> nat \<Rightarrow> nat \<Rightarrow> sched \<Rightarrow> bool" where
  "sched_ok b n m s \<longleftrightarrow> 0 < n \<and> shape b n m s \<and> books s \<and> born_known s \<and>
     fibers_ok (fibers s) (fresh s) (pcs s) \<and> runnable_kept s \<and> exits_ok s \<and>
     (b \<longrightarrow> wakeups_ok s)"

lemma sched_ok_init: "0 < n \<Longrightarrow> sched_ok b n m (init_sched b n m)"
  by (auto simp: sched_ok_def init_sched_def shape_def books_def located_def queued_def in_hand_def
      submitting_def busy_count_def born_known_def fibers_ok_def runnable_kept_def exits_ok_def
      wakeups_ok_def)

lemma sched_ok_step:
  assumes "sched_ok b n m s" "sched_step s a = Some t"
  shows "sched_ok b n m t"
proof -
  have fib: "fibers_ok (fibers t) (fresh t) (pcs t)"
    using assms fibers_ok_step [of s a t] by (simp add: sched_ok_def)
  have "books t"
    using assms books_step [of s a t b n m] fibers_okD(7) [OF fib] by (simp add: sched_ok_def)
  moreover have "b \<Longrightarrow> io s" using assms(1) by (simp add: sched_ok_def shape_def)
  ultimately show ?thesis
    using assms fib shape_step [of s a t b n m] born_known_step [of s a t] exits_ok_step [of s a t]
      runnable_kept_step [of s a t] wakeups_ok_step [of s a t]
    by (simp add: sched_ok_def)
qed

interpretation scheduler: machine sched_step "sched_ok b n m" for b n m
  by unfold_locales (rule sched_ok_step)

lemma sched_reach_ok: "sched_reach b n m s \<Longrightarrow> 0 < n \<Longrightarrow> sched_ok b n m s"
  by (induction rule: sched_reach.induct) (auto intro: sched_ok_init sched_ok_step)

lemma sched_run_ok:
  "0 < n \<Longrightarrow> exec_all sched_step (init_sched b n m) acts = Some s \<Longrightarrow> sched_ok b n m s"
  by (rule scheduler.run_good [OF sched_ok_init])

end
