(* ===== verification/Koro_Worker_Props.thy ===== *)
theory Koro_Worker_Props
  imports Koro_Worker_Inv "HOL-Library.Code_Target_Nat"
begin

text \<open>
  What the interleaved machine of \<^verbatim>\<open>Koro_Worker\<close> guarantees for every number of workers,
  every number of submitting threads and every interleaving, and the executions on which it
  falls short. The guarantees follow from the invariant of \<^verbatim>\<open>Koro_Worker_Inv\<close>.
\<close>

section \<open>Two executions that the witnesses use\<close>

text \<open>
  One worker and one other thread. The other thread submits a fiber; the worker finds its queue
  empty, polls, is woken, takes the fiber and runs it.
\<close>

definition wake_trace :: "action list" where
  "wake_trace = replicate 1 (Worker 0 Go) @ replicate 1 (Worker 0 (Try True)) @
     replicate 4 (Worker 0 Go) @ [SpawnSubmit 1 (Some 7)] @ replicate 2 (Submit 1)"

definition run_trace :: "action list" where
  "run_trace = wake_trace @ replicate 2 (Submit 1) @ [Worker 0 (Poll [EvWakeup])] @
     replicate 4 (Worker 0 Go) @ replicate 5 (Worker 0 Go)"

definition demo :: "bool \<Rightarrow> nat \<Rightarrow> nat \<Rightarrow> action list \<Rightarrow> sched" where
  "demo b n m acts =
     (case exec_all sched_step (init_sched b n m) acts of Some s \<Rightarrow> s | None \<Rightarrow> init_sched b n m)"

definition wake_state :: sched where
  "wake_state = demo True 1 1 wake_trace"

definition run_state :: sched where
  "run_state = demo True 1 1 run_trace"

lemma demo_reach: "sched_reach b n m (demo b n m acts)"
  by (auto simp: demo_def intro: sched_reach.init exec_all_init_reach split: option.split)

lemma wake_state_reach: "sched_reach True 1 1 wake_state"
  unfolding wake_state_def by (rule demo_reach)

lemma run_state_reach: "sched_reach True 1 1 run_state"
  unfolding run_state_def by (rule demo_reach)


section \<open>Conservation\<close>

definition everywhere :: "sched \<Rightarrow> scheduled_task multiset" where
  "everywhere s = array_contents (n_threads s) (tasks s) +
     (\<Sum>w<n_threads s. hand (pcs s w)) + (\<Sum>c<n_all s. sub_hand (subs s c))"

lemma count_everywhere: "int (count (everywhere s) x) = located s x"
  by (simp add: everywhere_def located_def array_contents_def queued_def in_hand_def
      submitting_def count_sum)

lemma located_cases:
  assumes "0 < located s x"
  shows "(\<exists>w < n_threads s. x \<in> set (tasks s w) \<or> x \<in># hand (pcs s w)) \<or>
    (\<exists>c < n_all s. x \<in># sub_hand (subs s c))"
proof (rule ccontr)
  assume "\<not> ?thesis"
  then have "queued (n_threads s) (tasks s) x = 0" "in_hand (n_threads s) (pcs s) x = 0"
    "submitting (n_all s) (subs s) x = 0"
    unfolding queued_def in_hand_def submitting_def
    by (auto intro!: sum.neutral simp: count_mset_0_iff not_in_iff)
  with assms show False by (simp add: located_def)
qed

lemma tasks_balanced:
  assumes "sched_ok b n m s"
  shows "born s = retired s + everywhere s"
proof (rule multiset_eqI)
  fix x
  have "int (count (born s) x) = int (count (retired s) x) + located s x"
    using assms by (simp add: sched_ok_def books_def)
  then show "count (born s) x = count (retired s + everywhere s) x"
    by (simp flip: count_everywhere of_nat_add)
qed

text \<open>
  C1: no task is lost and none is duplicated. In every reachable state the tasks that entered
  the scheduler are, as a multiset, those that were retired, plus those in the queues, in the
  hands of a worker inside \<^verbatim>\<open>run\<close>, or inside a call of \<^verbatim>\<open>submit\<close>.\<close>

theorem tasks_conserved:
  assumes "sched_reach b n m s" "0 < n"
  shows "born s = retired s + (array_contents n (tasks s) +
    (\<Sum>w<n. hand (pcs s w)) + (\<Sum>c<n + m. sub_hand (subs s c)))"
proof -
  have ok: "sched_ok b n m s" by (rule sched_reach_ok) (use assms in auto)
  from tasks_balanced [OF ok] show ?thesis using ok by (simp add: everywhere_def sched_ok_def shape_def)
qed

theorem tasks_conserved_witness:
  "born run_state = retired run_state +
     (array_contents 1 (tasks run_state) +
      (\<Sum>w<1. hand (pcs run_state w)) +
      (\<Sum>c<1 + 1. sub_hand (subs run_state c)))"
  by (rule tasks_conserved [OF run_state_reach]) simp

text \<open>
  C2: a fiber that can run is not forgotten. Whenever a fiber is in state
  \<^verbatim>\<open>kReady\<close>, a task for it is in a queue, in the hands of a worker, or inside a call
  of \<^verbatim>\<open>submit\<close>.\<close>

theorem runnable_fiber_scheduled:
  assumes "sched_reach b n m s" "0 < n" "fibers s f = Some fb" "fb_state fb = kReady"
  shows "\<exists>t. st_fiber t = Some f \<and>
    ((\<exists>w<n. t \<in> set (tasks s w) \<or> t \<in># hand (pcs s w)) \<or> (\<exists>c<n + m. t \<in># sub_hand (subs s c)))"
proof -
  have ok: "sched_ok b n m s" by (rule sched_reach_ok) (use assms in auto)
  then obtain u where u: "st_fiber u = Some f" "count (retired s) u < count (born s) u"
    using assms(3,4) by (auto simp: sched_ok_def runnable_kept_def)
  have "int (count (born s) u) = int (count (retired s) u) + located s u"
    using ok by (simp add: sched_ok_def books_def)
  with u(2) have "0 < located s u" by linarith
  from located_cases [OF this] u(1) ok show ?thesis by (auto simp: sched_ok_def shape_def)
qed

lemma wake_trace_state:
  "map_option (\<lambda>s. (pcs s 0, tasks s 0, subs s 1, map_option fb_state (fibers s 0)))
     (exec_all sched_step (init_sched True 1 1) wake_trace) =
   Some (IdlePoll, [task_of_fiber 0], SubTickle 0, Some kReady)"
  by code_simp

lemma wake_demo:
  "pcs wake_state 0 = IdlePoll"
  "tasks wake_state 0 = [task_of_fiber 0]"
  "\<exists>fb. fibers wake_state 0 = Some fb \<and> fb_state fb = kReady"
  using wake_trace_state by (auto simp: wake_state_def demo_def split: option.splits)

theorem runnable_fiber_scheduled_witness:
  "\<exists>fb. fibers wake_state 0 = Some fb \<and> fb_state fb = kReady \<and>
    (\<exists>t. st_fiber t = Some 0 \<and>
      ((\<exists>w<1. t \<in> set (tasks wake_state w) \<or>
          t \<in># hand (pcs wake_state w)) \<or>
       (\<exists>c<1 + 1. t \<in># sub_hand (subs wake_state c))))"
  using wake_demo(3) runnable_fiber_scheduled [OF wake_state_reach, of 0]
  by (metis zero_less_one)

section \<open>Exclusion\<close>

text \<open>
  C3: a fiber runs on one worker at a time. When two workers are inside the body of
  the same fiber they are the same worker, and the fiber's lock is held and its state is
  \<^verbatim>\<open>kRunning\<close>.\<close>

theorem fiber_runs_on_one_worker:
  assumes "sched_reach b n m s" "0 < n" "pcs s v = RunBody t f" "pcs s w = RunBody u f"
  shows "v = w \<and> (\<exists>fb. fibers s f = Some fb \<and> fb_execute fb \<and> fb_state fb = kRunning)"
proof -
  have ok: "fibers_ok (fibers s) (fresh s) (pcs s)"
    using sched_reach_ok [OF assms(1,2)] by (simp add: sched_ok_def)
  have "v = w" using ok assms(3,4) unfolding fibers_ok_def by (metis holds.simps(4))
  moreover have "\<exists>fb. fibers s f = Some fb \<and> fb_execute fb \<and> fits (pcs s v) (fb_state fb)"
    using ok assms(3) unfolding fibers_ok_def by (metis holds.simps(4))
  ultimately show ?thesis using assms(3) by auto
qed

lemma run_trace_state:
  "map_option (\<lambda>s. (pcs s 0, active s))
     (exec_all sched_step (init_sched True 1 1) run_trace) = Some (RunBody (task_of_fiber 0) 0, 1)"
  by code_simp

lemma run_trace_subs:
  "map_option (\<lambda>s. subs s 0) (exec_all sched_step (init_sched True 1 1) run_trace) = Some SubNone"
  by code_simp

lemma run_demo: "pcs run_state 0 = RunBody (task_of_fiber 0) 0"
  using run_trace_state by (auto simp: run_state_def demo_def split: option.splits)

theorem fiber_runs_on_one_worker_witness:
  "\<exists>fb. fibers run_state 0 = Some fb \<and> fb_execute fb \<and> fb_state fb = kRunning"
  using fiber_runs_on_one_worker [OF run_state_reach _ run_demo run_demo] by simp

text \<open>
  C11: no assertion of \<^verbatim>\<open>Scheduler::run\<close>, \<^verbatim>\<open>Fiber::resume\<close>, \<^verbatim>\<open>yield\<close> or
  \<^verbatim>\<open>hold\<close> fails, and no task refers to a fiber that does not exist, in any interleaving.\<close>

theorem scheduler_assertions_hold:
  assumes "sched_reach b n m s" "0 < n"
  shows "pcs s w \<noteq> RunFail"
  using sched_reach_ok [OF assms] by (simp add: sched_ok_def fibers_ok_def)

theorem scheduler_assertions_hold_witness: "pcs run_state 0 \<noteq> RunFail"
  by (rule scheduler_assertions_hold [OF run_state_reach]) simp

section \<open>Wake-ups\<close>



text \<open>
  The base class does lose one. \<^verbatim>\<open>Scheduler::idle\<close> waits on the condition variable
  without looking at the queue, so a task that was pushed after the worker had searched and
  before it set \<^verbatim>\<open>idling\<close> is not noticed: in a reachable state the only worker sleeps,
  its queue holds a task, and nobody is on the way to wake it.\<close>

theorem base_idle_loses_wakeup:
  "\<exists>s. sched_reach False 1 1 s \<and> pcs s 0 = BaseSleep \<and> tasks s 0 = [task_of_callback 7] \<and>
     subs s 0 = SubNone \<and> subs s 1 = SubNone \<and> stopper s = StIdle \<and> run_worker 0 Go s = None"
proof -
  let ?tr = "[Worker 0 Go, Worker 0 (Try True), Worker 0 Go,
    BeginSubmit 1 (task_of_callback 7)] @ replicate 3 (Submit 1) @ replicate 2 (Worker 0 Go)"
  have "map_option (\<lambda>s. (pcs s 0, tasks s 0, subs s 0, subs s 1, stopper s))
      (exec_all sched_step (init_sched False 1 1) ?tr) =
    Some (BaseSleep, [task_of_callback 7], SubNone, SubNone, StIdle)"
    by code_simp
  then obtain s where s: "exec_all sched_step (init_sched False 1 1) ?tr = Some s"
    "pcs s 0 = BaseSleep" "tasks s 0 = [task_of_callback 7]" "subs s 0 = SubNone"
    "subs s 1 = SubNone" "stopper s = StIdle"
    by auto
  then show ?thesis using exec_all_init_reach [OF s(1)] by (auto simp: run_worker_def)
qed

section \<open>Counting and stopping\<close>

lemma busy_count_le: "busy_count n ps \<le> n"
  unfolding busy_count_def by (rule sum_le_one_worker) simp

lemma busy_count_card: "busy_count n ps = card {w. w < n \<and> busy (ps w)}"
proof -
  have "{..<n} \<inter> {w. busy (ps w)} = {w. w < n \<and> busy (ps w)}" by auto
  then show ?thesis by (simp add: busy_count_def)
qed

text \<open>
  \<^verbatim>\<open>active_thread_count_\<close> is exact. Read as a number it is the number of workers
  between their increment and their decrement, as long as there are fewer workers than the
  64-bit counter can count.\<close>

theorem active_count_exact:
  assumes "sched_reach b n m s" "0 < n" "n < 2 ^ 64"
  shows "unat (active s) = card {w. w < n \<and> busy (pcs s w)}"
proof -
  have ok: "sched_ok b n m s" by (rule sched_reach_ok [OF assms(1,2)])
  then have "active s = of_nat (busy_count n (pcs s))"
    by (simp add: sched_ok_def books_def shape_def)
  moreover have "busy_count n (pcs s) < 2 ^ 64"
    using busy_count_le [of n "pcs s"] assms(3) by linarith
  ultimately have "unat (active s) = busy_count n (pcs s)"
    by (simp add: unat_of_nat take_bit_nat_eq_self)
  then show ?thesis by (simp add: busy_count_card)
qed

theorem active_count_exact_witness:
  "unat (active run_state) = card {w. w < 1 \<and> busy (pcs run_state w)} \<and> busy (pcs run_state 0)"
  using active_count_exact [OF run_state_reach] by (simp add: run_demo)

text \<open>
  Workers leave only after \<^verbatim>\<open>stop\<close>. Until \<^verbatim>\<open>stop_\<close> is set no idle fiber
  terminates and no worker leaves \<^verbatim>\<open>run\<close>.\<close>

theorem workers_exit_only_after_stop:
  assumes "sched_reach b n m s" "0 < n" "idle_term s w \<or> pcs s w = RunExit"
  shows "stop_flag s"
  using sched_reach_ok [OF assms(1,2)] assms(3) by (auto simp: sched_ok_def exits_ok_def)

definition stopped_trace :: "action list" where
  "stopped_trace = replicate 6 Stop @ [Worker 0 Go, Worker 0 (Try True)] @ replicate 9 (Worker 0 Go) @
     [Worker 0 (Try True), Worker 0 Go]"

lemma stopped_trace_state:
  "map_option (\<lambda>s. (pcs s 0, idle_term s 0)) (exec_all sched_step (init_sched True 1 0) stopped_trace) =
   Some (RunExit, True)"
  by code_simp

theorem workers_exit_only_after_stop_witness:
  "\<exists>s. sched_reach True 1 0 s \<and> pcs s 0 = RunExit \<and> stop_flag s"
proof -
  obtain s where s: "exec_all sched_step (init_sched True 1 0) stopped_trace = Some s"
    "pcs s 0 = RunExit" "idle_term s 0"
    using stopped_trace_state by auto
  have "sched_reach True 1 0 s" using s(1) by (rule exec_all_init_reach)
  moreover have "stop_flag s"
    by (rule workers_exit_only_after_stop [OF calculation, of 0]) (use s in auto)
  ultimately show ?thesis using s by auto
qed

text \<open>
  The position-by-position scan that the machine executes for
  \<^verbatim>\<open>Scheduler::stopping\<close> ends, and on a state that nobody changes meanwhile it answers
  whether stop was requested, no worker is active, no event is pending, and every queue other
  than the one to skip is empty.\<close>

theorem stopping_run_correct:
  "stopping_run (n_threads s + 4) s skip ChkStop = Some (stopping s skip)"
proof -
  have "stopping_run (n_threads s + 1) s skip (ChkQueue 0) =
    Some (\<forall>j \<in> {0..<n_threads s}. j \<noteq> skip \<longrightarrow> tasks s j = [])"
    by (rule stopping_run_queues) auto
  then show ?thesis
    by (auto simp: stopping_def stopping_step_def numeral_eq_Suc)
qed

section \<open>\<^verbatim>\<open>stop\<close> that does not return\<close>

text \<open>
  The steps that the scheduler takes on its own: all but new calls of \<^verbatim>\<open>submit\<close> and the
  return of \<^verbatim>\<open>epoll_wait\<close> for a reason other than the wake-up descriptor.
\<close>

fun internal :: "action \<Rightarrow> bool" where
  "internal (Worker w (Poll evs)) = (EvWakeup \<in> set evs)"
| "internal (Worker w c) = True"
| "internal (Submit c) = True"
| "internal Stop = True"
| "internal (BeginSubmit c t) = False"
| "internal (SpawnSubmit c cb) = False"

definition idle_in :: "nat \<Rightarrow> nat \<Rightarrow> action list" where
  "idle_in w k = [Worker w Go] @ replicate k (Worker w (Try True)) @ [Worker w Go]"

definition hang_trace :: "action list" where
  "hang_trace = idle_in 0 2 @ replicate 3 (Worker 0 Go) @
     [BeginSubmit 2 (task_of_callback 7)] @ replicate 2 (Submit 2) @
     [Worker 1 Go, Worker 1 (Try True)] @ replicate 2 (Submit 2) @ [Worker 0 (Poll [EvWakeup])] @
     replicate 3 (Worker 0 Go) @ replicate 13 Stop @ [Worker 1 Go] @ replicate 2 (Worker 0 Go) @
     idle_in 0 2 @ replicate 4 (Worker 0 Go) @ replicate 2 (Worker 1 Go) @ [Worker 1 UserReturn] @
     replicate 3 (Worker 1 Go) @ idle_in 1 2 @ replicate 8 (Worker 1 Go) @ idle_in 1 2"

lemma hang_trace_state:
  "map_option (\<lambda>s. (stopper s, pcs s 0, pcs s 1, wakeups s 0, tasks s 0, tasks s 1,
       subs s 0, subs s 1, subs s 2))
     (exec_all sched_step (init_sched True 2 1) hang_trace) =
   Some (StJoin 0, IdlePoll, RunExit, 0, [], [], SubNone, SubNone, SubNone)"
  by code_simp

text \<open>
  C10: \<^verbatim>\<open>stop\<close> can hang. A worker takes a task out of its queue before it counts itself
  active, so in between \<^verbatim>\<open>stopping\<close> sees neither; \<^verbatim>\<open>stop\<close> then signals the idle
  workers for the last time, too early. There is a reachable state of two workers and one
  submitting thread in which all work is done, \<^verbatim>\<open>stop\<close> joins a worker that waits in
  \<^verbatim>\<open>epoll_wait\<close> with its eventfd unreadable, and no thread of the scheduler can move.\<close>

theorem stop_can_hang:
  "\<exists>s. sched_reach True 2 1 s \<and> stopper s = StJoin 0 \<and> pcs s 0 = IdlePoll \<and> pcs s 1 = RunExit \<and>
     tasks s 0 = [] \<and> tasks s 1 = [] \<and> \<not> (\<exists>a. internal a \<and> sched_step s a \<noteq> None)"
proof -
  obtain s where s: "exec_all sched_step (init_sched True 2 1) hang_trace = Some s"
    and v: "stopper s = StJoin 0" "pcs s 0 = IdlePoll" "pcs s 1 = RunExit" "wakeups s 0 = 0"
      "tasks s 0 = []" "tasks s 1 = []" "subs s 0 = SubNone" "subs s 1 = SubNone" "subs s 2 = SubNone"
    using hang_trace_state by auto
  have reach: "sched_reach True 2 1 s" using s by (rule exec_all_init_reach)
  have sh: "n_threads s = 2" "n_all s = 3"
    using sched_reach_ok [OF reach] by (simp_all add: sched_ok_def shape_def)
  have w1: "run_worker 1 c s = None" for c
    unfolding run_worker_def v(3) by simp
  have w0: "run_worker 0 c s = None" if "internal (Worker 0 c)" for c
    using that unfolding run_worker_def v(2) by (cases c) (simp_all add: idle_poll_def v(4))
  have sub: "submit_step c s = None" if "c < 3" for c
  proof -
    from that consider "c = 0" | "c = 1" | "c = 2" by linarith
    then show ?thesis by cases (use v in \<open>simp_all add: submit_step_def\<close>)
  qed
  have "sched_step s a = None" if "internal a" for a
  proof (cases a)
    case (Worker w c)
    have "w = 0 \<or> w = 1 \<or> \<not> w < 2" by linarith
    then show ?thesis using that w0 w1 unfolding Worker by (auto simp: sh)
  next
    case Stop
    then show ?thesis by (simp add: stop_step_def v(1,2) sh)
  qed (use that sub in \<open>simp_all add: sh\<close>)
  then have none: "\<not> (\<exists>a. internal a \<and> sched_step s a \<noteq> None)" by simp
  show ?thesis by (intro exI [of _ s] conjI reach v none)
qed

section \<open>Distribution and stealing\<close>

text \<open>
  \<^verbatim>\<open>submit\<close> is fair. As long as the 64-bit counter does not wrap, any
  \<open>n\<close> consecutive submissions go to the \<open>n\<close> queues, one to each.\<close>

theorem submit_round_robin:
  assumes "0 < n" "unat idx + n \<le> 2 ^ 64"
  shows "bij_betw (\<lambda>k. submit_target (idx + of_nat k) n) {..<n} {..<n}"
proof -
  have val: "submit_target (idx + of_nat k) n = (unat idx + k) mod n" if "k < n" for k
  proof -
    have "unat (of_nat k :: u64) = k"
      using that assms(2) by (simp add: unat_of_nat take_bit_nat_eq_self)
    then have "unat (idx + of_nat k) = unat idx + k"
      using that assms(2) by (subst unat_plus_simple [THEN iffD1]) (auto simp: word_le_nat_alt unat_word_ariths)
    then show ?thesis by (simp add: submit_target_def)
  qed
  have inj: "inj_on (\<lambda>k. submit_target (idx + of_nat k) n) {..<n}"
    by (rule inj_onI) (use val cyclic_inj in auto)
  have "(\<lambda>k. submit_target (idx + of_nat k) n) ` {..<n} \<subseteq> {..<n}"
    using assms(1) by (auto simp: submit_target_def)
  with inj show ?thesis
    by (simp add: bij_betw_def endo_inj_surj)
qed

theorem submit_round_robin_witness:
  "bij_betw (\<lambda>k. submit_target (5 + of_nat k) 3) {..<3} {..<3}"
  by (rule submit_round_robin) simp_all

text \<open>
  What \<^verbatim>\<open>stealTask\<close> returns. It takes the last task of another worker's queue
  whose lock it obtained; when it returns nothing it changed nothing, and every other queue
  whose lock it could get was empty.\<close>

theorem stealTask_correct:
  assumes "thief < n" "stealTask n thief free qs = (r, qs')"
  shows "case r of
      None \<Rightarrow> qs' = qs \<and> (\<forall>v<n. v \<noteq> thief \<longrightarrow> free v \<longrightarrow> qs v = [])
    | Some t \<Rightarrow> \<exists>v<n. v \<noteq> thief \<and> free v \<and> qs v \<noteq> [] \<and> t = last (qs v) \<and>
        qs' = qs(v := butlast (qs v))"
proof (cases r)
  case None
  have "qs' = qs \<and> (\<forall>v \<in> set (victims thief n). free v \<longrightarrow> qs v = [])"
    using assms(2) unfolding None stealTask_def by (rule steal_first_None)
  then show ?thesis unfolding None set_victims [OF assms(1)] by simp
next
  case (Some t)
  show ?thesis using stealTask_Some [OF assms(2) [unfolded Some] assms(1)] by (simp add: Some)
qed

theorem stealTask_correct_witness:
  "\<exists>v<3. v \<noteq> (1::nat) \<and> (\<lambda>v. v \<noteq> 2) v \<and> (\<lambda>_. [7::nat, 8]) v \<noteq> [] \<and> (8::nat) = last ((\<lambda>_. [7, 8]) v) \<and>
     (\<lambda>_. [7, 8])(0 := [7]) = (\<lambda>_. [7, 8])(v := butlast ((\<lambda>_. [7::nat, 8]) v))"
proof -
  have "stealTask 3 1 (\<lambda>v. v \<noteq> 2) (\<lambda>_. [7, 8]) = (Some (8::nat), (\<lambda>_. [7, 8])(0 := [7]))"
    by (simp add: stealTask_def victims_def steal_try_def upt_conv_Cons)
  from stealTask_correct [OF _ this] show ?thesis by simp
qed

text \<open>
  Any sequence of submissions, takes from the front and steals from the back, on
  queues of the \<open>n\<close> workers, hands out each task once: what was queued before and what was
  submitted is what was handed out and what is still queued.\<close>

theorem queue_operations_conserve:
  assumes "run_ops queue_post queue_take (stealTask n) ps qs = (rs, qs')"
    and "\<And>p. p \<in> set ps \<Longrightarrow> op_index p < n"
  shows "array_contents n qs + posted ps = mset rs + array_contents n qs'"
  by (rule sched_queues.run_ops_contents [OF assms])

theorem queue_operations_conserve_witness:
  "array_contents 2 (\<lambda>_. []) + posted [Post 1 (7::nat), Post 1 8, Steal 0 (\<lambda>_. True), Take 1] =
     mset [8, 7] + array_contents 2 (\<lambda>_. [])"
  by (rule queue_operations_conserve)
    (auto simp: queue_post_def queue_take_def stealTask_def victims_def steal_try_def
      upt_conv_Cons fun_upd_idem_iff)

section \<open>The scheduler as a bag of tasks\<close>

text \<open>
  The abstract specification: a bag from which one task may be taken, to which one may be added,
  or in which one may be replaced, in a step.
\<close>

inductive bag_step :: "'a multiset \<Rightarrow> 'a multiset \<Rightarrow> bool" where
  bag_keep: "bag_step b b"
| bag_add: "bag_step b (add_mset x b)"
| bag_remove: "bag_step (add_mset x b) b"
| bag_replace: "bag_step (add_mset x b) (add_mset y b)"

lemma run_worker_history:
  assumes "run_worker w c s = Some t"
  shows "(born t = born s \<and> retired t = retired s) \<or> (\<exists>x. born t = add_mset x (born s) \<and> retired t = retired s) \<or>
    (\<exists>x. born t = born s \<and> retired t = add_mset x (retired s)) \<or>
    (\<exists>x y. born t = add_mset y (born s) \<and> retired t = add_mset x (retired s))"
  using assms
  by (cases rule: run_worker_cases)
    (auto simp: machine_simps Let_def steal_try_def split: case_splits)

lemma bag_worker:
  assumes "born s = retired s + bs" "born t = retired t + bt" "run_worker w c s = Some t"
  shows "bag_step bs bt"
proof -
  from run_worker_history [OF assms(3)]
  consider (keep) "born t = born s" "retired t = retired s"
    | (add) x where "born t = add_mset x (born s)" "retired t = retired s"
    | (remove) x where "born t = born s" "retired t = add_mset x (retired s)"
    | (replace) x y where "born t = add_mset y (born s)" "retired t = add_mset x (retired s)"
    by blast
  then show ?thesis
  proof cases
    case keep
    with assms have "bt = bs" by simp
    then show ?thesis by (simp add: bag_keep)
  next
    case (add x)
    with assms have "bt = add_mset x bs" by simp
    then show ?thesis by (simp add: bag_add)
  next
    case (remove x)
    with assms have "bs = add_mset x bt" by simp
    then show ?thesis by (simp add: bag_remove)
  next
    case (replace x y)
    with assms have eq: "add_mset y bs = add_mset x bt" by simp
    show ?thesis
    proof (cases "x = y")
      case True
      with eq show ?thesis by (simp add: bag_keep)
    next
      case False
      with eq obtain b where "bs = add_mset x b" "bt = add_mset y b"
        by (auto simp: add_eq_conv_ex)
      then show ?thesis by (simp add: bag_replace)
    qed
  qed
qed



end
