(* ===== verification/Koro_Shutdown.thy ===== *)
theory Koro_Shutdown
  imports Koro_Worker_Props
begin

text \<open>
  The end of the scheduler: when nothing is left to do, \<^verbatim>\<open>Scheduler::stop\<close> returns. A state
  is drained when a stop was requested, no task is queued, submitted or held by a worker, and no
  event is pending; from there the machine of \<^verbatim>\<open>Koro_Worker\<close> is shown to come to rest, with
  a bound on the number of its steps. The race that keeps \<^verbatim>\<open>stop\<close> from returning
  (\<^verbatim>\<open>Koro_Worker_Props\<close>) needs a task in a worker's hands while \<^verbatim>\<open>stop\<close> makes its last
  pass, which a drained state excludes.
\<close>

section \<open>Drained states\<close>

fun drained_pc :: "wpc \<Rightarrow> bool" where
  "drained_pc RunTop = True"
| "drained_pc (RunSteal i) = True"
| "drained_pc RunNoTask = True"
| "drained_pc RunExit = True"
| "drained_pc IdleTop = True"
| "drained_pc (IdleStop c) = True"
| "drained_pc IdleHasTask = True"
| "drained_pc IdleLeave = True"
| "drained_pc IdlePoll = True"
| "drained_pc (IdleWoken evs) = (\<forall>e \<in> set evs. e = EvWakeup)"
| "drained_pc (IdleEvents evs) = (\<forall>e \<in> set evs. e = EvWakeup)"
| "drained_pc (IdleStop2 c) = True"
| "drained_pc IdleQuit = True"
| "drained_pc _ = False"

text \<open>Nothing is left to do: no event is pending, and no task is queued or being submitted.\<close>

definition workless :: "sched \<Rightarrow> bool" where
  "workless s \<longleftrightarrow> stop_flag s \<and> pending s = 0 \<and> (\<forall>i<n_threads s. tasks s i = []) \<and>
     (\<forall>c<n_all s. subs s c = SubNone)"

definition drained :: "sched \<Rightarrow> bool" where
  "drained s \<longleftrightarrow> workless s \<and> (\<forall>w<n_threads s. drained_pc (pcs s w))"

text \<open>\<^verbatim>\<open>stop\<close> is still in its loop, so its last pass over the workers lies ahead.\<close>

fun last_pass_ahead :: "stpc \<Rightarrow> bool" where
  "last_pass_ahead (StSweep i) = True"
| "last_pass_ahead (StSweepWake i) = True"
| "last_pass_ahead (StCheck c) = True"
| "last_pass_ahead _ = False"

text \<open>
  The steps of the shutdown: everything but new submissions. \<^verbatim>\<open>epoll_wait\<close> returns because a
  signal interrupted it, or with the wake-up descriptor; no other event is pending. A step is
  certain if it does not need the signal.
\<close>

fun shutdown_act :: "action \<Rightarrow> bool" where
  "shutdown_act (Worker w (Poll evs)) = (evs = [] \<or> evs = [EvWakeup])"
| "shutdown_act (Worker w c) = True"
| "shutdown_act (Submit c) = True"
| "shutdown_act Stop = True"
| "shutdown_act (BeginSubmit c t) = False"
| "shutdown_act (SpawnSubmit c cb) = False"

definition certain_act :: "action \<Rightarrow> bool" where
  "certain_act a \<longleftrightarrow> shutdown_act a \<and> (\<forall>w. a \<noteq> Worker w (Poll []))"

definition shutdown_step :: "sched \<Rightarrow> action \<Rightarrow> sched option" where
  "shutdown_step s a = (if shutdown_act a then sched_step s a else None)"

lemma exec_shutdown:
  "(\<forall>a \<in> set acts. shutdown_act a) \<Longrightarrow> exec_all sched_step s acts = Some t \<Longrightarrow>
   exec_all shutdown_step s acts = Some t"
  by (induction acts arbitrary: s) (auto simp: shutdown_step_def split: option.splits)

section \<open>The work that is left\<close>

text \<open>
  How many steps a thread can still take: \<open>n\<close> workers, \<open>b\<close> whether the idle fiber of the
  worker has terminated.
\<close>

fun chk_work :: "nat \<Rightarrow> chk \<Rightarrow> nat" where
  "chk_work n ChkStop = n + 4"
| "chk_work n ChkActive = n + 3"
| "chk_work n ChkPending = n + 2"
| "chk_work n (ChkQueue i) = Suc (n - i)"

fun pc_work :: "nat \<Rightarrow> bool \<Rightarrow> wpc \<Rightarrow> nat" where
  "pc_work n b RunExit = 0"
| "pc_work n b RunNoTask = (if b then 1 else 2 * n + 10)"
| "pc_work n b (RunSteal i) = (if b then 1 else 2 * n + 10) + Suc (n - i)"
| "pc_work n b RunTop = (if b then 1 else 2 * n + 10) + n + 2"
| "pc_work n b IdleQuit = n + 4"
| "pc_work n b (IdleStop2 c) = n + 4 + chk_work n c"
| "pc_work n b (IdleStop c) = n + 4 + chk_work n c"
| "pc_work n b IdleTop = 2 * n + 9"
| "pc_work n b (IdleEvents evs) = 2 * n + 9 + length evs"
| "pc_work n b (IdleWoken evs) = 2 * n + 10 + length evs"
| "pc_work n b IdlePoll = 2 * n + 12"
| "pc_work n b IdleHasTask = 2 * n + 13"
| "pc_work n b IdleLeave = 3 * n + 13"
| "pc_work n b _ = 0"

fun stop_work :: "nat \<Rightarrow> stpc \<Rightarrow> nat" where
  "stop_work n StDone = 0"
| "stop_work n StIdle = 1"
| "stop_work n (StJoin i) = Suc (n - i)"
| "stop_work n (StFinal i) = n + 2 + 2 * (n - i)"
| "stop_work n (StFinalWake i) = n + 3 + 2 * (n - Suc i)"
| "stop_work n (StCheck c) = 3 * n + 2 + chk_work n c"
| "stop_work n (StSweep i) = 4 * n + 7 + 2 * (n - i)"
| "stop_work n (StSweepWake i) = 4 * n + 8 + 2 * (n - Suc i)"

definition shutdown_work :: "sched \<Rightarrow> nat" where
  "shutdown_work s = stop_work (n_threads s) (stopper s) +
     (\<Sum>w<n_threads s. pc_work (n_threads s) (idle_term s w) (pcs s w))"

lemma chk_work_pos: "0 < chk_work n c"
  by (cases c) auto

section \<open>Steps of a drained scheduler\<close>

lemma busy_not_drained: "drained_pc p \<Longrightarrow> \<not> busy p"
  by (cases p) auto

lemma idle_active:
  assumes "sched_ok b n m s" "\<And>w. w < n_threads s \<Longrightarrow> \<not> busy (pcs s w)"
  shows "active s = 0"
proof -
  have "busy_count (n_threads s) (pcs s) = 0"
    using assms(2) by (auto simp: busy_count_def)
  then show ?thesis using assms(1) by (simp add: sched_ok_def books_def)
qed

text \<open>Without work, \<^verbatim>\<open>stopping\<close> goes on to its end and says yes.\<close>

lemma workless_check:
  assumes "workless s" "active s = 0"
  shows "stopping_step s k c = Inr True \<or>
    (\<exists>d. stopping_step s k c = Inl d \<and> chk_work (n_threads s) d < chk_work (n_threads s) c)"
  using assms by (cases c) (auto simp: stopping_step_def workless_def)

lemma workless_chk:
  assumes "workless s" "active s = 0"
  shows "stopping_step s no_skip k = Inl d \<Longrightarrow> chk_work (n_threads s) d < chk_work (n_threads s) k"
    and "stopping_step s no_skip k \<noteq> Inr False"
  using workless_check [OF assms, of no_skip k] by auto

text \<open>Nothing can be stolen then.\<close>

lemma workless_steal:
  assumes "workless s" "w < n_threads s"
  shows "steal_try ((w + i) mod n_threads s) free (tasks s) = None"
  using assms by (simp add: steal_try_def workless_def)

text \<open>A step of \<^verbatim>\<open>stop\<close> is progress.\<close>

lemma stop_work_less:
  assumes "stop_step s = Some t" "stopper s \<noteq> StIdle" "workless s" "active s = 0"
  shows "stop_work (n_threads s) (stopper t) < stop_work (n_threads s) (stopper s)"
  using assms(1,2) workless_chk [OF assms(3,4)] chk_work_pos [of "n_threads s"]
  by (cases "stopper s") (auto simp: stop_step_def wake_def split: if_splits sum.splits)

text \<open>A worker's step: the state stays drained, and the worker has less to do.\<close>

lemma drained_worker:
  assumes "run_worker w c s = Some t" "w < n_threads s" "drained s" "active s = 0" "io s"
    "shutdown_act (Worker w c)"
  shows "drained_pc (pcs t w) \<and> tasks t = tasks s \<and> pending t = pending s \<and>
    pc_work (n_threads s) (idle_term t w) (pcs t w) < pc_work (n_threads s) (idle_term s w) (pcs s w) \<and>
    pcs s w \<noteq> RunExit \<and> pcs t w \<noteq> IdleHasTask \<and>
    (pcs t w = IdlePoll \<longrightarrow> pcs s w = IdleHasTask \<and> wakeups t = wakeups s) \<and>
    (\<forall>v. v \<noteq> w \<longrightarrow> idle_term t v = idle_term s v)"
proof -
  have pc: "drained_pc (pcs s w)" and wl: "workless s" and q: "tasks s w = []"
    using assms(2,3) by (simp_all add: drained_def workless_def)
  note st = workless_steal [OF wl assms(2)] and chk = workless_chk [OF wl assms(4)]
  show ?thesis
  proof (cases "pcs s w = IdlePoll")
    case True
    with assms(1,6) show ?thesis
      by (auto simp: run_worker_def idle_poll_def goto_def split: choice.splits if_splits)
  next
    case False
    from assms(1) False pc show ?thesis
      using chk_work_pos
      by (cases rule: run_worker_cases)
        (auto simp: machine_simps q st assms(5) chk split: if_splits list.splits event.splits sum.splits)
  qed
qed

text \<open>
  What the threads that wait rely on: a worker at or before \<^verbatim>\<open>epoll_wait\<close> has its eventfd
  readable or \<^verbatim>\<open>stop\<close> will still come to it, and a joined worker has left.
\<close>

fun visits :: "stpc \<Rightarrow> nat \<Rightarrow> bool" where
  "visits (StFinal i) w = (i \<le> w)"
| "visits (StFinalWake i) w = (i \<le> w)"
| "visits p w = last_pass_ahead p"

fun joined :: "stpc \<Rightarrow> nat \<Rightarrow> bool" where
  "joined (StJoin i) w = (w < i)"
| "joined StDone w = True"
| "joined p w = False"

definition will_wake :: "sched \<Rightarrow> bool" where
  "will_wake s \<longleftrightarrow> (\<forall>w<n_threads s. pcs s w \<in> {IdleHasTask, IdlePoll} \<longrightarrow>
     0 < wakeups s w \<or> visits (stopper s) w)"

definition joins_ok :: "sched \<Rightarrow> bool" where
  "joins_ok s \<longleftrightarrow> stopper s \<noteq> StIdle \<and> (\<forall>w<n_threads s. joined (stopper s) w \<longrightarrow> pcs s w = RunExit)"

definition shutdown_ok :: "nat \<Rightarrow> nat \<Rightarrow> sched \<Rightarrow> bool" where
  "shutdown_ok n m s \<longleftrightarrow> sched_ok True n m s \<and> drained s \<and> will_wake s \<and> joins_ok s"

definition shutdown_done :: "sched \<Rightarrow> bool" where
  "shutdown_done s \<longleftrightarrow> stopper s = StDone \<and> (\<forall>w<n_threads s. pcs s w = RunExit)"

lemma shutdown_okD:
  assumes "shutdown_ok n m s"
  shows "sched_ok True n m s" "drained s" "will_wake s" "joins_ok s" "active s = 0" "io s"
    "n_threads s = n" "n_all s = n + m" "wakeups_ok s"
proof -
  show ok: "sched_ok True n m s" and "drained s" "will_wake s" "joins_ok s"
    using assms by (simp_all add: shutdown_ok_def)
  then show "active s = 0"
    using busy_not_drained by (intro idle_active [OF ok]) (auto simp: drained_def)
  show "io s" "n_threads s = n" "n_all s = n + m" "wakeups_ok s"
    using ok by (simp_all add: sched_ok_def shape_def)
qed

lemma shutdown_worker:
  assumes ok: "shutdown_ok n m s" and w: "w < n" and st: "run_worker w c s = Some t"
    and a: "shutdown_act (Worker w c)"
  shows "drained t" "will_wake t" "joins_ok t" "shutdown_work t < shutdown_work s"
proof -
  note d = shutdown_okD [OF ok]
  note f = run_worker_frame [OF st]
  have w': "w < n_threads s" using w d(7) by simp
  note k = drained_worker [OF st w' d(2,5,6) a]
  have pc: "pcs t v = pcs s v" "wakeups t v = wakeups s v" if "v \<noteq> w" for v using f that by blast+
  show "drained t"
    using d(2) k f pc unfolding drained_def workless_def by (metis (no_types, lifting))
  show "will_wake t"
    using d(3) k f pc unfolding will_wake_def by (metis (no_types, lifting) insertE insertI1 singletonD)
  show "joins_ok t"
    using d(4) k f pc unfolding joins_ok_def by (metis (no_types, lifting))
  have "(\<Sum>v<n_threads s. pc_work (n_threads s) (idle_term t v) (pcs t v)) <
      (\<Sum>v<n_threads s. pc_work (n_threads s) (idle_term s v) (pcs s v))"
    by (rule sum_one_less [OF w']) (use k pc in auto)
  then show "shutdown_work t < shutdown_work s" using f by (simp add: shutdown_work_def)
qed

lemma shutdown_stop:
  assumes ok: "shutdown_ok n m s" and st: "stop_step s = Some t"
  shows "drained t" "will_wake t" "joins_ok t" "shutdown_work t < shutdown_work s"
proof -
  note d = shutdown_okD [OF ok]
  have wl: "workless s" using d(2) by (simp add: drained_def)
  note chk = workless_chk [OF wl d(5)]
  have wk: "pcs s i \<in> {IdleHasTask, IdlePoll} \<Longrightarrow> idling s i" for i
    using d(9) by (auto simp: wakeups_ok_def)
  show "drained t" using st d(2,6)
    by (cases rule: stop_step_cases) (auto simp: drained_def workless_def wake_def)
  show "will_wake t"
  proof (cases "stopper s")
    case (StFinal i)
    have "0 < wakeups s v \<or> i \<le> v \<and> idling s v"
      if "v < n_threads s" "pcs s v \<in> {IdleHasTask, IdlePoll}" for v
      using that d(3) wk [of v] StFinal by (auto simp: will_wake_def)
    then have "0 < wakeups s v \<or> visits (stopper t) v"
      if "v < n_threads s" "pcs s v \<in> {IdleHasTask, IdlePoll}" for v
      using that st StFinal by (fastforce simp: stop_step_def le_less Suc_le_eq split: if_splits)
    moreover have "n_threads t = n_threads s \<and> pcs t = pcs s \<and> wakeups t = wakeups s"
      using st StFinal by (auto simp: stop_step_def)
    ultimately show ?thesis by (simp add: will_wake_def)
  qed (use d(3,6) st chk(2) in
    \<open>auto simp: stop_step_def will_wake_def wake_def Suc_le_eq le_less split: if_splits sum.splits\<close>)
  show "joins_ok t"
    using d(4,6) st
    by (cases "stopper s") (auto simp: stop_step_def joins_ok_def wake_def less_Suc_eq split: if_splits sum.splits)
  have "stop_work (n_threads s) (stopper t) < stop_work (n_threads s) (stopper s)"
    using stop_work_less [OF st _ wl d(5)] d(4) by (simp add: joins_ok_def)
  moreover have "n_threads t = n_threads s \<and> idle_term t = idle_term s \<and> pcs t = pcs s"
    using st d(6) by (cases rule: stop_step_cases) (auto simp: wake_def)
  ultimately show "shutdown_work t < shutdown_work s" by (simp add: shutdown_work_def)
qed

text \<open>
  A drained scheduler that is not down has a certain step: \<^verbatim>\<open>stop\<close> moves unless it joins a
  worker that has not left, and such a worker can move, because a wake-up is waiting for it if it
  sleeps.
\<close>

lemma shutdown_possible:
  assumes ok: "shutdown_ok n m s" and nd: "\<not> shutdown_done s"
  shows "\<exists>a. certain_act a \<and> shutdown_step s a \<noteq> None"
proof -
  note d = shutdown_okD [OF ok]
  have worker: "\<exists>a. certain_act a \<and> shutdown_step s a \<noteq> None" if "run_worker w c s \<noteq> None"
    "w < n_threads s" "certain_act (Worker w c)" for w c
    using that by (intro exI [of _ "Worker w c"]) (simp add: shutdown_step_def certain_act_def)
  show ?thesis
  proof (cases "stop_step s = None")
    case False
    then show ?thesis
      by (intro exI [of _ Stop]) (simp add: shutdown_step_def certain_act_def)
  next
    case True
    then obtain w where w: "stopper s = StJoin w" "w < n_threads s" "pcs s w \<noteq> RunExit"
      using nd d(4) by (cases "stopper s") (auto simp: stop_step_def shutdown_done_def joins_ok_def split: if_splits)
    have "drained_pc (pcs s w)" and wk: "pcs s w = IdlePoll \<Longrightarrow> 0 < wakeups s w"
      using d(2,3) w by (auto simp: drained_def will_wake_def)
    then show ?thesis
    proof (cases "pcs s w")
      case (RunSteal i)
      then show ?thesis
        by (intro worker [of w "Try True"]) (auto simp: run_worker_def w certain_act_def)
    next
      case IdlePoll
      then show ?thesis using wk
        by (intro worker [of w "Poll [EvWakeup]"]) (auto simp: run_worker_def idle_poll_def w certain_act_def)
    next
      case (IdleEvents evs)
      then show ?thesis using \<open>drained_pc (pcs s w)\<close> w
        by (intro worker [of w Go])
          (auto simp: run_worker_def idle_events_def certain_act_def split: list.split event.split)
    qed (use w worker [of w Go] in \<open>auto simp: run_worker_def certain_act_def on_go_def\<close>)
  qed
qed

lemma shutdown_ok_step:
  assumes ok: "shutdown_ok n m s" and st: "shutdown_step s a = Some t"
  shows "shutdown_ok n m t \<and> shutdown_work t < shutdown_work s"
proof -
  have a: "shutdown_act a" and sa: "sched_step s a = Some t"
    using st by (auto simp: shutdown_step_def split: if_splits)
  have inv: "sched_ok True n m t"
    using sa shutdown_okD(1) [OF ok] by (rule sched_ok_step [rotated])
  show ?thesis
  proof (cases a)
    case (Worker w c)
    with sa a have "run_worker w c s = Some t" "w < n" "shutdown_act (Worker w c)"
      using shutdown_okD(7) [OF ok] by (auto split: if_splits)
    from shutdown_worker [OF ok this(2,1,3)] inv show ?thesis by (simp add: shutdown_ok_def)
  next
    case (Submit c)
    with sa shutdown_okD(2) [OF ok] show ?thesis
      by (auto simp: drained_def workless_def submit_step_def split: if_splits)
  next
    case Stop
    with sa have "stop_step s = Some t" by simp
    from shutdown_stop [OF ok this] inv show ?thesis by (simp add: shutdown_ok_def)
  qed (use a in simp_all)
qed

interpretation shutdown: resting_machine shutdown_step "shutdown_ok n m" shutdown_work certain_act shutdown_done
  for n m
  by unfold_locales (use shutdown_ok_step shutdown_possible in blast)+

lemma last_pass_ok:
  assumes "sched_ok True n m s" "drained s" "last_pass_ahead (stopper s)"
  shows "shutdown_ok n m s"
proof -
  have "visits (stopper s) w \<and> \<not> joined (stopper s) w \<and> stopper s \<noteq> StIdle" for w
    using assms(3) by (cases "stopper s") auto
  then show ?thesis
    using assms by (simp add: shutdown_ok_def will_wake_def joins_ok_def)
qed

lemma shutdown_rests:
  assumes ok: "shutdown_ok n m s" and run: "exec_all sched_step s acts = Some t" "\<forall>a \<in> set acts. shutdown_act a"
  shows "length acts \<le> shutdown_work s \<and>
    (stopper t = StDone \<and> (\<forall>w<n. pcs t w = RunExit) \<or>
     (\<exists>a. certain_act a \<and> sched_step t a \<noteq> None))"
proof -
  note run' = exec_shutdown [OF run(2,1)]
  have "n_threads t = n" by (rule shutdown_okD(7) [OF shutdown.run_good [OF ok run']])
  with shutdown.run_rests [OF ok run'] show ?thesis
    by (auto simp: shutdown_done_def shutdown_step_def split: if_splits)
qed

section \<open>Properties\<close>

text \<open>
  C12: \<^verbatim>\<open>stop\<close> returns once the work is done. When the I/O manager is drained before
  \<^verbatim>\<open>stop\<close> makes its last pass, every run of the remaining threads, in whatever order they are
  scheduled and however often signals interrupt them, has a bounded number of steps, and it can
  always go on without the help of a signal until every worker has left and been joined.\<close>

theorem stop_completes:
  assumes "sched_reach True n m s" "0 < n" "drained s" "last_pass_ahead (stopper s)"
    and "exec_all sched_step s acts = Some t" "\<forall>a \<in> set acts. shutdown_act a"
  shows "length acts \<le> shutdown_work s \<and>
    (stopper t = StDone \<and> (\<forall>w<n. pcs t w = RunExit) \<or>
     (\<exists>a. certain_act a \<and> sched_step t a \<noteq> None))"
proof -
  have "sched_ok True n m s" by (rule sched_reach_ok [OF assms(1,2)])
  then have "shutdown_ok n m s" using assms(3,4) by (rule last_pass_ok)
  from shutdown_rests [OF this assms(5,6)] show ?thesis .
qed

text \<open>Two workers sleep in \<^verbatim>\<open>epoll_wait\<close> when \<^verbatim>\<open>stop\<close> is called.\<close>

definition sleep_trace :: "action list" where
  "sleep_trace = idle_in 0 2 @ replicate 3 (Worker 0 Go) @ idle_in 1 2 @ replicate 3 (Worker 1 Go) @ [Stop]"

definition sleep_state :: sched where
  "sleep_state = demo True 2 1 sleep_trace"

lemma sleep_trace_state:
  "map_option (\<lambda>s. (stopper s, stop_flag s, pending s, n_threads s, n_all s, map (pcs s) [0, 1],
       map (tasks s) [0, 1], map (subs s) [0, 1, 2], shutdown_work s))
     (exec_all sched_step (init_sched True 2 1) sleep_trace) =
   Some (StSweep 0, True, 0, 2, 3, [IdlePoll, IdlePoll], [[], []], [SubNone, SubNone, SubNone], 51)"
  by code_simp

definition wind_down :: "action list" where
  "wind_down = [Stop, Stop, Worker 0 (Poll [EvWakeup]), Worker 1 (Poll [])]"

lemma wind_down_state:
  "map_option (\<lambda>s. (stopper s, pcs s 0)) (exec_all sched_step sleep_state wind_down) =
   Some (StSweep 1, IdleWoken [EvWakeup])"
  by code_simp

lemma sleep_state:
  "sched_reach True 2 1 sleep_state" "drained sleep_state" "stopper sleep_state = StSweep 0"
  "shutdown_work sleep_state = 51"
proof -
  show "sched_reach True 2 1 sleep_state" unfolding sleep_state_def by (rule demo_reach)
  obtain s where s: "exec_all sched_step (init_sched True 2 1) sleep_trace = Some s"
    "stop_flag s" "pending s = 0" "n_threads s = 2" "n_all s = 3" "pcs s 0 = IdlePoll" "pcs s 1 = IdlePoll"
    "tasks s 0 = []" "tasks s 1 = []" "subs s 0 = SubNone" "subs s 1 = SubNone" "subs s 2 = SubNone"
    "stopper s = StSweep 0" "shutdown_work s = 51"
    using sleep_trace_state by auto
  have "sleep_state = s" using s(1) by (simp add: sleep_state_def demo_def)
  moreover have "drained s" using s by (auto simp: drained_def workless_def numeral_2_eq_2 numeral_3_eq_3 less_Suc_eq)
  ultimately show "drained sleep_state" "stopper sleep_state = StSweep 0" "shutdown_work sleep_state = 51"
    using s by simp_all
qed

theorem stop_completes_witness:
  "\<exists>t. exec_all sched_step sleep_state wind_down = Some t \<and> length wind_down \<le> 51 \<and>
    (\<exists>a. certain_act a \<and> sched_step t a \<noteq> None)"
proof -
  obtain t where t: "exec_all sched_step sleep_state wind_down = Some t" "stopper t = StSweep 1"
    using wind_down_state by auto
  have "\<forall>a \<in> set wind_down. shutdown_act a" by (simp add: wind_down_def)
  with stop_completes [OF sleep_state(1) _ sleep_state(2) _ t(1)] t sleep_state(3,4)
  show ?thesis by - (rule exI [of _ t], simp)
qed

end
