(* ===== verification/Koro_Stop_Loop.thy ===== *)
theory Koro_Stop_Loop
  imports Koro_Shutdown
begin

text \<open>
  What keeps \<^verbatim>\<open>stop\<close> in its loop and the workers at work. \<^verbatim>\<open>stopping\<close> looks at the stop
  flag, the count of active workers, the count of pending events and the queues, one after the other.
  As long as one of the looks says no, and no thread is past it already, nobody leaves.
\<close>

text \<open>A step of \<^verbatim>\<open>stop\<close> before the first has not set the flag.\<close>

definition unset_first :: "sched \<Rightarrow> bool" where
  "unset_first s \<longleftrightarrow> (stopper s = StIdle \<longrightarrow> \<not> stop_flag s)"

lemma unset_first_step:
  assumes "sched_step s a = Some t" "unset_first s"
  shows "unset_first t"
proof (cases a)
  case (Worker w c)
  with assms run_worker_frame [of w c s t] show ?thesis by (auto simp: unset_first_def split: if_splits)
next
  case (Submit c)
  with assms(1) have "submit_step c s = Some t" by (auto split: if_splits)
  then show ?thesis using assms(2)
    by (cases rule: submit_step_cases) (auto simp: machine_simps unset_first_def Let_def wake_def)
next
  case (BeginSubmit c u)
  with assms submit_begin_Some [of c u s t] show ?thesis by (auto simp: unset_first_def)
next
  case (SpawnSubmit c cb)
  with assms submit_spawn_Some [of c cb s t] show ?thesis by (auto simp: unset_first_def)
next
  case Stop
  with assms(1) have "stop_step s = Some t" by simp
  then show ?thesis using assms(2)
    by (cases "stopper s") (auto simp: stop_step_def unset_first_def split: if_splits sum.splits)
qed

interpretation unset: machine sched_step unset_first
  by unfold_locales (rule unset_first_step)

section \<open>A look that says no\<close>

text \<open>
  \<open>past\<close> marks the positions of \<^verbatim>\<open>stopping\<close> after a look; \<open>says_no\<close>: from the positions
  before it, \<^verbatim>\<open>stopping\<close> does not come past it in this state.
\<close>

definition says_no :: "(chk \<Rightarrow> bool) \<Rightarrow> sched \<Rightarrow> bool" where
  "says_no past s \<longleftrightarrow> (\<forall>c. \<not> past c \<longrightarrow>
     stopping_step s no_skip c \<noteq> Inr True \<and> (\<forall>d. stopping_step s no_skip c = Inl d \<longrightarrow> \<not> past d))"

lemma says_noD:
  assumes "says_no past s" "\<not> past c"
  shows "stopping_step s no_skip c \<noteq> Inr True" "stopping_step s no_skip c = Inl d \<Longrightarrow> \<not> past d"
  using assms unfolding says_no_def by blast+

text \<open>No worker is past the look, and \<^verbatim>\<open>stop\<close> is before it or in its loop.\<close>

fun worker_past :: "(chk \<Rightarrow> bool) \<Rightarrow> wpc \<Rightarrow> bool" where
  "worker_past past (IdleStop c) = past c"
| "worker_past past (IdleStop2 c) = past c"
| "worker_past past (BaseStop c) = past c"
| "worker_past past IdleQuit = True"
| "worker_past past p = False"

fun stop_before :: "(chk \<Rightarrow> bool) \<Rightarrow> stpc \<Rightarrow> bool" where
  "stop_before past StIdle = True"
| "stop_before past (StSweep i) = True"
| "stop_before past (StSweepWake i) = True"
| "stop_before past (StCheck c) = (\<not> past c)"
| "stop_before past p = False"

definition watchful :: "(chk \<Rightarrow> bool) \<Rightarrow> sched \<Rightarrow> bool" where
  "watchful past s \<longleftrightarrow> stop_before past (stopper s) \<and> (\<forall>w<n_threads s. \<not> worker_past past (pcs s w))"

lemma stop_before_loop: "stop_before past p \<Longrightarrow> p = StIdle \<or> last_pass_ahead p"
  by (cases p) auto

lemma watchful_worker:
  assumes "run_worker w c s = Some t" "says_no past s" "\<not> worker_past past (pcs s w)" "\<not> past ChkStop"
  shows "\<not> worker_past past (pcs t w) \<and> idle_term t = idle_term s"
  using assms(1)
  by (cases rule: run_worker_cases)
    (use assms(3,4) says_noD [OF assms(2)] in \<open>auto simp: machine_simps Let_def split: case_splits\<close>)

lemma watchful_step:
  assumes "sched_step s a = Some t" "says_no past s" "watchful past s" "unset_first s" "\<not> past ChkStop"
  shows "watchful past t \<and> idle_term t = idle_term s"
proof (cases a)
  case (Worker w c)
  with assms(1) have st: "run_worker w c s = Some t" and w: "w < n_threads s" by (auto split: if_splits)
  note f = run_worker_frame [OF st]
  have "\<not> worker_past past (pcs s w)" using assms(3) w by (simp add: watchful_def)
  note k = watchful_worker [OF st assms(2) this assms(5)]
  have "\<not> worker_past past (pcs t v)" if "v < n_threads s" for v
    using that k f assms(3) by (cases "v = w") (auto simp: watchful_def)
  with k f assms(3) show ?thesis by (simp add: watchful_def)
next
  case (Submit c)
  with assms(1) have "submit_step c s = Some t" by (auto split: if_splits)
  then show ?thesis using assms(3)
    by (cases rule: submit_step_cases) (auto simp: machine_simps watchful_def Let_def wake_def)
next
  case (BeginSubmit c u)
  with assms submit_begin_Some [of c u s t] show ?thesis by (auto simp: watchful_def)
next
  case (SpawnSubmit c cb)
  with assms submit_spawn_Some [of c cb s t] show ?thesis by (auto simp: watchful_def)
next
  case Stop
  with assms(1) have st: "stop_step s = Some t" by simp
  then have "idle_term t = idle_term s \<and> (\<forall>w<n_threads s. \<not> worker_past past (pcs t w)) \<and> n_threads t = n_threads s"
    using assms(3) by (cases rule: stop_step_cases) (auto simp: watchful_def wake_def goto_def)
  moreover have "stop_before past (stopper t)"
    using st assms(3-5) says_noD [OF assms(2)]
    by (cases "stopper s")
      (auto simp: stop_step_def watchful_def unset_first_def split: if_splits sum.splits)
  ultimately show ?thesis by (simp add: watchful_def)
qed

section \<open>While a worker is busy\<close>

fun past_active :: "chk \<Rightarrow> bool" where
  "past_active ChkStop = False"
| "past_active ChkActive = False"
| "past_active c = True"

lemma active_says_no: "active s \<noteq> 0 \<Longrightarrow> says_no past_active s"
  by (auto simp: says_no_def stopping_step_def split: if_splits chk.splits)

text \<open>The runs during which worker \<open>w\<close> is between counting itself active and the end of its task.\<close>

definition busy_step :: "nat \<Rightarrow> sched \<Rightarrow> action \<Rightarrow> sched option" where
  "busy_step w s a = (if w < n_threads s \<and> busy (pcs s w) then sched_step s a else None)"

lemma busy_active:
  assumes "sched_ok b n m s" "w < n" "busy (pcs s w)" "n < 2 ^ 64"
  shows "active s \<noteq> 0"
proof -
  have "active s = of_nat (busy_count n (pcs s))" using assms(1) by (simp add: sched_ok_def books_def shape_def)
  moreover have "0 < busy_count n (pcs s)" using assms(2,3) by (auto simp: busy_count_card card_gt_0_iff)
  moreover have "busy_count n (pcs s) < 2 ^ 64" using busy_count_le [of n "pcs s"] assms(4) by linarith
  ultimately show ?thesis by (simp add: word_of_nat_eq_0_iff nat_dvd_not_less)
qed

definition kept_busy :: "bool \<Rightarrow> nat \<Rightarrow> nat \<Rightarrow> (nat \<Rightarrow> bool) \<Rightarrow> sched \<Rightarrow> bool" where
  "kept_busy b n m q s \<longleftrightarrow> sched_ok b n m s \<and> unset_first s \<and> n < 2 ^ 64 \<and> watchful past_active s \<and> idle_term s = q"

lemma kept_busy_step:
  assumes "kept_busy b n m q s" "busy_step w s a = Some t"
  shows "kept_busy b n m q t"
proof -
  have s: "sched_ok b n m s" "unset_first s" "n < 2 ^ 64" "watchful past_active s" "idle_term s = q"
    using assms(1) by (simp_all add: kept_busy_def)
  have st: "sched_step s a = Some t" "w < n_threads s" "busy (pcs s w)"
    using assms(2) by (auto simp: busy_step_def split: if_splits)
  have "w < n" using st(2) s(1) by (simp add: sched_ok_def shape_def)
  from watchful_step [OF st(1) active_says_no [OF busy_active [OF s(1) this st(3) s(3)]] s(4,2)] s(3,5)
    sched_ok_step [OF s(1) st(1)] unset_first_step [OF st(1) s(2)]
  show ?thesis by (simp add: kept_busy_def)
qed

interpretation working: machine "busy_step w" "kept_busy b n m q" for w b n m q
  by unfold_locales (rule kept_busy_step)

lemma unset_reach: "sched_reach b n m s \<Longrightarrow> unset_first s"
proof (induction rule: sched_reach.induct)
  case (step s a t)
  then show ?case by (blast intro: unset.stp_good)
qed (simp add: init_sched_def unset_first_def)

section \<open>Properties\<close>

text \<open>
  C13: \<^verbatim>\<open>stop\<close> waits for the running fibers. From a state in which no thread is past the look at the
  count of active workers in \<^verbatim>\<open>stopping\<close>, and as long as a worker is busy with a task, whatever
  all threads do, \<^verbatim>\<open>stop\<close> does not leave its loop and no worker leaves. In particular a call of
  \<^verbatim>\<open>stop\<close> by the code of a fiber does not return, because the worker of that fiber stays active
  during the call.\<close>

theorem stop_waits_for_running:
  assumes "sched_reach b n m s" "0 < n" "n < 2 ^ 64" "watchful past_active s"
    and "exec_all (busy_step w) s acts = Some t"
  shows "(stopper t = StIdle \<or> last_pass_ahead (stopper t)) \<and>
    (\<forall>v. \<not> idle_term s v \<longrightarrow> \<not> idle_term t v \<and> pcs t v \<noteq> RunExit)"
proof -
  have "kept_busy b n m (idle_term s) s"
    using sched_reach_ok [OF assms(1,2)] unset_reach [OF assms(1)] assms(3,4) by (simp add: kept_busy_def)
  from working.run_good [OF this assms(5)]
  have t: "sched_ok b n m t" "watchful past_active t" "idle_term t = idle_term s" by (simp_all add: kept_busy_def)
  then have "exits_ok t" by (simp add: sched_ok_def)
  with t show ?thesis using stop_before_loop by (auto simp: watchful_def exits_ok_def)
qed

text \<open>The only worker runs a fiber while \<^verbatim>\<open>stop\<close> goes round.\<close>

definition stop_round :: "action list" where
  "stop_round = replicate 4 Stop @ [Worker 0 UserYield, Stop]"

lemma stop_round_state:
  "map_option (\<lambda>s. (stopper s, idle_term s 0, n_threads s, pcs s 0)) (exec_all sched_step (init_sched True 1 1) run_trace) =
   Some (StIdle, False, 1, RunBody (task_of_fiber 0) 0)"
  "map_option (\<lambda>s. stopper s) (exec_all (busy_step 0) run_state stop_round) = Some (StSweep 0)"
  by code_simp+

theorem stop_waits_for_running_witness:
  "\<exists>t. exec_all (busy_step 0) run_state stop_round = Some t \<and> stopper t = StSweep 0 \<and> \<not> idle_term t 0 \<and>
     pcs t 0 \<noteq> RunExit"
proof -
  obtain s where s: "exec_all sched_step (init_sched True 1 1) run_trace = Some s" "stopper s = StIdle" "\<not> idle_term s 0"
    "n_threads s = 1" "pcs s 0 = RunBody (task_of_fiber 0) 0"
    using stop_round_state(1) by auto
  have "run_state = s" using s(1) by (simp add: run_state_def demo_def)
  with s have r: "watchful past_active run_state" "\<not> idle_term run_state 0" by (simp_all add: watchful_def)
  obtain t where t: "exec_all (busy_step 0) run_state stop_round = Some t" "stopper t = StSweep 0"
    using stop_round_state(2) by auto
  from stop_waits_for_running [OF run_state_reach _ _ r(1) t(1)] r(2) t show ?thesis by (intro exI [of _ t]) simp
qed

end
