(* ===== verification/Koro_Plain_Shutdown.thy ===== *)
theory Koro_Plain_Shutdown
  imports Koro_Shutdown
begin

text \<open>
  The end of the plain scheduler, whose workers wait on a condition variable in
  \<^verbatim>\<open>Scheduler::idle\<close>. A notification reaches a worker only if it sleeps: between setting
  \<^verbatim>\<open>idling\<close> and the wait it is lost. So \<^verbatim>\<open>stop\<close> returns once the work is done, provided
  that its last pass finds no worker on its way to sleep, and a run shows that it may hang otherwise.
\<close>

section \<open>The workers of a scheduler without work\<close>

fun plain_pc :: "wpc \<Rightarrow> bool" where
  "plain_pc RunTop = True"
| "plain_pc (RunSteal i) = True"
| "plain_pc RunNoTask = True"
| "plain_pc RunExit = True"
| "plain_pc BaseTop = True"
| "plain_pc BaseLock = True"
| "plain_pc BaseSleep = True"
| "plain_pc BaseWake = True"
| "plain_pc (BaseStop c) = True"
| "plain_pc _ = False"

definition plain_drained :: "sched \<Rightarrow> bool" where
  "plain_drained s \<longleftrightarrow> workless s \<and> (\<forall>w<n_threads s. plain_pc (pcs s w))"

text \<open>
  A worker on its way to sleep: it looks for a task and will find none, or it is before the wait.
  \<open>b\<close>: its idle fiber has terminated.
\<close>

fun falling_asleep :: "bool \<Rightarrow> wpc \<Rightarrow> bool" where
  "falling_asleep b RunTop = (\<not> b)"
| "falling_asleep b (RunSteal i) = (\<not> b)"
| "falling_asleep b RunNoTask = (\<not> b)"
| "falling_asleep b BaseTop = True"
| "falling_asleep b BaseLock = True"
| "falling_asleep b _ = False"

definition at_risk :: "sched \<Rightarrow> nat \<Rightarrow> bool" where
  "at_risk s w \<longleftrightarrow> falling_asleep (idle_term s w) (pcs s w) \<or> pcs s w = BaseSleep"

text \<open>
  The assumption on time: the last pass of \<^verbatim>\<open>stop\<close> does not look at a worker, or notify it,
  while it is falling asleep. The pass comes after a pause of 100 milliseconds.
\<close>

fun last_pass_at :: "stpc \<Rightarrow> nat option" where
  "last_pass_at (StFinal i) = Some i"
| "last_pass_at (StFinalWake i) = Some i"
| "last_pass_at p = None"

definition timely :: "sched \<Rightarrow> action \<Rightarrow> bool" where
  "timely s a \<longleftrightarrow> a = Stop \<longrightarrow>
     (case last_pass_at (stopper s) of
        None \<Rightarrow> True
      | Some i \<Rightarrow> i < n_threads s \<longrightarrow> \<not> falling_asleep (idle_term s i) (pcs s i))"

definition timely_step :: "sched \<Rightarrow> action \<Rightarrow> sched option" where
  "timely_step s a = (if timely s a then shutdown_step s a else None)"

text \<open>No spurious wake-up is needed.\<close>

definition plain_certain :: "action \<Rightarrow> bool" where
  "plain_certain a \<longleftrightarrow> shutdown_act a \<and> (\<forall>w. a \<noteq> Worker w Spurious)"

section \<open>The work that is left\<close>

fun plain_work :: "nat \<Rightarrow> bool \<Rightarrow> wpc \<Rightarrow> nat" where
  "plain_work n b RunExit = 0"
| "plain_work n b RunNoTask = (if b then 1 else 2 * n + 13)"
| "plain_work n b (RunSteal i) = (if b then 1 else 2 * n + 13) + Suc (n - i)"
| "plain_work n b RunTop = (if b then 1 else 2 * n + 13) + n + 2"
| "plain_work n b (BaseStop c) = n + 4 + chk_work n c"
| "plain_work n b BaseWake = 2 * n + 9"
| "plain_work n b BaseSleep = 2 * n + 10"
| "plain_work n b BaseLock = 2 * n + 11"
| "plain_work n b BaseTop = 2 * n + 12"
| "plain_work n b _ = 0"

definition plain_left :: "sched \<Rightarrow> nat" where
  "plain_left s = stop_work (n_threads s) (stopper s) +
     (\<Sum>w<n_threads s. plain_work (n_threads s) (idle_term s w) (pcs s w))"

section \<open>The flag of a worker that sleeps\<close>

definition sleepers_idle :: "sched \<Rightarrow> bool" where
  "sleepers_idle s \<longleftrightarrow> (\<forall>w. pcs s w \<in> {BaseLock, BaseSleep} \<longrightarrow> idling s w)"

lemma sleepers_idle_worker:
  assumes "run_worker w c s = Some t" "sleepers_idle s"
  shows "sleepers_idle t"
  using assms
  by (cases rule: run_worker_cases)
    (auto simp: machine_simps sleepers_idle_def Let_def split: case_splits)

lemma sleepers_idle_step:
  assumes "sched_step s a = Some t" "sleepers_idle s"
  shows "sleepers_idle t"
proof (cases a)
  case (Worker w c)
  with assms sleepers_idle_worker show ?thesis by (auto split: if_splits)
next
  case (Submit c)
  with assms(1) have "submit_step c s = Some t" by (auto split: if_splits)
  then show ?thesis using assms(2)
    by (cases rule: submit_step_cases) (auto simp: machine_simps sleepers_idle_def Let_def wake_def)
next
  case (BeginSubmit c u)
  with assms submit_begin_Some [of c u s t] show ?thesis by (auto simp: sleepers_idle_def)
next
  case (SpawnSubmit c cb)
  with assms submit_spawn_Some [of c cb s t] show ?thesis by (auto simp: sleepers_idle_def)
next
  case Stop
  with assms(1) have "stop_step s = Some t" by simp
  then show ?thesis using assms(2)
    by (cases rule: stop_step_cases) (auto simp: sleepers_idle_def wake_def goto_def)
qed

interpretation sleepers: machine sched_step sleepers_idle
  by unfold_locales (rule sleepers_idle_step)

lemma sleepers_reach: "sched_reach b n m s \<Longrightarrow> sleepers_idle s"
proof (induction rule: sched_reach.induct)
  case (step s a t)
  then show ?case by (blast intro: sleepers.stp_good)
qed (simp add: init_sched_def sleepers_idle_def)

section \<open>Steps of a scheduler without work\<close>

text \<open>Who can still sleep when its notification is due is yet to be visited.\<close>

definition plain_ok :: "nat \<Rightarrow> nat \<Rightarrow> sched \<Rightarrow> bool" where
  "plain_ok n m s \<longleftrightarrow> sched_ok False n m s \<and> sleepers_idle s \<and> plain_drained s \<and> joins_ok s \<and>
     (\<forall>w<n_threads s. at_risk s w \<longrightarrow> visits (stopper s) w)"

lemma plain_not_busy: "plain_pc p \<Longrightarrow> \<not> busy p"
  by (cases p) auto

lemma plain_okD:
  assumes "plain_ok n m s"
  shows "sched_ok False n m s" "workless s" "joins_ok s" "active s = 0" "\<not> io s" "n_threads s = n"
    "w < n \<Longrightarrow> plain_pc (pcs s w)" "w < n \<Longrightarrow> at_risk s w \<Longrightarrow> visits (stopper s) w"
    "pcs s w = BaseSleep \<Longrightarrow> idling s w" "sleepers_idle s"
proof -
  show ok: "sched_ok False n m s" and "workless s" "joins_ok s" "sleepers_idle s"
    and "pcs s w = BaseSleep \<Longrightarrow> idling s w"
    using assms by (simp_all add: plain_ok_def plain_drained_def sleepers_idle_def)
  show "\<not> io s" and n: "n_threads s = n" using ok by (simp_all add: sched_ok_def shape_def)
  show "w < n \<Longrightarrow> plain_pc (pcs s w)" "w < n \<Longrightarrow> at_risk s w \<Longrightarrow> visits (stopper s) w"
    using assms n by (simp_all add: plain_ok_def plain_drained_def)
  show "active s = 0"
    using assms plain_not_busy by (intro idle_active [OF ok]) (auto simp: plain_ok_def plain_drained_def)
qed

text \<open>A worker's step: less to do, and no worker comes to be at risk.\<close>

lemma plain_worker:
  assumes "run_worker w c s = Some t" "plain_ok n m s" "w < n"
  shows "plain_pc (pcs t w)" "workless t" "at_risk t w \<Longrightarrow> at_risk s w"
    "plain_work n (idle_term t w) (pcs t w) < plain_work n (idle_term s w) (pcs s w)"
    "pcs s w \<noteq> RunExit" "\<And>v. v \<noteq> w \<Longrightarrow> idle_term t v = idle_term s v"
proof -
  note d = plain_okD [OF assms(2)]
  have w: "w < n_threads s" using assms(3) d(6) by simp
  have q: "tasks s w = []" using d(2) w by (simp add: workless_def)
  note st = workless_steal [OF d(2) w] and chk = workless_chk [OF d(2,4)]
  have "plain_pc (pcs t w) \<and> tasks t = tasks s \<and> pending t = pending s \<and> (at_risk t w \<longrightarrow> at_risk s w) \<and>
    plain_work n (idle_term t w) (pcs t w) < plain_work n (idle_term s w) (pcs s w) \<and> pcs s w \<noteq> RunExit \<and>
    (\<forall>v. v \<noteq> w \<longrightarrow> idle_term t v = idle_term s v)"
    using assms(1) d(5) d(7) [OF assms(3)] chk_work_pos [of n]
    by (cases rule: run_worker_cases)
      (auto simp: machine_simps q st [unfolded d(6)] d(6) chk [unfolded d(6)] at_risk_def split: if_splits list.splits sum.splits)
  with run_worker_frame [OF assms(1)] d(2) show "plain_pc (pcs t w)" "workless t" "at_risk t w \<Longrightarrow> at_risk s w"
    "plain_work n (idle_term t w) (pcs t w) < plain_work n (idle_term s w) (pcs s w)"
    "pcs s w \<noteq> RunExit" "\<And>v. v \<noteq> w \<Longrightarrow> idle_term t v = idle_term s v"
    by (auto simp: workless_def)
qed

lemma plain_ok_worker:
  assumes ok: "plain_ok n m s" and w: "w < n" and st: "sched_step s (Worker w c) = Some t"
  shows "plain_ok n m t \<and> plain_left t < plain_left s"
proof -
  note d = plain_okD [OF ok]
  have run: "run_worker w c s = Some t" and wn: "w < n_threads s" using st w d(6) by (auto split: if_splits)
  note k = plain_worker [OF run ok w] and f = run_worker_frame [OF run]
  have n: "n_threads t = n" using f d(6) by simp
  have pc: "pcs t v = pcs s v \<and> idle_term t v = idle_term s v" if "v \<noteq> w" for v using f k(6) that by blast
  have "plain_drained t" using k(1,2) pc d(7) n unfolding plain_drained_def by metis
  moreover have "joins_ok t"
    using d(3,6) k(5) f pc n unfolding joins_ok_def by (metis (no_types, lifting))
  moreover have "at_risk t v \<longrightarrow> visits (stopper t) v" if "v < n" for v
    using k(3) pc [of v] d(8) [OF that] f by (cases "v = w") (auto simp: at_risk_def)
  ultimately have "plain_ok n m t"
    using sched_ok_step [OF d(1) st] sleepers_idle_step [OF st d(10)] n by (simp add: plain_ok_def)
  moreover have "(\<Sum>v<n_threads s. plain_work n (idle_term t v) (pcs t v)) <
      (\<Sum>v<n_threads s. plain_work n (idle_term s v) (pcs s v))"
    by (rule sum_one_less [OF wn]) (use k(4) pc in auto)
  ultimately show ?thesis using f d(6) by (simp add: plain_left_def)
qed

text \<open>
  A step of \<^verbatim>\<open>stop\<close>. A worker that it notifies has less to do; one that it passes in its last
  pass is not at risk.
\<close>

lemma plain_visits:
  assumes ok: "plain_ok n m s" and st: "stop_step s = Some t" and tm: "timely s Stop"
    and w: "w < n" "at_risk t w"
  shows "visits (stopper t) w"
proof -
  note d = plain_okD [OF ok]
  have same: "at_risk s w"
    using st w(2) by (cases rule: stop_step_cases) (auto simp: at_risk_def wake_def goto_def split: if_splits)
  note vis = d(8) [OF w(1) same]
  have stays: "pcs t w = BaseSleep \<Longrightarrow> pcs s w = BaseSleep"
    "stopper s = StFinalWake w \<Longrightarrow> pcs t w \<noteq> BaseSleep"
    "idle_term t w = idle_term s w" "falling_asleep (idle_term s w) (pcs t w) \<Longrightarrow> falling_asleep (idle_term s w) (pcs s w)"
    using st d(5) by (cases "stopper s"; auto simp: stop_step_def wake_def goto_def split: if_splits)+
  have up: "\<not> falling_asleep (idle_term s w) (pcs s w)" if "stopper s = StFinal w \<or> stopper s = StFinalWake w"
    using tm that w(1) d(6) by (auto simp: timely_def)
  show ?thesis
  proof (cases "stopper s")
    case (StFinal i)
    show ?thesis
    proof (cases "i = w")
      case True
      with up StFinal have "\<not> falling_asleep (idle_term s w) (pcs s w)" by blast
      with same have "idling s w" using d(9) by (auto simp: at_risk_def)
      with True st StFinal w(1) d(6) show ?thesis by (auto simp: stop_step_def)
    next
      case False
      with vis st StFinal w(1) d(6) show ?thesis by (auto simp: stop_step_def split: if_splits)
    qed
  next
    case (StFinalWake i)
    have "i \<noteq> w"
    proof
      assume "i = w"
      with up stays StFinalWake w(2) show False by (auto simp: at_risk_def)
    qed
    with vis st StFinalWake show ?thesis by (auto simp: stop_step_def)
  next
    case (StCheck c)
    with st workless_chk(2) [OF d(2,4), of c] show ?thesis
      by (auto simp: stop_step_def split: sum.splits)
  qed (use vis st in \<open>auto simp: stop_step_def split: if_splits\<close>)
qed

lemma plain_ok_stop:
  assumes ok: "plain_ok n m s" and st: "stop_step s = Some t" and tm: "timely s Stop"
  shows "plain_ok n m t \<and> plain_left t < plain_left s"
proof -
  note d = plain_okD [OF ok]
  have ss: "sched_step s Stop = Some t" using st by simp
  have fr: "n_threads t = n" "idle_term t = idle_term s" "workless t"
    using st d(2,6) by (cases rule: stop_step_cases; auto simp: wake_def goto_def workless_def)+
  have pcs: "pcs t w = pcs s w \<or> pcs s w = BaseSleep \<and> pcs t w = BaseWake" for w
    using st by (cases rule: stop_step_cases) (auto simp: wake_def goto_def)
  have "plain_drained t"
    using fr d(6,7) pcs unfolding plain_drained_def by (metis plain_pc.simps(8))
  moreover have "joins_ok t"
    using d(3,5) st
    by (cases "stopper s") (auto simp: stop_step_def joins_ok_def wake_def goto_def less_Suc_eq split: if_splits sum.splits)
  moreover have "\<forall>w<n. at_risk t w \<longrightarrow> visits (stopper t) w" using plain_visits [OF ok st tm] by blast
  ultimately have "plain_ok n m t"
    using sched_ok_step [OF d(1) ss] sleepers_idle_step [OF ss d(10)] fr(1) by (simp add: plain_ok_def)
  moreover have "plain_work n b (pcs t w) \<le> plain_work n b (pcs s w)" for w b
    using pcs [of w] by auto
  then have "(\<Sum>w<n. plain_work n (idle_term t w) (pcs t w)) \<le> (\<Sum>w<n. plain_work n (idle_term s w) (pcs s w))"
    by (intro sum_mono) (simp add: fr(2))
  moreover have "stop_work n (stopper t) < stop_work n (stopper s)"
    using stop_work_less [OF st _ d(2,4)] d(3,6) by (simp add: joins_ok_def)
  ultimately show ?thesis using fr(1) d(6) by (simp add: plain_left_def)
qed

lemma plain_ok_step:
  assumes ok: "plain_ok n m s" and st: "timely_step s a = Some t"
  shows "plain_ok n m t \<and> plain_left t < plain_left s"
proof -
  note d = plain_okD [OF ok]
  have tm: "timely s a" "shutdown_act a" "sched_step s a = Some t"
    using st by (auto simp: timely_step_def shutdown_step_def split: if_splits)
  show ?thesis
  proof (cases a)
    case (Worker w c)
    with tm d(6) plain_ok_worker [OF ok, of w c t] show ?thesis by (auto split: if_splits)
  next
    case (Submit c)
    with tm(3) d(2) show ?thesis by (auto simp: workless_def submit_step_def split: if_splits)
  next
    case Stop
    with tm plain_ok_stop [OF ok] show ?thesis by simp
  qed (use tm(2) in simp_all)
qed

text \<open>
  A thread can always go on: \<^verbatim>\<open>stop\<close>, unless it joins a worker or a worker it comes to is
  falling asleep; and then that worker, which is not asleep.
\<close>

lemma plain_worker_moves:
  assumes "plain_ok n m s" "w < n" "pcs s w \<noteq> RunExit" "pcs s w \<noteq> BaseSleep"
  shows "\<exists>a. plain_certain a \<and> timely_step s a \<noteq> None"
proof -
  note d = plain_okD [OF assms(1)]
  have moves: "\<exists>a. plain_certain a \<and> timely_step s a \<noteq> None"
    if "run_worker w c s \<noteq> None" "plain_certain (Worker w c)" for c
    using that assms(2) d(6)
    by (intro exI [of _ "Worker w c"])
      (simp add: timely_step_def shutdown_step_def timely_def plain_certain_def)
  show ?thesis
  proof (cases "pcs s w")
    case (RunSteal i)
    then show ?thesis by (intro moves [of "Try True"]) (auto simp: run_worker_def plain_certain_def)
  qed (use assms(3,4) d(7) [OF assms(2)] moves [of Go] in \<open>auto simp: run_worker_def plain_certain_def\<close>)
qed

lemma plain_possible:
  assumes ok: "plain_ok n m s" and nd: "\<not> shutdown_done s"
  shows "\<exists>a. plain_certain a \<and> timely_step s a \<noteq> None"
proof -
  note d = plain_okD [OF ok]
  show ?thesis
  proof (cases "stop_step s = None")
    case True
    then obtain w where w: "stopper s = StJoin w" "w < n" "pcs s w \<noteq> RunExit"
      using nd d(3,6) by (cases "stopper s") (auto simp: stop_step_def shutdown_done_def joins_ok_def split: if_splits)
    then have "pcs s w \<noteq> BaseSleep" using d(8) [OF w(2)] by (auto simp: at_risk_def)
    with plain_worker_moves [OF ok w(2,3)] show ?thesis by blast
  next
    case False
    show ?thesis
    proof (cases "timely s Stop")
      case True
      with False show ?thesis
        by (intro exI [of _ Stop]) (simp add: timely_step_def shutdown_step_def plain_certain_def)
    next
      case False
      then obtain i where i: "i < n" "falling_asleep (idle_term s i) (pcs s i)"
        using d(6) by (auto simp: timely_def split: option.splits)
      then have "pcs s i \<noteq> RunExit" "pcs s i \<noteq> BaseSleep" by auto
      with plain_worker_moves [OF ok i(1)] show ?thesis by blast
    qed
  qed
qed

interpretation plain_shutdown: resting_machine timely_step "plain_ok n m" plain_left plain_certain shutdown_done
  for n m
  by unfold_locales (use plain_ok_step plain_possible in blast)+

lemma plain_last_pass_ok:
  assumes "sched_reach False n m s" "0 < n" "plain_drained s" "last_pass_ahead (stopper s)"
  shows "plain_ok n m s"
proof -
  have "visits (stopper s) w \<and> \<not> joined (stopper s) w \<and> stopper s \<noteq> StIdle" for w
    using assms(4) by (cases "stopper s") auto
  then show ?thesis
    using assms sched_reach_ok [OF assms(1,2)] sleepers_reach [OF assms(1)] by (simp add: plain_ok_def joins_ok_def)
qed

section \<open>Properties\<close>

text \<open>
  C16: \<^verbatim>\<open>stop\<close> of the plain scheduler returns once the work is done, if it does not come too early.
  When the scheduler is drained before \<^verbatim>\<open>stop\<close> makes its last pass, and that pass finds no
  worker falling asleep, every run has a bounded number of steps, and it can always go on without a
  spurious wake-up until every worker has left and been joined.\<close>

theorem plain_stop_completes:
  assumes "sched_reach False n m s" "0 < n" "plain_drained s" "last_pass_ahead (stopper s)"
    and "exec_all timely_step s acts = Some t"
  shows "length acts \<le> plain_left s \<and>
    (stopper t = StDone \<and> (\<forall>w<n. pcs t w = RunExit) \<or>
     (\<exists>a. plain_certain a \<and> timely_step t a \<noteq> None))"
proof -
  have ok: "plain_ok n m s" by (rule plain_last_pass_ok [OF assms(1-4)])
  have "n_threads t = n" by (rule plain_okD(6) [OF plain_shutdown.run_good [OF ok assms(5)]])
  with plain_shutdown.run_rests [OF ok assms(5)] show ?thesis by (auto simp: shutdown_done_def)
qed

text \<open>
  Two workers, one of them asleep and one on its way, when \<^verbatim>\<open>stop\<close> is called. Then
  \<^verbatim>\<open>stop\<close> notifies the first one, and the second one after it has fallen asleep.
\<close>

definition plain_sleep_trace :: "action list" where
  "plain_sleep_trace = idle_in 0 2 @ replicate 2 (Worker 0 Go) @ idle_in 1 2 @ [Worker 1 Go, Stop]"

definition plain_sleep_state :: sched where
  "plain_sleep_state = demo False 2 1 plain_sleep_trace"

definition plain_wind_down :: "action list" where
  "plain_wind_down = [Stop, Stop, Stop, Worker 1 Go, Stop, Worker 0 Go]"

lemma plain_sleep_trace_state:
  "map_option (\<lambda>s. (stopper s, stop_flag s, pending s, n_threads s, n_all s, map (pcs s) [0, 1],
       map (tasks s) [0, 1], map (subs s) [0, 1, 2], plain_left s))
     (exec_all sched_step (init_sched False 2 1) plain_sleep_trace) =
   Some (StSweep 0, True, 0, 2, 3, [BaseSleep, BaseLock], [[], []], [SubNone, SubNone, SubNone], 48)"
  by code_simp

lemma plain_sleep_state:
  "sched_reach False 2 1 plain_sleep_state" "plain_drained plain_sleep_state"
  "stopper plain_sleep_state = StSweep 0" "plain_left plain_sleep_state = 48"
  "exec_all sched_step (init_sched False 2 1) plain_sleep_trace = Some plain_sleep_state"
proof -
  show "sched_reach False 2 1 plain_sleep_state" unfolding plain_sleep_state_def by (rule demo_reach)
  obtain s where s: "exec_all sched_step (init_sched False 2 1) plain_sleep_trace = Some s"
    "stop_flag s" "pending s = 0" "n_threads s = 2" "n_all s = 3" "pcs s 0 = BaseSleep" "pcs s 1 = BaseLock"
    "tasks s 0 = []" "tasks s 1 = []" "subs s 0 = SubNone" "subs s 1 = SubNone" "subs s 2 = SubNone"
    "stopper s = StSweep 0" "plain_left s = 48"
    using plain_sleep_trace_state by auto
  have e: "plain_sleep_state = s" using s(1) by (simp add: plain_sleep_state_def demo_def)
  have "plain_drained s"
    using s by (auto simp: plain_drained_def workless_def numeral_2_eq_2 numeral_3_eq_3 less_Suc_eq)
  then show "plain_drained plain_sleep_state" "stopper plain_sleep_state = StSweep 0" "plain_left plain_sleep_state = 48"
    "exec_all sched_step (init_sched False 2 1) plain_sleep_trace = Some plain_sleep_state"
    using s e by simp_all
qed

lemma plain_wind_down_state:
  "map_option (\<lambda>s. (stopper s, pcs s 0, pcs s 1)) (exec_all timely_step plain_sleep_state plain_wind_down) =
   Some (StSweep 2, BaseStop ChkStop, BaseWake)"
  by code_simp

theorem plain_stop_completes_witness:
  "\<exists>t. exec_all timely_step plain_sleep_state plain_wind_down = Some t \<and> length plain_wind_down \<le> 48 \<and>
    (\<exists>a. plain_certain a \<and> timely_step t a \<noteq> None)"
proof -
  obtain t where t: "exec_all timely_step plain_sleep_state plain_wind_down = Some t" "stopper t = StSweep 2"
    using plain_wind_down_state by auto
  from plain_stop_completes [OF plain_sleep_state(1) _ plain_sleep_state(2) _ t(1)] t(2) plain_sleep_state(3,4)
  show ?thesis by (intro exI [of _ t]) (auto simp: t(1))
qed

text \<open>
  One worker, which sets \<^verbatim>\<open>idling\<close> and is delayed before its wait until \<^verbatim>\<open>stop\<close> has made
  its last pass.
\<close>

definition plain_hang_trace :: "action list" where
  "plain_hang_trace = idle_in 0 1 @ [Worker 0 Go] @ replicate 12 Stop @ [Worker 0 Go]"

lemma plain_hang_trace_state:
  "map_option (\<lambda>s. (stopper s, pcs s 0, subs s 0, subs s 1, born s = {#}))
     (exec_all sched_step (init_sched False 1 1) plain_hang_trace) =
   Some (StJoin 0, BaseSleep, SubNone, SubNone, True)"
  by code_simp

text \<open>
  Without the assumption on time \<^verbatim>\<open>stop\<close> can hang although there never was a task: in a
  reachable state it joins a worker that sleeps on its condition variable, and nothing but a
  spurious wake-up or a new call of \<^verbatim>\<open>submit\<close> can happen.\<close>

theorem plain_stop_can_hang:
  "\<exists>s. sched_reach False 1 1 s \<and> born s = {#} \<and> stopper s = StJoin 0 \<and> pcs s 0 = BaseSleep \<and>
     \<not> (\<exists>a. internal a \<and> a \<noteq> Worker 0 Spurious \<and> sched_step s a \<noteq> None)"
proof -
  obtain s where s: "exec_all sched_step (init_sched False 1 1) plain_hang_trace = Some s"
    and v: "stopper s = StJoin 0" "pcs s 0 = BaseSleep" "subs s 0 = SubNone" "subs s 1 = SubNone" "born s = {#}"
    using plain_hang_trace_state by auto
  have reach: "sched_reach False 1 1 s" using s by (rule exec_all_init_reach)
  have sh: "n_threads s = 1" "n_all s = 2"
    using sched_reach_ok [OF reach] by (simp_all add: sched_ok_def shape_def)
  have "sched_step s a = None" if "internal a" "a \<noteq> Worker 0 Spurious" for a
  proof (cases a)
    case (Worker w c)
    with that(2) show ?thesis by (auto simp: sh run_worker_def v(2))
  next
    case (Submit c)
    then show ?thesis using v by (auto simp: sh submit_step_def numeral_2_eq_2 less_Suc_eq)
  qed (use that(1) in \<open>simp_all add: stop_step_def v(1,2) sh\<close>)
  then have none: "\<not> (\<exists>a. internal a \<and> a \<noteq> Worker 0 Spurious \<and> sched_step s a \<noteq> None)" by metis
  show ?thesis by (intro exI [of _ s] conjI reach v none)
qed

end
