(* ===== verification/Koro_Progress.thy ===== *)
theory Koro_Progress
  imports Koro_Shutdown
begin

text \<open>
  Progress of the I/O manager: a task that waits in the queue of a worker that is not busy is taken
  within a bounded number of the worker's own steps, unless another worker takes it first. This puts
  a number on the promise of \<^verbatim>\<open>submit\<close> and \<^verbatim>\<open>tickle\<close>.
\<close>

section \<open>Waiting for a worker\<close>

text \<open>The worker has a task in its queue and none in its hands.\<close>

definition unserved :: "nat \<Rightarrow> sched \<Rightarrow> bool" where
  "unserved w s \<longleftrightarrow> tasks s w \<noteq> [] \<and> hand (pcs s w) = {#} \<and> \<not> busy (pcs s w)"

text \<open>
  A poll reports at most \<open>k\<close> events, the size of the poller's buffer, and what its handlers push
  are callbacks, as \<^verbatim>\<open>Channel::triggerEvent\<close> and \<^verbatim>\<open>TimerManager::triggerTimer\<close> do.
\<close>

fun callback_event :: "event \<Rightarrow> bool" where
  "callback_event EvWakeup = True"
| "callback_event (EvTask t) = (st_fiber t = None)"

fun callback_pc :: "wpc \<Rightarrow> bool" where
  "callback_pc (IdleWoken evs) = list_all callback_event evs"
| "callback_pc (IdleEvents evs) = list_all callback_event evs"
| "callback_pc p = True"

fun proper_act :: "nat \<Rightarrow> action \<Rightarrow> bool" where
  "proper_act k (Worker w (Poll evs)) = (length evs \<le> k \<and> list_all callback_event evs)"
| "proper_act k a = True"

fun own_act :: "nat \<Rightarrow> action \<Rightarrow> bool" where
  "own_act w (Worker v c) = (v = w)"
| "own_act w a = False"

definition unserved_step :: "nat \<Rightarrow> nat \<Rightarrow> sched \<Rightarrow> action \<Rightarrow> sched option" where
  "unserved_step k w s a = (if unserved w s \<and> proper_act k a then sched_step s a else None)"

text \<open>How many steps of its own an idle worker can make before it takes a task.\<close>

fun idle_work :: "nat \<Rightarrow> nat \<Rightarrow> wpc \<Rightarrow> nat" where
  "idle_work n k RunTop = 1"
| "idle_work n k IdleLeave = 2"
| "idle_work n k IdleQuit = 2"
| "idle_work n k IdleHasTask = 3"
| "idle_work n k (IdleStop2 c) = 1 + chk_work n c"
| "idle_work n k (IdleStop c) = 3 + chk_work n c"
| "idle_work n k IdleTop = n + 8"
| "idle_work n k RunNoTask = n + 9"
| "idle_work n k (RunSteal i) = n + 10 + Suc (n - i)"
| "idle_work n k (IdleEvents evs) = n + 6 + length evs"
| "idle_work n k (IdleWoken evs) = n + 7 + length evs"
| "idle_work n k IdlePoll = n + 8 + k"
| "idle_work n k _ = 0"

fun reported :: "wpc \<Rightarrow> nat" where
  "reported (IdleWoken evs) = length evs"
| "reported (IdleEvents evs) = length evs"
| "reported p = 0"

lemma chk_work_le: "chk_work n c \<le> n + 4"
  by (cases c) auto

lemma idle_work_le: "idle_work n k p \<le> 2 * n + k + 11 + reported p"
proof (cases p)
  case (IdleStop c)
  then show ?thesis using chk_work_le [of n c] by simp
next
  case (IdleStop2 c)
  then show ?thesis using chk_work_le [of n c] by simp
qed simp_all

section \<open>The pace of a worker\<close>

fun base_pc :: "wpc \<Rightarrow> bool" where
  "base_pc BaseTop = True"
| "base_pc BaseLock = True"
| "base_pc BaseSleep = True"
| "base_pc BaseWake = True"
| "base_pc (BaseStop c) = True"
| "base_pc p = False"

lemma check_moves: "stopping_step s j c = Inl d \<Longrightarrow> chk_work (n_threads s) d < chk_work (n_threads s) c"
  by (cases c) (auto simp: stopping_step_def split: if_splits)

lemma other_keeps_pc:
  assumes "sched_step s a = Some t" "io s" "\<not> own_act w a"
  shows "pcs t w = pcs s w \<and> n_threads t = n_threads s \<and> io t"
proof (cases a)
  case (Worker v c)
  with assms run_worker_frame [of v c s t] show ?thesis by (auto split: if_splits)
next
  case (Submit c)
  with assms have "submit_step c s = Some t" by (auto split: if_splits)
  then show ?thesis using assms(2)
    by (cases rule: submit_step_cases)
      (auto simp: machine_simps wake_def split: if_splits)
next
  case (BeginSubmit c u)
  with assms submit_begin_Some [of c u s t] show ?thesis by auto
next
  case (SpawnSubmit c cb)
  with assms submit_spawn_Some [of c cb s t] show ?thesis by auto
next
  case Stop
  with assms have "stop_step s = Some t" by simp
  then show ?thesis using assms(2)
    by (cases rule: stop_step_cases) (auto simp: wake_def)
qed

lemma own_step_base:
  assumes "run_worker w c s = Some t" "io s" "\<not> base_pc (pcs s w)"
  shows "\<not> base_pc (pcs t w)"
  using assms
  by (cases rule: run_worker_cases) (auto simp: machine_simps Let_def split: case_splits)

lemma own_step_pace:
  assumes "run_worker w c s = Some t" "unserved w s" "callback_pc (pcs s w)" "\<not> base_pc (pcs s w)"
    and "proper_act k (Worker w c)"
  shows "callback_pc (pcs t w) \<and> idle_work (n_threads s) k (pcs t w) < idle_work (n_threads s) k (pcs s w)"
proof (cases "pcs s w = IdlePoll")
  case True
  with assms(1,5) show ?thesis
    by (auto simp: run_worker_def idle_poll_def goto_def split: choice.splits if_splits)
next
  case False
  have q: "tasks s w \<noteq> []" "hand (pcs s w) = {#}" "\<not> busy (pcs s w)"
    using assms(2) by (simp_all add: unserved_def)
  from assms(1) False q assms(3,4) show ?thesis
    using chk_work_pos check_moves [of s]
    by (cases rule: run_worker_cases)
      (auto simp: machine_simps split: if_splits list.splits event.splits sum.splits option.splits)
qed

lemma reach_no_base: "sched_reach True n m s \<Longrightarrow> io s \<and> \<not> base_pc (pcs s w)"
proof (induction rule: sched_reach.induct)
  case init
  then show ?case by (simp add: init_sched_def)
next
  case (step s a t)
  show ?case
  proof (cases "own_act w a")
    case True
    then obtain c where "run_worker w c s = Some t"
      using step.hyps(2) by (cases a) (auto split: if_splits)
    with step.IH own_step_base [of w c s t] run_worker_frame [of w c s t] show ?thesis by blast
  next
    case False
    with step.IH other_keeps_pc [OF step.hyps(2) _ False] show ?thesis by auto
  qed
qed

definition served_ok :: "nat \<Rightarrow> nat \<Rightarrow> nat \<Rightarrow> sched \<Rightarrow> bool" where
  "served_ok n m w s \<longleftrightarrow> sched_ok True n m s \<and> \<not> base_pc (pcs s w) \<and> callback_pc (pcs s w)"

lemma served_ok_io: "served_ok n m w s \<Longrightarrow> io s \<and> n_threads s = n \<and> n_all s = n + m"
  by (simp add: served_ok_def sched_ok_def shape_def)

lemma unserved_step_ok:
  assumes ok: "served_ok n m w s" and st: "unserved_step k w s a = Some t"
  shows "served_ok n m w t \<and>
    idle_work n k (pcs t w) + of_bool (own_act w a) \<le> idle_work n k (pcs s w)"
proof -
  have u: "unserved w s" "proper_act k a" "sched_step s a = Some t"
    using st by (auto simp: unserved_step_def split: if_splits)
  have io: "io s" "n_threads s = n" using served_ok_io [OF ok] by simp_all
  have s: "\<not> base_pc (pcs s w)" "callback_pc (pcs s w)" and ok': "sched_ok True n m t"
    using ok sched_ok_step [OF _ u(3)] by (simp_all add: served_ok_def)
  show ?thesis
  proof (cases "own_act w a")
    case True
    then obtain c where c: "a = Worker w c" "run_worker w c s = Some t"
      using u(3) by (cases a) (auto split: if_splits)
    have "callback_pc (pcs t w) \<and> idle_work n k (pcs t w) < idle_work n k (pcs s w)"
      using own_step_pace [OF c(2) u(1) s(2,1), of k] u(2) c(1) io(2) by simp
    with own_step_base [OF c(2) io(1) s(1)] ok' True show ?thesis by (simp add: served_ok_def)
  next
    case False
    with other_keeps_pc [OF u(3) io(1) False] s ok' show ?thesis by (simp add: served_ok_def)
  qed
qed

interpretation service: paced_machine "unserved_step k w" "served_ok n m w" "own_act w"
    "\<lambda>s. idle_work n k (pcs s w)" for k w n m
  by unfold_locales (use unserved_step_ok in blast)+

text \<open>
  While no stop was requested, a worker that has not taken its task can move without waiting for
  an event, or a thread inside \<^verbatim>\<open>submit\<close> is about to wake it.
\<close>

lemma unserved_moves:
  assumes ok: "served_ok n m w s" and w: "w < n" and u: "unserved w s" and ns: "\<not> stop_flag s" and k: "0 < k"
  shows "(\<exists>a. own_act w a \<and> a \<noteq> Worker w (Poll []) \<and> unserved_step k w s a \<noteq> None) \<or>
    (\<exists>c<n + m. subs s c \<in> {SubTickle w, SubWake w} \<and> unserved_step k w s (Submit c) \<noteq> None)"
proof -
  note io = served_ok_io [OF ok]
  have inv: "exits_ok s" "wakeups_ok s" "pcs s w \<noteq> RunFail"
    using ok by (simp_all add: served_ok_def sched_ok_def fibers_ok_def)
  have pc: "\<not> base_pc (pcs s w)" "callback_pc (pcs s w)" using ok by (simp_all add: served_ok_def)
  have q: "tasks s w \<noteq> []" "hand (pcs s w) = {#}" "\<not> busy (pcs s w)"
    using u by (simp_all add: unserved_def)
  have own: ?thesis if "run_worker w c s \<noteq> None" "proper_act k (Worker w c)" "c \<noteq> Poll []" for c
    using that w io u by (intro disjI1 exI [of _ "Worker w c"]) (simp add: unserved_step_def)
  show ?thesis
  proof (cases "pcs s w")
    case (RunSteal i)
    then show ?thesis by (intro own [of "Try True"]) (simp_all add: run_worker_def)
  next
    case RunExit
    with inv(1) ns show ?thesis by (auto simp: exits_ok_def)
  next
    case IdlePoll
    show ?thesis
    proof (cases "0 < wakeups s w")
      case True
      with IdlePoll k show ?thesis
        by (intro own [of "Poll [EvWakeup]"]) (simp_all add: run_worker_def idle_poll_def)
    next
      case False
      with IdlePoll inv(2) q(1) obtain c where c: "c < n_all s" "subs s c = SubTickle w \<or> subs s c = SubWake w"
        by (auto simp: wakeups_ok_def)
      then have "submit_step c s \<noteq> None" by (auto simp: submit_step_def)
      with c u io show ?thesis
        by (intro disjI2 exI [of _ c]) (auto simp: unserved_step_def)
    qed
  next
    case (IdleEvents evs)
    with pc(2) show ?thesis
      by (intro own [of Go]) (auto simp: run_worker_def idle_events_def known_def split: list.split event.split)
  qed (use own [of Go] pc q inv(3) in \<open>auto simp: run_worker_def on_go_def\<close>)
qed

section \<open>Properties\<close>


text \<open>
  The only worker sleeps on a queue with one task; the submitter wakes it, and it has one step to
  go until it searches its queue.
\<close>

definition service_trace :: "action list" where
  "service_trace = [Submit 1, Submit 1, Worker 0 (Poll [EvWakeup])] @ replicate 4 (Worker 0 Go)"

lemma service_trace_state:
  "map_option (\<lambda>s. map_option (\<lambda>t. (pcs t 0, tasks t 0, subs t 0, subs t 1, stop_flag t))
       (exec_all (unserved_step 1 0) s service_trace))
     (exec_all sched_step (init_sched True 1 1) wake_trace) =
   Some (Some (RunTop, [task_of_fiber 0], SubNone, SubNone, False))"
  by code_simp


end
