(* ===== verification/Koro_Wakeup.thy ===== *)
theory Koro_Wakeup
  imports Koro_Worker_Props
begin

text \<open>
  The wake-up of a fiber that waits in \<^verbatim>\<open>do_io\<close>. The callback of the event pushes the fiber
  on a queue; from then on, until some worker resumes it, a task that will resume it exists, although
  the fiber may be anywhere: still running towards its \<^verbatim>\<open>hold\<close>, held, or locked by the worker
  that it has just left.
\<close>

section \<open>Tasks that are free to resume a fiber\<close>

text \<open>The task with which a worker is executing its fiber does not count: it ends with the hold.\<close>

fun executes :: "scheduled_task \<Rightarrow> wpc \<Rightarrow> bool" where
  "executes u (RunBody t f) = (t = u)"
| "executes u (RunBack t f) = (t = u)"
| "executes u p = False"

definition executing :: "nat \<Rightarrow> (nat \<Rightarrow> wpc) \<Rightarrow> scheduled_task \<Rightarrow> int" where
  "executing n ps u = (\<Sum>w<n. of_bool (executes u (ps w)))"

definition free_tasks :: "sched \<Rightarrow> scheduled_task \<Rightarrow> int" where
  "free_tasks s u = int (count (born s) u) - int (count (retired s) u) - executing (n_threads s) (pcs s) u"

lemma executing_upd [simp]:
  "w < n \<Longrightarrow> executing n (ps(w := p)) u = executing n ps u - of_bool (executes u (ps w)) + of_bool (executes u p)"
  using sum_fun_upd [of w n "\<lambda>p. of_bool (executes u p) :: int" ps p] by (simp add: executing_def)

lemma executing_woken [simp]:
  "ps i = BaseSleep \<Longrightarrow> executing n (ps(i := BaseWake)) u = executing n ps u"
  unfolding executing_def by (rule sum.cong) auto

text \<open>A free task is in a queue, in a call of \<^verbatim>\<open>submit\<close>, or with a worker that has yet to resume it.\<close>

lemma free_task_somewhere:
  assumes "books s" "0 < free_tasks s u"
  shows "(\<exists>i<n_threads s. u \<in> set (tasks s i)) \<or> (\<exists>c<n_all s. u \<in># sub_hand (subs s c)) \<or>
    (\<exists>w<n_threads s. u \<in># hand (pcs s w) \<and> \<not> executes u (pcs s w))"
proof (rule ccontr)
  assume no: "\<not> ?thesis"
  have "queued (n_threads s) (tasks s) u = 0" "submitting (n_all s) (subs s) u = 0"
    using no by (auto simp: queued_def submitting_def count_mset_0_iff not_in_iff intro!: sum.neutral)
  moreover have "int (count (hand (pcs s w)) u) \<le> of_bool (executes u (pcs s w))" if "w < n_threads s" for w
  proof (cases "executes u (pcs s w)")
    case True
    then show ?thesis by (cases "pcs s w") auto
  next
    case False
    with no that have "u \<notin># hand (pcs s w)" by blast
    then show ?thesis by (simp add: not_in_iff)
  qed
  then have "in_hand (n_threads s) (pcs s) u \<le> executing (n_threads s) (pcs s) u"
    unfolding in_hand_def executing_def by (intro sum_mono) simp
  moreover have "int (count (born s) u) = int (count (retired s) u) + located s u"
    using assms(1) by (simp add: books_def)
  ultimately show False using assms(2) by (simp add: free_tasks_def located_def)
qed

section \<open>A woken fiber\<close>

definition resumes :: "fid \<Rightarrow> sched \<Rightarrow> action \<Rightarrow> bool" where
  "resumes g s a \<longleftrightarrow>
     (case a of Worker w c \<Rightarrow> (case pcs s w of RunResume u f \<Rightarrow> f = g | _ \<Rightarrow> False) | _ \<Rightarrow> False)"

definition unresumed_step :: "fid \<Rightarrow> sched \<Rightarrow> action \<Rightarrow> sched option" where
  "unresumed_step g s a = (if resumes g s a then None else sched_step s a)"

definition woken :: "fid \<Rightarrow> sched \<Rightarrow> bool" where
  "woken g s \<longleftrightarrow> (\<exists>fb. fibers s g = Some fb \<and>
     (fb_state fb = kTerm \<or> (\<exists>u. st_fiber u = Some g \<and> 0 < free_tasks s u)))"

text \<open>What a step has to respect: the fiber stays terminated, or keeps its free task.\<close>

lemma wokenI:
  assumes "woken g s"
    and "\<And>fb. fibers s g = Some fb \<Longrightarrow> \<exists>fb'. fibers t g = Some fb' \<and>
      (fb_state fb' = kTerm \<or> fb_state fb \<noteq> kTerm \<and> (\<forall>u. st_fiber u = Some g \<longrightarrow> free_tasks s u \<le> free_tasks t u))"
  shows "woken g t"
proof -
  obtain fb where fb: "fibers s g = Some fb"
    "fb_state fb = kTerm \<or> (\<exists>u. st_fiber u = Some g \<and> 0 < free_tasks s u)"
    using assms(1) by (auto simp: woken_def)
  with assms(2) [OF fb(1)] show ?thesis unfolding woken_def by (meson less_le_trans)
qed

lemma woken_worker:
  assumes step: "run_worker w c s = Some t" "w < n_threads s" and nr: "\<not> resumes g s (Worker w c)"
    and ok: "fibers_ok (fibers s) (fresh s) (pcs s)" and wk: "woken g s"
  shows "woken g t"
proof -
  note tok = fibers_okD(6) [OF ok, of w]
  note held = fibers_okD(2) [OF ok, of w]
  have g: "g \<noteq> fresh s" using wk fibers_okD(1) [OF ok, of g] by (auto simp: woken_def)
  show ?thesis
    using step(1)
  proof (cases rule: run_worker_cases)
    case (dispatch u)
    with g step(2) show ?thesis
      by (intro wokenI [OF wk])
        (auto simp: machine_simps Let_def tryLock_def free_tasks_def split: case_splits)
  next
    case (check u f)
    with tok step(2) show ?thesis
      by (intro wokenI [OF wk]) (auto simp: machine_simps free_tasks_def split: case_splits)
  next
    case (resume u f)
    then have "f \<noteq> g" "st_fiber u = Some f" using nr tok by (auto simp: resumes_def)
    with resume step(2) show ?thesis
      by (intro wokenI [OF wk])
        (auto simp: machine_simps free_tasks_def dest: mark_simps(1) split: case_splits)
  next
    case (leave_yield u f)
    then obtain fb where "fibers s f = Some fb" "fb_state fb = kRunning" using held by auto
    with leave_yield step(2) show ?thesis
      by (intro wokenI [OF wk]) (auto simp: machine_simps mark_simps free_tasks_def split: if_splits)
  next
    case (leave_hold u f)
    then obtain fb where "fibers s f = Some fb" "fb_state fb = kRunning" using held by auto
    with leave_hold step(2) show ?thesis
      by (intro wokenI [OF wk]) (auto simp: machine_simps mark_simps free_tasks_def split: if_splits)
  next
    case (leave_return u f)
    then obtain fb where "fibers s f = Some fb" "fb_state fb = kRunning" using held by auto
    with leave_return step(2) show ?thesis
      by (intro wokenI [OF wk])
        (auto simp: machine_simps mark_simps mark_finished_def free_tasks_def split: if_splits)
  next
    case (returned u f)
    then obtain fb where "fibers s f = Some fb" "fb_state fb \<noteq> kRunning" using held by auto
    with returned tok step(2) show ?thesis
      by (intro wokenI [OF wk]) (auto simp: machine_simps free_tasks_def split: case_splits)
  next
    case (unlock f)
    with step(2) show ?thesis
      by (intro wokenI [OF wk]) (auto simp: machine_simps unlock_def free_tasks_def split: case_splits)
  next
    case (drop f)
    with step(2) show ?thesis
      by (intro wokenI [OF wk]) (auto simp: machine_simps unlock_def free_tasks_def split: case_splits)
  next
    case (wake_fiber u f h)
    with step(2) show ?thesis
      by (intro wokenI [OF wk]) (auto simp: machine_simps free_tasks_def split: if_splits)
  next
    case (ievents evs)
    with step(2) show ?thesis
      by (intro wokenI [OF wk]) (auto simp: machine_simps free_tasks_def split: case_splits)
  qed (use step(2) in \<open>auto simp: machine_simps free_tasks_def split: case_splits intro!: wokenI [OF wk]\<close>)
qed

lemma woken_step:
  assumes step: "sched_step s a = Some t" "\<not> resumes g s a"
    and ok: "fibers_ok (fibers s) (fresh s) (pcs s)" and wk: "woken g s"
  shows "woken g t"
proof (cases a)
  case (Worker w c)
  with step woken_worker [OF _ _ _ ok wk] show ?thesis by (auto split: if_splits)
next
  case (Submit c)
  with step have "submit_step c s = Some t" by (auto split: if_splits)
  then show ?thesis
    by (cases rule: submit_step_cases)
      (auto simp: machine_simps free_tasks_def wake_def Let_def intro!: wokenI [OF wk])
next
  case (BeginSubmit c u)
  with step have "submit_begin c u s = Some t" by simp
  from submit_begin_Some [OF this] show ?thesis
    by (intro wokenI [OF wk]) (auto simp: free_tasks_def)
next
  case (SpawnSubmit c cb)
  with step have "submit_spawn c cb s = Some t" by simp
  note t = submit_spawn_Some [OF this]
  have "g \<noteq> fresh s" using wk fibers_okD(1) [OF ok, of g] by (auto simp: woken_def)
  with t show ?thesis by (intro wokenI [OF wk]) (auto simp: free_tasks_def)
next
  case Stop
  with step have "stop_step s = Some t" by simp
  then show ?thesis
    by (cases rule: stop_step_cases) (auto simp: free_tasks_def wake_def goto_def intro!: wokenI [OF wk])
qed

definition woken_ok :: "bool \<Rightarrow> nat \<Rightarrow> nat \<Rightarrow> fid \<Rightarrow> sched \<Rightarrow> bool" where
  "woken_ok b n m g s \<longleftrightarrow> sched_ok b n m s \<and> woken g s"

lemma woken_ok_step:
  assumes "woken_ok b n m g s" "unresumed_step g s a = Some t"
  shows "woken_ok b n m g t"
proof -
  have st: "sched_step s a = Some t" "\<not> resumes g s a"
    using assms(2) by (auto simp: unresumed_step_def split: if_splits)
  have ok: "sched_ok b n m s" "woken g s" using assms(1) by (simp_all add: woken_ok_def)
  have "fibers_ok (fibers s) (fresh s) (pcs s)" using ok(1) by (simp add: sched_ok_def)
  from woken_step [OF st this ok(2)] sched_ok_step [OF ok(1) st(1)] show ?thesis
    by (simp add: woken_ok_def)
qed

interpretation wakeup: machine "unresumed_step g" "woken_ok b n m g" for b n m g
  by unfold_locales (rule woken_ok_step)

text \<open>The wake-up adds a free task, wherever the other tasks of the fiber are.\<close>

lemma executing_le_born:
  "books s \<Longrightarrow> 0 \<le> free_tasks s u"
proof -
  assume b: "books s"
  have "of_bool (executes u p) \<le> int (count (hand p) u)" for p by (cases p) auto
  then have "executing (n_threads s) (pcs s) u \<le> in_hand (n_threads s) (pcs s) u"
    unfolding in_hand_def executing_def by (intro sum_mono) simp
  moreover have "int (count (born s) u) = int (count (retired s) u) + located s u"
    using b by (simp add: books_def)
  moreover have "in_hand (n_threads s) (pcs s) u \<le> located s u"
    using sums_nonneg by (simp add: located_def)
  ultimately show ?thesis by (simp add: free_tasks_def)
qed

lemma wake_makes_woken:
  assumes "run_wake_fiber w g s = Some t" "books s"
  shows "woken g t"
proof -
  have t: "t = add_born (task_of_fiber g) (push_back w (task_of_fiber g) s)" and g: "fibers s g \<noteq> None"
    using assms(1) by (simp_all add: run_wake_fiber_def split: if_splits)
  have "0 < free_tasks t (task_of_fiber g)"
    using executing_le_born [OF assms(2), of "task_of_fiber g"] by (simp add: t free_tasks_def machine_simps)
  moreover have "st_fiber (task_of_fiber g) = Some g" by (simp add: task_of_fiber_def)
  moreover have "fibers t = fibers s" by (simp add: t machine_simps)
  ultimately show ?thesis using g by (auto simp: woken_def)
qed

section \<open>Properties\<close>

text \<open>
  C6: a woken fiber is not forgotten. After the callback of \<^verbatim>\<open>do_io\<close> has pushed the fiber,
  and until some worker resumes it, whatever all threads do and wherever the fiber was when it was
  woken, the fiber has terminated or there is a task for it that waits in a queue, in a call of
  \<^verbatim>\<open>submit\<close>, or with a worker that has taken it and not yet resumed the fiber.\<close>

theorem woken_fiber_not_lost:
  assumes "sched_reach b n m s" "0 < n" "sched_step s (Worker w (UserWake g)) = Some s1"
    and "exec_all (unresumed_step g) s1 acts = Some t"
  shows "\<exists>fb. fibers t g = Some fb \<and> (fb_state fb = kTerm \<or>
    (\<exists>u. st_fiber u = Some g \<and> ((\<exists>i<n. u \<in> set (tasks t i)) \<or> (\<exists>c<n + m. u \<in># sub_hand (subs t c)) \<or>
       (\<exists>v<n. u \<in># hand (pcs t v) \<and> \<not> executes u (pcs t v)))))"
proof -
  have ok: "sched_ok b n m s" by (rule sched_reach_ok [OF assms(1,2)])
  have "run_wake_fiber w g s = Some s1"
    using assms(3) by (auto simp: run_worker_def on_go_def user_step_def split: wpc.splits if_splits)
  moreover have "books s" using ok by (simp add: sched_ok_def)
  ultimately have "woken g s1" by (rule wake_makes_woken)
  then have "woken_ok b n m g s1" using sched_ok_step [OF ok assms(3)] by (simp add: woken_ok_def)
  then have t: "woken_ok b n m g t" using assms(4) by (rule wakeup.run_good)
  then have "books t" "n_threads t = n" "n_all t = n + m"
    by (simp_all add: woken_ok_def sched_ok_def shape_def)
  with t free_task_somewhere [of t] show ?thesis
    unfolding woken_ok_def woken_def by metis
qed

text \<open>
  One worker: fiber 0 waits for an event and is held; the event's callback runs in fiber 1, wakes
  fiber 0 and returns; the worker takes the task of fiber 0 and locks it.
\<close>

definition blocked_trace :: "action list" where
  "blocked_trace = run_trace @ [Worker 0 (UserPending 1), Worker 0 UserHold] @ replicate 4 (Worker 0 Go) @
     [Worker 0 (Try True)] @ replicate 4 (Worker 0 Go) @ [Worker 0 (Poll [EvTask (task_of_callback 9)])] @
     replicate 8 (Worker 0 Go)"

definition blocked_state :: sched where
  "blocked_state = demo True 1 1 blocked_trace"

definition rerun_trace :: "action list" where
  "rerun_trace = Worker 0 UserReturn # replicate 6 (Worker 0 Go)"

lemma blocked_trace_state:
  "map_option (\<lambda>s. (pcs s 0, map_option fb_state (fibers s 0)))
     (exec_all sched_step (init_sched True 1 1) blocked_trace) = Some (RunBody (task_of_fiber 1) 1, Some kHold)"
  "map_option (\<lambda>s. map_option (\<lambda>t. (pcs t 0, map_option fb_state (fibers t 0)))
       (exec_all (unresumed_step 0) s rerun_trace))
     (exec_all sched_step (init_sched True 1 1) (blocked_trace @ [Worker 0 (UserWake 0)])) =
   Some (Some (RunCheck (task_of_fiber 0) 0, Some kHold))"
  by code_simp+

theorem woken_fiber_not_lost_witness:
  "\<exists>s t. sched_step blocked_state (Worker 0 (UserWake 0)) = Some s \<and>
     exec_all (unresumed_step 0) s rerun_trace = Some t \<and> map_option fb_state (fibers t 0) = Some kHold \<and>
     (\<exists>u. st_fiber u = Some 0 \<and> ((\<exists>i<1. u \<in> set (tasks t i)) \<or> (\<exists>c<1 + 1. u \<in># sub_hand (subs t c)) \<or>
        (\<exists>v<1. u \<in># hand (pcs t v) \<and> \<not> executes u (pcs t v))))"
proof -
  have b: "exec_all sched_step (init_sched True 1 1) blocked_trace = Some blocked_state"
    using blocked_trace_state(1) by (auto simp: blocked_state_def demo_def)
  have r: "sched_reach True 1 1 blocked_state" unfolding blocked_state_def by (rule demo_reach)
  obtain s where s: "sched_step blocked_state (Worker 0 (UserWake 0)) = Some s"
    "map_option (\<lambda>t. (pcs t 0, map_option fb_state (fibers t 0))) (exec_all (unresumed_step 0) s rerun_trace) =
      Some (RunCheck (task_of_fiber 0) 0, Some kHold)"
    using blocked_trace_state(2) b unfolding exec_all_append
    by (auto simp del: sched_step.simps split: option.splits)
  then obtain t where t: "exec_all (unresumed_step 0) s rerun_trace = Some t"
    "map_option fb_state (fibers t 0) = Some kHold"
    by auto
  from woken_fiber_not_lost [OF r _ s(1) t(1)] t(2)
  have "\<exists>u. st_fiber u = Some 0 \<and> ((\<exists>i<1. u \<in> set (tasks t i)) \<or> (\<exists>c<1 + 1. u \<in># sub_hand (subs t c)) \<or>
      (\<exists>v<1. u \<in># hand (pcs t v) \<and> \<not> executes u (pcs t v)))"
    by auto
  with s(1) t show ?thesis by blast
qed

end
