(* ===== verification/Koro_Pool.thy ===== *)
theory Koro_Pool
  imports Koro_Scheduler "HOL-Library.Code_Target_Nat"
begin

text \<open>
  \<^verbatim>\<open>ThreadPool\<close> (\<^verbatim>\<open>koro/thread_pool.h\<close>, \<^verbatim>\<open>koro/thread_pool.cpp\<close>): an interleaved
  machine of \<open>n\<close> workers, the threads that call \<^verbatim>\<open>submit\<close>, and the destructor. An
  action is one lock-protected section, one atomic access or one notification. The pool of no
  worker, whose \<^verbatim>\<open>submit\<close> divides by zero, is left out of the theorems.
\<close>

section \<open>State\<close>

type_synonym ptask = nat

text \<open>
  The positions of a worker: \<open>PTop\<close> before it locks its queue, \<open>PSteal i\<close> in the loop of
  \<^verbatim>\<open>stealTask\<close>, \<open>PRecheck\<close> before it locks again, \<open>PWait\<close> blocked on its condition
  variable, \<open>PWoken\<close> before it tests the predicate of the wait, \<open>PRun t\<close> in \<^verbatim>\<open>task()\<close>.
\<close>

datatype ppc = PTop | PSteal nat | PRecheck | PWait | PWoken | PRun ptask | PExit

datatype psub = PSubNone | PSubIndex ptask | PSubPush nat ptask | PSubNotify nat

datatype dpc = DNone | DStop nat | DNotify nat | DJoin nat | DDone

text \<open>
  \<open>nested\<close>: the tasks of this program may call \<^verbatim>\<open>submit\<close> themselves. \<open>pborn\<close> and
  \<open>pdone\<close> record the tasks submitted and executed; they are not fields of the program.
\<close>

record pool =
  nested :: bool
  p_workers :: nat
  p_all :: nat
  cur_id :: u64
  pqueue :: "nat \<Rightarrow> ptask list"
  pstop :: "nat \<Rightarrow> bool"
  ppcs :: "nat \<Rightarrow> ppc"
  psubs :: "nat \<Rightarrow> psub"
  dtor :: dpc
  pborn :: "ptask multiset"
  pdone :: "ptask multiset"

definition init_pool :: "bool \<Rightarrow> nat \<Rightarrow> nat \<Rightarrow> pool" where
  "init_pool b n m = \<lparr>nested = b, p_workers = n, p_all = n + m, cur_id = 0, pqueue = (\<lambda>_. []),
     pstop = (\<lambda>_. False), ppcs = (\<lambda>_. PTop), psubs = (\<lambda>_. PSubNone), dtor = DNone,
     pborn = {#}, pdone = {#}\<rparr>"

definition pgoto :: "nat \<Rightarrow> ppc \<Rightarrow> pool \<Rightarrow> pool" where
  "pgoto w p s = s\<lparr>ppcs := (ppcs s)(w := p)\<rparr>"

section \<open>The worker\<close>

definition pool_top :: "nat \<Rightarrow> pool \<Rightarrow> pool" where
  "pool_top w s =
     (case pqueue s w of
        t # ts \<Rightarrow> pgoto w (PRun t) (s\<lparr>pqueue := (pqueue s)(w := ts)\<rparr>)
      | [] \<Rightarrow> if \<not> pstop s w then pgoto w (PSteal 1) s else pgoto w PExit s)"

definition pool_steal :: "nat \<Rightarrow> nat \<Rightarrow> bool \<Rightarrow> pool \<Rightarrow> pool" where
  "pool_steal w i free s =
     (if i < p_workers s
      then (case steal_try ((w + i) mod p_workers s) free (pqueue s) of
              Some (t, qs) \<Rightarrow> pgoto w (PRun t) (s\<lparr>pqueue := qs\<rparr>)
            | None \<Rightarrow> pgoto w (PSteal (Suc i)) s)
      else pgoto w PRecheck s)"

definition pool_recheck :: "nat \<Rightarrow> pool \<Rightarrow> pool" where
  "pool_recheck w s = pgoto w (if pqueue s w = [] \<and> \<not> pstop s w then PWait else PTop) s"

definition pool_woken :: "nat \<Rightarrow> pool \<Rightarrow> pool" where
  "pool_woken w s = pgoto w (if pqueue s w \<noteq> [] \<or> pstop s w then PTop else PWait) s"

definition pool_finish :: "nat \<Rightarrow> ptask \<Rightarrow> pool \<Rightarrow> pool option" where
  "pool_finish w t s =
     (if psubs s w = PSubNone then Some (pgoto w PTop (s\<lparr>pdone := add_mset t (pdone s)\<rparr>)) else None)"

text \<open>\<open>free\<close> is the outcome of a \<^verbatim>\<open>try_lock\<close>; a sleeping worker may wake spuriously.\<close>

definition pool_worker :: "nat \<Rightarrow> bool \<Rightarrow> pool \<Rightarrow> pool option" where
  "pool_worker w free s =
     (case ppcs s w of
        PTop \<Rightarrow> Some (pool_top w s)
      | PSteal i \<Rightarrow> Some (pool_steal w i free s)
      | PRecheck \<Rightarrow> Some (pool_recheck w s)
      | PWait \<Rightarrow> None
      | PWoken \<Rightarrow> Some (pool_woken w s)
      | PRun t \<Rightarrow> pool_finish w t s
      | PExit \<Rightarrow> None)"

section \<open>\<^verbatim>\<open>submit\<close>\<close>

definition pnotify :: "nat \<Rightarrow> pool \<Rightarrow> pool" where
  "pnotify i s = (if ppcs s i = PWait then pgoto i PWoken s else s)"

definition pool_submit :: "nat \<Rightarrow> pool \<Rightarrow> pool option" where
  "pool_submit c s =
     (case psubs s c of
        PSubNone \<Rightarrow> None
      | PSubIndex t \<Rightarrow> Some (s\<lparr>cur_id := cur_id s + 1,
          psubs := (psubs s)(c := PSubPush (submit_target (cur_id s) (p_workers s)) t)\<rparr>)
      | PSubPush i t \<Rightarrow> Some (s\<lparr>pqueue := (pqueue s)(i := pqueue s i @ [t]),
          psubs := (psubs s)(c := PSubNotify i)\<rparr>)
      | PSubNotify i \<Rightarrow> Some ((pnotify i s)\<lparr>psubs := (psubs s)(c := PSubNone)\<rparr>))"

text \<open>
  Who may call it: the task that a worker executes, if the program nests submissions, and another
  thread as long as the pool's lifetime has not ended.
\<close>

definition pool_begin :: "nat \<Rightarrow> ptask \<Rightarrow> pool \<Rightarrow> pool option" where
  "pool_begin c t s =
     (if c < p_all s \<and> psubs s c = PSubNone \<and>
        (if c < p_workers s then nested s \<and> (case ppcs s c of PRun u \<Rightarrow> True | _ \<Rightarrow> False)
         else dtor s = DNone)
      then Some (s\<lparr>psubs := (psubs s)(c := PSubIndex t), pborn := add_mset t (pborn s)\<rparr>)
      else None)"

section \<open>The destructor\<close>

definition outside_idle :: "pool \<Rightarrow> bool" where
  "outside_idle s \<longleftrightarrow> (\<forall>c \<in> set [p_workers s..<p_all s]. psubs s c = PSubNone)"

definition pool_dtor :: "pool \<Rightarrow> pool option" where
  "pool_dtor s =
     (case dtor s of
        DNone \<Rightarrow> if outside_idle s then Some (s\<lparr>dtor := DStop 0\<rparr>) else None
      | DStop i \<Rightarrow>
          Some (if i < p_workers s
                then s\<lparr>pstop := (pstop s)(i := True), dtor := DNotify i\<rparr> else s\<lparr>dtor := DJoin 0\<rparr>)
      | DNotify i \<Rightarrow> Some ((pnotify i s)\<lparr>dtor := DStop (Suc i)\<rparr>)
      | DJoin i \<Rightarrow>
          if i < p_workers s
          then (if ppcs s i = PExit then Some (s\<lparr>dtor := DJoin (Suc i)\<rparr>) else None)
          else Some (s\<lparr>dtor := DDone\<rparr>)
      | DDone \<Rightarrow> None)"

section \<open>The machine\<close>

datatype paction = PWork nat bool | PSpurious nat | PSubmit nat | PBegin nat ptask | PDestroy

fun pool_step :: "pool \<Rightarrow> paction \<Rightarrow> pool option" where
  "pool_step s (PWork w free) = (if w < p_workers s then pool_worker w free s else None)"
| "pool_step s (PSpurious w) =
     (if w < p_workers s \<and> ppcs s w = PWait then Some (pgoto w PWoken s) else None)"
| "pool_step s (PSubmit c) = (if c < p_all s then pool_submit c s else None)"
| "pool_step s (PBegin c t) = pool_begin c t s"
| "pool_step s PDestroy = pool_dtor s"

inductive pool_reach :: "bool \<Rightarrow> nat \<Rightarrow> nat \<Rightarrow> pool \<Rightarrow> bool" for b n m where
  pinit: "pool_reach b n m (init_pool b n m)"
| pstep: "pool_reach b n m s \<Longrightarrow> pool_step s a = Some t \<Longrightarrow> pool_reach b n m t"

lemma pool_exec_reach:
  "exec_all pool_step (init_pool b n m) acts = Some t \<Longrightarrow> pool_reach b n m t"
proof -
  have "pool_reach b n m s \<Longrightarrow> exec_all pool_step s acts = Some t \<Longrightarrow> pool_reach b n m t" for s
    by (induction acts arbitrary: s) (auto split: option.splits intro: pool_reach.pstep)
  then show "exec_all pool_step (init_pool b n m) acts = Some t \<Longrightarrow> pool_reach b n m t"
    by (blast intro: pool_reach.pinit)
qed

section \<open>The invariant\<close>

fun phand :: "ppc \<Rightarrow> ptask multiset" where
  "phand (PRun t) = {#t#}"
| "phand _ = {#}"

fun psub_hand :: "psub \<Rightarrow> ptask multiset" where
  "psub_hand (PSubIndex t) = {#t#}"
| "psub_hand (PSubPush i t) = {#t#}"
| "psub_hand _ = {#}"

fun psub_target :: "psub \<Rightarrow> nat option" where
  "psub_target (PSubPush i t) = Some i"
| "psub_target (PSubNotify i) = Some i"
| "psub_target _ = None"

definition pool_located :: "pool \<Rightarrow> ptask \<Rightarrow> int" where
  "pool_located s x = tally (p_workers s) mset (pqueue s) x + tally (p_workers s) phand (ppcs s) x +
     tally (p_all s) psub_hand (psubs s) x"

definition pool_books :: "pool \<Rightarrow> bool" where
  "pool_books s \<longleftrightarrow> (\<forall>x. int (count (pborn s) x) = int (count (pdone s) x) + pool_located s x)"

text \<open>The workers whose \<^verbatim>\<open>stop\<close> the destructor has set.\<close>

fun stopped_upto :: "dpc \<Rightarrow> nat \<Rightarrow> nat" where
  "stopped_upto DNone n = 0"
| "stopped_upto (DStop i) n = i"
| "stopped_upto (DNotify i) n = Suc i"
| "stopped_upto _ n = n"

fun joined_upto :: "dpc \<Rightarrow> nat \<Rightarrow> nat" where
  "joined_upto (DJoin i) n = i"
| "joined_upto DDone n = n"
| "joined_upto _ n = 0"

definition pool_shape :: "bool \<Rightarrow> nat \<Rightarrow> nat \<Rightarrow> pool \<Rightarrow> bool" where
  "pool_shape b n m s \<longleftrightarrow> nested s = b \<and> p_workers s = n \<and> p_all s = n + m \<and>
     (\<forall>c i. psub_target (psubs s c) = Some i \<longrightarrow> i < n) \<and>
     (\<forall>c<n. psubs s c \<noteq> PSubNone \<longrightarrow> b \<and> (\<exists>t. ppcs s c = PRun t)) \<and>
     (\<forall>c. n \<le> c \<longrightarrow> dtor s \<noteq> DNone \<longrightarrow> psubs s c = PSubNone) \<and>
     (\<forall>c. n + m \<le> c \<longrightarrow> psubs s c = PSubNone)"

definition pool_stops :: "pool \<Rightarrow> bool" where
  "pool_stops s \<longleftrightarrow>
     (\<forall>w. pstop s w \<longleftrightarrow> w < stopped_upto (dtor s) (p_workers s)) \<and>
     stopped_upto (dtor s) (p_workers s) \<le> p_workers s \<and>
     (\<forall>w. ppcs s w = PExit \<longrightarrow> pstop s w) \<and>
     (\<forall>w<joined_upto (dtor s) (p_workers s). ppcs s w = PExit) \<and>
     (\<not> nested s \<longrightarrow> (\<forall>w. ppcs s w = PExit \<longrightarrow> pqueue s w = []))"

definition pool_wakes :: "pool \<Rightarrow> bool" where
  "pool_wakes s \<longleftrightarrow>
     (\<forall>w. ppcs s w = PWait \<longrightarrow>
        (pqueue s w \<noteq> [] \<longrightarrow> (\<exists>c<p_all s. psubs s c = PSubNotify w)) \<and>
        (pstop s w \<longrightarrow> dtor s = DNotify w))"

definition pool_ok :: "bool \<Rightarrow> nat \<Rightarrow> nat \<Rightarrow> pool \<Rightarrow> bool" where
  "pool_ok b n m s \<longleftrightarrow> 0 < n \<and> pool_shape b n m s \<and> pool_books s \<and> pool_stops s \<and> pool_wakes s"

lemma pool_ok_init: "0 < n \<Longrightarrow> pool_ok b n m (init_pool b n m)"
  by (simp add: pool_ok_def init_pool_def pool_shape_def pool_books_def pool_located_def
      pool_stops_def pool_wakes_def tally_empty)

lemma pool_begin_Some:
  assumes "pool_begin c t s = Some s'"
  shows "s' = s\<lparr>psubs := (psubs s)(c := PSubIndex t), pborn := add_mset t (pborn s)\<rparr> \<and>
    c < p_all s \<and> psubs s c = PSubNone \<and>
    (c < p_workers s \<longrightarrow> nested s \<and> (\<exists>u. ppcs s c = PRun u)) \<and> (p_workers s \<le> c \<longrightarrow> dtor s = DNone)"
  using assms by (auto simp: pool_begin_def split: if_splits ppc.splits)

lemmas pool_worker_defs = pool_worker_def pool_top_def pool_steal_def pool_recheck_def
  pool_woken_def pool_finish_def pgoto_def

lemma phand_not_run [simp]: "\<not> (\<exists>t. p = PRun t) \<Longrightarrow> phand p = {#}"
  by (cases p) auto

lemma tally_pwoken [simp]:
  "ps i = PWait \<Longrightarrow> tally n phand (ps(i := PWoken)) x = tally n phand ps x"
  unfolding tally_def by (rule sum.cong) auto

lemma pool_worker_frame:
  assumes "pool_worker w free s = Some t"
  shows "nested t = nested s \<and> p_workers t = p_workers s \<and> p_all t = p_all s \<and> psubs t = psubs s \<and>
    dtor t = dtor s \<and> pstop t = pstop s \<and> cur_id t = cur_id s \<and> pborn t = pborn s \<and>
    (\<forall>v. v \<noteq> w \<longrightarrow> ppcs t v = ppcs s v) \<and> (\<forall>u. ppcs s w = PRun u \<longrightarrow> psubs s w = PSubNone)"
  using assms
  by (cases "ppcs s w")
    (auto simp: pool_worker_defs steal_try_def split: list.splits if_splits option.splits)

lemma pool_books_step:
  assumes "pool_step s a = Some t" "pool_shape b n m s" "0 < n" "pool_books s"
  shows "pool_books t"
proof (cases a)
  case (PWork w free)
  then have w: "w < p_workers s" and st: "pool_worker w free s = Some t"
    using assms(1) by (auto split: if_splits)
  from st assms(4) w show ?thesis
    by (cases "ppcs s w")
      (auto simp: pool_worker_defs pool_books_def pool_located_def steal_try_def mset_snoc_butlast
        split: list.splits if_splits option.splits)
next
  case (PSpurious w)
  with assms show ?thesis
    by (auto simp: pgoto_def pool_books_def pool_located_def split: if_splits)
next
  case (PSubmit c)
  then have "c < p_all s" and st: "pool_submit c s = Some t"
    using assms(1) by (auto split: if_splits)
  have "psub_target (psubs s c) = Some i \<Longrightarrow> i < p_workers s" for i
    using assms(2) by (auto simp: pool_shape_def)
  with \<open>c < p_all s\<close> st assms(4) show ?thesis
    by (cases "psubs s c")
      (auto simp: pool_submit_def pnotify_def pgoto_def pool_books_def pool_located_def)
next
  case (PBegin c u)
  with assms pool_begin_Some [of c u s t] show ?thesis
    by (auto simp: pool_books_def pool_located_def)
next
  case PDestroy
  with assms show ?thesis
    by (cases "dtor s") (auto simp: pool_dtor_def pnotify_def pgoto_def pool_books_def pool_located_def
        split: if_splits)
qed

lemma pool_shape_upd:
  assumes "pool_shape b n m s" "nested t = nested s" "p_workers t = p_workers s" "p_all t = p_all s"
    and "dtor t = dtor s" "psubs t = (psubs s)(c := p)" "psubs s c \<noteq> PSubNone"
    and "\<And>i. psub_target p = Some i \<Longrightarrow> i < n" "\<And>v u. ppcs s v = PRun u \<Longrightarrow> ppcs t v = PRun u"
  shows "pool_shape b n m t"
proof -
  have "\<exists>u. ppcs t c = PRun u" if "\<exists>u. ppcs s c = PRun u" for c using that assms(9) by blast
  moreover have "\<not> (n \<le> c \<and> dtor s \<noteq> DNone)" "\<not> n + m \<le> c"
    using assms(1,7) unfolding pool_shape_def by blast+
  ultimately show ?thesis using assms(1-8) unfolding pool_shape_def by simp
qed

lemma pnotify_simps [simp]:
  "nested (pnotify i s) = nested s" "p_workers (pnotify i s) = p_workers s"
  "p_all (pnotify i s) = p_all s" "dtor (pnotify i s) = dtor s" "psubs (pnotify i s) = psubs s"
  "pqueue (pnotify i s) = pqueue s" "pstop (pnotify i s) = pstop s"
  "pborn (pnotify i s) = pborn s" "pdone (pnotify i s) = pdone s" "cur_id (pnotify i s) = cur_id s"
  "ppcs (pnotify i s) v = PRun u \<longleftrightarrow> ppcs s v = PRun u"
  "ppcs (pnotify i s) v = PExit \<longleftrightarrow> ppcs s v = PExit"
  "ppcs (pnotify i s) v = PWait \<longleftrightarrow> ppcs s v = PWait \<and> v \<noteq> i"
  "tally n phand (ppcs (pnotify i s)) x = tally n phand (ppcs s) x"
  by (auto simp: pnotify_def pgoto_def)

lemma pool_submit_cases [consumes 1, case_names index push notifying]:
  assumes "pool_submit c s = Some t"
  obtains
    (index) u where "psubs s c = PSubIndex u" "t = s\<lparr>cur_id := cur_id s + 1,
        psubs := (psubs s)(c := PSubPush (submit_target (cur_id s) (p_workers s)) u)\<rparr>"
  | (push) i u where "psubs s c = PSubPush i u"
      "t = s\<lparr>pqueue := (pqueue s)(i := pqueue s i @ [u]), psubs := (psubs s)(c := PSubNotify i)\<rparr>"
  | (notifying) i where "psubs s c = PSubNotify i" "t = (pnotify i s)\<lparr>psubs := (psubs s)(c := PSubNone)\<rparr>"
  using assms by (auto simp: pool_submit_def split: psub.splits)

lemma pool_shape_target:
  "pool_shape b n m s \<Longrightarrow> psubs s c = p \<Longrightarrow> psub_target p = Some i \<Longrightarrow> i < n"
  by (auto simp: pool_shape_def)

lemma pool_shape_step:
  assumes "pool_step s a = Some t" "pool_shape b n m s" "0 < n"
  shows "pool_shape b n m t"
proof (cases a)
  case (PWork w free)
  then have w: "w < p_workers s" and st: "pool_worker w free s = Some t"
    using assms(1) by (auto split: if_splits)
  from pool_worker_frame [OF st] have "\<exists>u. ppcs t c = PRun u"
    if "\<exists>u. ppcs s c = PRun u" "psubs s c \<noteq> PSubNone" for c
    using that by (cases "c = w") auto
  with pool_worker_frame [OF st] assms(2) show ?thesis
    unfolding pool_shape_def by simp
next
  case (PSpurious w)
  then have "t = pgoto w PWoken s" "ppcs s w = PWait" using assms(1) by (auto split: if_splits)
  with assms(2) show ?thesis by (auto simp: pgoto_def pool_shape_def)
next
  case (PSubmit c)
  then have "c < p_all s" and st: "pool_submit c s = Some t"
    using assms(1) by (auto split: if_splits)
  have n: "p_workers s = n" using assms(2) by (simp add: pool_shape_def)
  from st show ?thesis
  proof (cases rule: pool_submit_cases)
    case (index u)
    then show ?thesis using assms(3) n
      by (intro pool_shape_upd [OF assms(2), of _ c "PSubPush (submit_target (cur_id s) n) u"])
        (auto simp: submit_target_def)
  next
    case (push i u)
    then show ?thesis using pool_shape_target [OF assms(2)]
      by (intro pool_shape_upd [OF assms(2), of _ c "PSubNotify i"]) auto
  next
    case (notifying i)
    then show ?thesis
      by (intro pool_shape_upd [OF assms(2), of _ c PSubNone]) auto
  qed
next
  case (PBegin c u)
  with assms pool_begin_Some [of c u s t] show ?thesis
    by (auto simp: pool_shape_def split: if_splits)
next
  case PDestroy
  then have "pool_dtor s = Some t" using assms(1) by simp
  then have fr: "nested t = nested s \<and> p_workers t = p_workers s \<and> p_all t = p_all s \<and> psubs t = psubs s \<and>
      (\<forall>v u. ppcs t v = PRun u \<longleftrightarrow> ppcs s v = PRun u) \<and> (dtor s = DNone \<longrightarrow> outside_idle s)"
    by (cases "dtor s") (auto simp: pool_dtor_def split: if_splits)
  have "psubs s c = PSubNone" if "n \<le> c" for c
  proof (cases "dtor s = DNone \<and> c < n + m")
    case True
    with fr that assms(2) show ?thesis by (auto simp: outside_idle_def pool_shape_def)
  next
    case False
    with that assms(2) show ?thesis unfolding pool_shape_def by (metis leI)
  qed
  with fr assms(2) show ?thesis unfolding pool_shape_def by simp
qed

lemma pool_worker_exit:
  assumes "pool_worker w free s = Some t"
  shows "(ppcs t w = PExit \<longrightarrow> pstop s w \<and> pqueue t w = []) \<and> ppcs s w \<noteq> PExit \<and>
    (\<forall>v. pqueue s v = [] \<longrightarrow> pqueue t v = [])"
  using assms
  by (cases "ppcs s w")
    (auto simp: pool_worker_defs steal_try_def split: list.splits if_splits option.splits)

lemma pool_stops_step:
  assumes "pool_step s a = Some t" "pool_shape b n m s" "pool_stops s"
  shows "pool_stops t"
proof (cases a)
  case (PWork w free)
  then have st: "pool_worker w free s = Some t" using assms(1) by (auto split: if_splits)
  note fr = pool_worker_frame [OF st] and ex = pool_worker_exit [OF st]
  have "ppcs t v = PExit \<Longrightarrow> pstop s v \<and> (\<not> nested s \<longrightarrow> pqueue t v = [])" for v
    using fr ex assms(3) by (cases "v = w") (auto simp: pool_stops_def)
  moreover have "ppcs s v = PExit \<Longrightarrow> ppcs t v = PExit" for v
    using fr ex by (cases "v = w") auto
  ultimately show ?thesis using fr assms(3) by (simp add: pool_stops_def)
next
  case (PSpurious w)
  with assms show ?thesis by (auto simp: pgoto_def pool_stops_def split: if_splits)
next
  case (PSubmit c)
  then have "c < p_all s" and st: "pool_submit c s = Some t"
    using assms(1) by (auto split: if_splits)
  from st show ?thesis
  proof (cases rule: pool_submit_cases)
    case (push i u)
    have "ppcs s v \<noteq> PExit" if "\<not> nested s" for v
    proof -
      have "n \<le> c" using that push(1) assms(2) unfolding pool_shape_def by (metis leI psub.distinct(3))
      with push(1) assms(2) have "dtor s = DNone" unfolding pool_shape_def by (metis psub.distinct(3))
      then show ?thesis using assms(3) by (auto simp: pool_stops_def)
    qed
    with push assms(3) show ?thesis by (auto simp: pool_stops_def)
  qed (use assms(3) in \<open>auto simp: pool_stops_def\<close>)
next
  case (PBegin c u)
  with assms pool_begin_Some [of c u s t] show ?thesis by (auto simp: pool_stops_def)
next
  case PDestroy
  with assms show ?thesis
    by (cases "dtor s") (auto simp: pool_dtor_def pool_stops_def less_Suc_eq split: if_splits)
qed

lemma pool_worker_wait:
  assumes "pool_worker w free s = Some t"
  shows "ppcs t w = PWait \<Longrightarrow> pqueue t w = [] \<and> \<not> pstop s w"
  using assms
  by (cases "ppcs s w")
    (auto simp: pool_worker_defs steal_try_def split: list.splits if_splits option.splits)

lemma pool_wakes_step:
  assumes "pool_step s a = Some t" "pool_wakes s"
  shows "pool_wakes t"
proof (cases a)
  case (PWork w free)
  then have st: "pool_worker w free s = Some t" using assms(1) by (auto split: if_splits)
  note fr = pool_worker_frame [OF st] and ex = pool_worker_exit [OF st]
  show ?thesis
    unfolding pool_wakes_def
  proof (intro allI impI)
    fix v
    assume v: "ppcs t v = PWait"
    show "(pqueue t v \<noteq> [] \<longrightarrow> (\<exists>c<p_all t. psubs t c = PSubNotify v)) \<and>
      (pstop t v \<longrightarrow> dtor t = DNotify v)"
    proof (cases "v = w")
      case True
      with pool_worker_wait [OF st] v fr show ?thesis by auto
    next
      case False
      with v fr have "ppcs s v = PWait" by auto
      with assms(2) fr ex show ?thesis by (auto simp: pool_wakes_def)
    qed
  qed
next
  case (PSpurious w)
  with assms show ?thesis by (auto simp: pgoto_def pool_wakes_def split: if_splits)
next
  case (PSubmit c)
  then have c: "c < p_all s" and st: "pool_submit c s = Some t"
    using assms(1) by (auto split: if_splits)
  have keep: "\<exists>d<p_all s. d \<noteq> c \<and> psubs s d = PSubNotify v"
    if "ppcs s v = PWait" "pqueue s v \<noteq> []" "psubs s c \<noteq> PSubNotify v" for v
    using assms(2) that by (auto simp: pool_wakes_def)
  have notify: "pstop s v \<Longrightarrow> dtor s = DNotify v" if "ppcs s v = PWait" for v
    using assms(2) that by (auto simp: pool_wakes_def)
  from st show ?thesis
  proof (cases rule: pool_submit_cases)
    case (index u)
    then show ?thesis using keep notify by (fastforce simp: pool_wakes_def)
  next
    case (push i u)
    then show ?thesis using keep notify c by (fastforce simp: pool_wakes_def)
  next
    case (notifying i)
    then show ?thesis using keep notify by (fastforce simp: pool_wakes_def)
  qed
next
  case (PBegin c u)
  then have st: "pool_begin c u s = Some t" using assms(1) by simp
  have "psubs t d = PSubNotify v \<longleftrightarrow> psubs s d = PSubNotify v" for d v
    using pool_begin_Some [OF st] by auto
  with pool_begin_Some [OF st] assms(2) show ?thesis by (auto simp: pool_wakes_def)
next
  case PDestroy
  with assms show ?thesis
    by (cases "dtor s") (auto simp: pool_dtor_def pool_wakes_def split: if_splits)
qed

lemma pool_ok_step:
  assumes "pool_ok b n m s" "pool_step s a = Some t"
  shows "pool_ok b n m t"
  using assms pool_shape_step [of s a t b n m] pool_books_step [of s a t b n m]
    pool_stops_step [of s a t b n m] pool_wakes_step [of s a t]
  by (simp add: pool_ok_def)

interpretation pool: machine pool_step "pool_ok b n m" for b n m
  by unfold_locales (rule pool_ok_step)

lemma pool_reach_ok: "pool_reach b n m s \<Longrightarrow> 0 < n \<Longrightarrow> pool_ok b n m s"
  by (induction rule: pool_reach.induct) (auto intro: pool_ok_init pool_ok_step)

lemma pool_ok_drained:
  assumes "pool_ok False n m s" "dtor s = DDone"
  shows "pborn s = pdone s"
proof -
  have ok: "pool_shape False n m s" "pool_books s" "pool_stops s"
    using assms(1) by (simp_all add: pool_ok_def)
  have exits: "ppcs s w = PExit \<and> pqueue s w = []" if "w < p_workers s" for w
    using that ok(1,3) assms(2) by (auto simp: pool_stops_def pool_shape_def)
  have subs: "psubs s c = PSubNone" for c
    using ok(1) assms(2) by (cases "c < n") (auto simp: pool_shape_def)
  have "pool_located s x = 0" for x
    using exits subs by (simp add: pool_located_def tally_empty)
  then show ?thesis using ok(2) by (intro multiset_eqI) (simp add: pool_books_def)
qed

section \<open>Properties\<close>

lemma pool_run_ok:
  "0 < n \<Longrightarrow> exec_all pool_step (init_pool b n m) acts = Some s \<Longrightarrow> pool_ok b n m s"
  by (rule pool.run_good [OF pool_ok_init])

definition pool_everywhere :: "pool \<Rightarrow> ptask multiset" where
  "pool_everywhere s = array_contents (p_workers s) (pqueue s) +
     (\<Sum>w<p_workers s. phand (ppcs s w)) + (\<Sum>c<p_all s. psub_hand (psubs s c))"

lemma count_pool_everywhere: "int (count (pool_everywhere s) x) = pool_located s x"
  by (simp add: pool_everywhere_def pool_located_def array_contents_def tally_sum)

lemma pool_books_mset: "pool_books s \<Longrightarrow> pborn s = pdone s + pool_everywhere s"
  by (intro multiset_eqI)
    (simp add: pool_books_def flip: count_pool_everywhere of_nat_add)

text \<open>A run of two workers and one other thread; the tasks submit tasks during destruction.\<close>

definition pool_start :: "paction list" where
  "pool_start = [PBegin 2 7] @ replicate 3 (PSubmit 2) @ [PBegin 2 8] @ replicate 3 (PSubmit 2) @
     replicate 1 (PWork 0 True)"

definition pool_nested_trace :: "paction list" where
  "pool_nested_trace = pool_start @ replicate 6 PDestroy @ replicate 3 (PWork 1 True) @
     [PBegin 0 9] @ replicate 3 (PSubmit 0) @ [PBegin 0 10] @ replicate 3 (PSubmit 0) @
     replicate 4 (PWork 0 True) @ replicate 3 PDestroy"

definition pool_plain_trace :: "paction list" where
  "pool_plain_trace = pool_start @ replicate 6 PDestroy @ replicate 3 (PWork 1 True) @
     replicate 2 (PWork 0 True) @ replicate 3 PDestroy"

definition pool_sleep_trace :: "paction list" where
  "pool_sleep_trace = [PWork 0 True, PWork 0 True, PWork 0 True] @
     [PBegin 1 7] @ replicate 2 (PSubmit 1)"

lemma pool_start_state:
  "map_option (\<lambda>s. (ppcs s 0, pqueue s 1)) (exec_all pool_step (init_pool True 2 1) pool_start) =
   Some (PRun 7, [8])"
  by code_simp

lemma pool_nested_state:
  "map_option (\<lambda>s. (dtor s, pqueue s 1, pdone s))
     (exec_all pool_step (init_pool True 2 1) pool_nested_trace) =
   Some (DDone, [10], mset [9, 7, 8])"
  by code_simp

lemma pool_plain_state:
  "map_option (\<lambda>s. (dtor s, pdone s)) (exec_all pool_step (init_pool False 2 1) pool_plain_trace) =
   Some (DDone, mset [7, 8])"
  by code_simp

lemma pool_sleep_state:
  "map_option (\<lambda>s. (ppcs s 0, pqueue s 0)) (exec_all pool_step (init_pool False 1 1) pool_sleep_trace) =
   Some (PWait, [7])"
  by code_simp

text \<open>
  C18: the pool runs every task once. In every reachable state the submitted tasks are, as a
  multiset, those that were executed, plus those in the queues, those that a worker executes,
  and those inside a call of \<^verbatim>\<open>submit\<close>.\<close>

theorem pool_conserves_tasks:
  assumes "pool_reach b n m s" "0 < n"
  shows "pborn s = pdone s + (array_contents n (pqueue s) +
    (\<Sum>w<n. phand (ppcs s w)) + (\<Sum>c<n + m. psub_hand (psubs s c)))"
  using pool_reach_ok [OF assms] pool_books_mset [of s]
  by (simp add: pool_ok_def pool_shape_def pool_everywhere_def)

theorem pool_conserves_tasks_witness:
  "\<exists>s::pool. ppcs s 0 = PRun 7 \<and> pborn s = pdone s + (array_contents 2 (pqueue s) +
    (\<Sum>w<2. phand (ppcs s w)) + (\<Sum>c<2 + 1. psub_hand (psubs s c)))"
proof -
  obtain s where s: "exec_all pool_step (init_pool True 2 1) pool_start = Some s" "ppcs s 0 = PRun 7"
    using pool_start_state by auto
  from pool_conserves_tasks [OF pool_exec_reach [OF s(1)]] s(2) show ?thesis
    by - (rule exI [of _ s], simp)
qed

text \<open>
  C19: the pool loses no wake-up. A worker that is blocked on its condition variable while
  its queue holds a task will be notified by the thread that pushed it; one that is blocked while
  its stop flag is set will be notified by the destructor.\<close>

theorem pool_no_lost_wakeup:
  assumes "pool_reach b n m s" "0 < n" "ppcs s w = PWait"
  shows "(pqueue s w \<noteq> [] \<longrightarrow> (\<exists>c<n + m. psubs s c = PSubNotify w)) \<and>
    (pstop s w \<longrightarrow> dtor s = DNotify w)"
  using pool_reach_ok [OF assms(1,2)] assms(3)
  by (auto simp: pool_ok_def pool_wakes_def pool_shape_def)

theorem pool_no_lost_wakeup_witness:
  "\<exists>s::pool. ppcs s 0 = PWait \<and> pqueue s 0 \<noteq> [] \<and> (\<exists>c<1 + 1. psubs s c = PSubNotify 0)"
proof -
  obtain s where s: "exec_all pool_step (init_pool False 1 1) pool_sleep_trace = Some s"
    "ppcs s 0 = PWait" "pqueue s 0 = [7]"
    using pool_sleep_state by auto
  from pool_no_lost_wakeup [OF pool_exec_reach [OF s(1)] _ s(2)] s(2,3) show ?thesis
    by - (rule exI [of _ s], simp)
qed

text \<open>
  Destruction does not hang on a sleeping worker. Once the destructor joins, every
  worker has returned, executes a task, or can take its next step.\<close>

theorem pool_join_progress:
  assumes "pool_reach b n m s" "0 < n" "dtor s = DJoin i" "v < n"
  shows "ppcs s v = PExit \<or> (\<exists>t. ppcs s v = PRun t) \<or> pool_step s (PWork v True) \<noteq> None"
proof -
  have ok: "pool_shape b n m s" "pool_stops s" "pool_wakes s"
    using pool_reach_ok [OF assms(1,2)] by (simp_all add: pool_ok_def)
  have "pstop s v" using ok(1,2) assms(3,4) by (simp add: pool_stops_def pool_shape_def)
  then have "ppcs s v \<noteq> PWait" using ok(3) assms(3) by (auto simp: pool_wakes_def)
  moreover have "p_workers s = n" using ok(1) by (simp add: pool_shape_def)
  ultimately show ?thesis using assms(4) by (cases "ppcs s v") (auto simp: pool_worker_def)
qed

lemma pool_join_state:
  "map_option dtor (exec_all pool_step (init_pool True 2 1) (pool_start @ replicate 6 PDestroy)) =
   Some (DJoin 0)"
  by code_simp

theorem pool_join_progress_witness:
  "\<exists>s::pool. dtor s = DJoin 0 \<and>
    (ppcs s 1 = PExit \<or> (\<exists>t. ppcs s 1 = PRun t) \<or> pool_step s (PWork 1 True) \<noteq> None)"
proof -
  obtain s where s: "exec_all pool_step (init_pool True 2 1) (pool_start @ replicate 6 PDestroy) = Some s"
    "dtor s = DJoin 0"
    using pool_join_state by auto
  from pool_join_progress [OF pool_exec_reach [OF s(1)] _ s(2), of 1] s(2) show ?thesis
    by - (rule exI [of _ s], simp)
qed

text \<open>
  Destruction drains the pool. If the tasks do not submit tasks themselves, every task
  that was submitted has been executed when the destructor returns.\<close>

theorem pool_drained:
  assumes "pool_reach False n m s" "0 < n" "dtor s = DDone"
  shows "pborn s = pdone s"
  by (rule pool_ok_drained [OF pool_reach_ok [OF assms(1,2)] assms(3)])

theorem pool_drained_witness: "\<exists>s::pool. dtor s = DDone \<and> pdone s = mset [7, 8] \<and> pborn s = pdone s"
proof -
  obtain s where s: "exec_all pool_step (init_pool False 2 1) pool_plain_trace = Some s"
    "dtor s = DDone" "pdone s = mset [7, 8]"
    using pool_plain_state by auto
  from pool_drained [OF pool_exec_reach [OF s(1)] _ s(2)] s(2,3) show ?thesis
    by - (rule exI [of _ s], simp)
qed

text \<open>
  Destruction can drop a task that a task submitted. \<^verbatim>\<open>submit\<close> picks the queue by the
  counter alone; a worker that has already returned never looks at its queue again and the
  stopping workers no longer steal, so the destructor returns with a task in a queue.\<close>

theorem pool_loses_nested_task:
  "\<exists>s. pool_reach True 2 1 s \<and> dtor s = DDone \<and> pqueue s 1 = [10] \<and> pdone s = mset [9, 7, 8]"
proof -
  obtain s where s: "exec_all pool_step (init_pool True 2 1) pool_nested_trace = Some s"
    "dtor s = DDone" "pqueue s 1 = [10]" "pdone s = mset [9, 7, 8]"
    using pool_nested_state by auto
  then show ?thesis by (intro exI [of _ s] conjI pool_exec_reach [OF s(1)])
qed

end
