(* ===== verification/Koro_Pool_Shutdown.thy ===== *)
theory Koro_Pool_Shutdown
  imports Koro_Pool
begin

text \<open>
  The destructor of \<^verbatim>\<open>ThreadPool\<close> returns: from the moment it begins, if the tasks do not
  submit tasks themselves, the machine of \<^verbatim>\<open>Koro_Pool\<close> comes to rest after a bounded number
  of steps with every task executed. A task is one step here; the bound counts steps of the pool.
\<close>

section \<open>The steps of the destruction\<close>

text \<open>All but spurious wake-ups, of which there may be any number.\<close>

fun spurious :: "paction \<Rightarrow> bool" where
  "spurious (PSpurious w) = True"
| "spurious _ = False"

definition pool_down_step :: "pool \<Rightarrow> paction \<Rightarrow> pool option" where
  "pool_down_step s a = (if spurious a then None else pool_step s a)"

lemma exec_pool_down:
  "(\<forall>a \<in> set acts. \<not> spurious a) \<Longrightarrow> exec_all pool_step s acts = Some t \<Longrightarrow>
   exec_all pool_down_step s acts = Some t"
  by (induction acts arbitrary: s) (auto simp: pool_down_step_def split: option.splits)

definition going_down :: "nat \<Rightarrow> nat \<Rightarrow> pool \<Rightarrow> bool" where
  "going_down n m s \<longleftrightarrow> pool_ok False n m s \<and> dtor s \<noteq> DNone"

section \<open>The work that is left\<close>

text \<open>
  Of a worker of a pool of \<open>n\<close>: \<open>e\<close> whether its queue is empty, \<open>b\<close> whether it has been told
  to stop. Each queued task weighs more than a task that runs, which weighs more than one search
  for tasks.
\<close>

fun ppc_work :: "nat \<Rightarrow> bool \<Rightarrow> bool \<Rightarrow> ppc \<Rightarrow> nat" where
  "ppc_work n e b PTop = (if \<not> e then 0 else if b then 1 else n + 4)"
| "ppc_work n e b (PSteal i) = 3 + (n - i)"
| "ppc_work n e b PRecheck = 2"
| "ppc_work n e b PWait = 0"
| "ppc_work n e b PWoken = 2"
| "ppc_work n e b (PRun t) = n + 6"
| "ppc_work n e b PExit = 0"

fun dtor_work :: "nat \<Rightarrow> dpc \<Rightarrow> nat" where
  "dtor_work n DNone = 0"
| "dtor_work n (DStop i) = n + 2 + 4 * (n - i)"
| "dtor_work n (DNotify i) = n + 5 + 4 * (n - Suc i)"
| "dtor_work n (DJoin i) = Suc (n - i)"
| "dtor_work n DDone = 0"

definition worker_work :: "pool \<Rightarrow> nat \<Rightarrow> nat" where
  "worker_work s w = ppc_work (p_workers s) (pqueue s w = []) (pstop s w) (ppcs s w) +
     2 * (p_workers s + 6) * length (pqueue s w)"

definition pool_work :: "pool \<Rightarrow> nat" where
  "pool_work s = dtor_work (p_workers s) (dtor s) + (\<Sum>w<p_workers s. worker_work s w)"

lemma ppc_work_empty: "ppc_work n e b p \<le> ppc_work n e' b p + (n + 4)"
  by (cases p) auto

text \<open>A worker's step.\<close>

lemma worker_works:
  assumes "pool_worker w free s = Some t" "w < p_workers s"
  shows "(\<Sum>v<p_workers s. worker_work t v) < (\<Sum>v<p_workers s. worker_work s v)"
proof -
  note fr = pool_worker_frame [OF assms(1)]
  have n: "p_workers t = p_workers s" using fr by simp
  have other: "worker_work t v = worker_work s v" if "v \<noteq> w" "pqueue t v = pqueue s v" for v
    using fr that by (simp add: worker_work_def)
  show ?thesis
  proof (cases "\<exists>i. ppcs s w = PSteal i \<and> i < p_workers s \<and>
      steal_try ((w + i) mod p_workers s) free (pqueue s) \<noteq> None")
    case False
    have "\<forall>v. v \<noteq> w \<longrightarrow> pqueue t v = pqueue s v"
      using assms(1) False
      by (cases "ppcs s w") (auto simp: pool_worker_defs split: list.splits if_splits option.splits)
    moreover have "worker_work t w < worker_work s w"
      using assms False
      by (cases "ppcs s w") (auto simp: pool_worker_defs worker_work_def split: list.splits if_splits option.splits)
    ultimately show ?thesis by (intro sum_one_less [OF assms(2)] other) auto
  next
    case True
    then obtain i where i: "ppcs s w = PSteal i" "i < p_workers s"
      and st: "steal_try ((w + i) mod p_workers s) free (pqueue s) \<noteq> None" by auto
    define u where "u = (w + i) mod p_workers s"
    have u: "u < p_workers s" using assms(2) by (simp add: u_def)
    have q: "pqueue s u \<noteq> []" using st by (auto simp: steal_try_def u_def split: if_splits)
    have t: "t = pgoto w (PRun (last (pqueue s u))) (s\<lparr>pqueue := (pqueue s)(u := butlast (pqueue s u))\<rparr>)"
      using assms(1) i st by (auto simp: pool_worker_def pool_steal_def steal_try_def u_def split: if_splits)
    have len: "length (pqueue s u) = Suc (length (butlast (pqueue s u)))" using q by (cases "pqueue s u" rule: rev_cases) auto
    show ?thesis
    proof (cases "u = w")
      case True
      let ?k = "length (butlast (pqueue s w))"
      have "worker_work t w = p_workers s + 6 + 2 * (p_workers s + 6) * ?k"
        by (simp add: t True worker_work_def pgoto_def)
      moreover have "worker_work s w = 3 + (p_workers s - i) + 2 * (p_workers s + 6) * Suc ?k"
        using len i True unfolding worker_work_def by simp
      ultimately have "worker_work t w < worker_work s w" by simp
      moreover have "pqueue t v = pqueue s v" if "v \<noteq> w" for v using that True by (simp add: t pgoto_def)
      ultimately show ?thesis by (intro sum_one_less [OF assms(2)] other) auto
    next
      case False
      let ?n = "p_workers s"
      have "worker_work t w = ?n + 6 + 2 * (?n + 6) * length (pqueue s w)"
        using False by (simp add: t worker_work_def pgoto_def)
      moreover have "worker_work s w = 3 + (?n - i) + 2 * (?n + 6) * length (pqueue s w)"
        using i by (simp add: worker_work_def)
      moreover have "worker_work t u + 2 * (?n + 6) \<le> worker_work s u + (?n + 4)"
      proof -
        let ?k = "length (butlast (pqueue s u))"
        have "worker_work t u = ppc_work ?n (butlast (pqueue s u) = []) (pstop s u) (ppcs s u) + 2 * (?n + 6) * ?k"
          using False by (simp add: t worker_work_def pgoto_def)
        moreover have "worker_work s u = ppc_work ?n (pqueue s u = []) (pstop s u) (ppcs s u) + 2 * (?n + 6) * Suc ?k"
          using len unfolding worker_work_def by simp
        ultimately show ?thesis
          using ppc_work_empty [of ?n "butlast (pqueue s u) = []" "pstop s u" "ppcs s u" "pqueue s u = []"]
          by simp
      qed
      ultimately have "worker_work t w + worker_work t u < worker_work s w + worker_work s u"
        by simp
      moreover have "pqueue t v = pqueue s v" if "v \<noteq> u" for v using that by (simp add: t pgoto_def)
      ultimately show ?thesis
        using False by (intro sum_two_less [OF assms(2) u] other) auto
    qed
  qed
qed

text \<open>A step of the destructor.\<close>

lemma dtor_works:
  assumes ok: "pool_ok False n m s" and dn: "dtor s \<noteq> DNone" and st: "pool_dtor s = Some t"
  shows "pool_work t < pool_work s" "dtor t \<noteq> DNone"
proof -
  let ?n = "p_workers s"
  show "dtor t \<noteq> DNone" using dn st by (cases "dtor s") (auto simp: pool_dtor_def split: if_splits)
  have n: "p_workers t = ?n" using st by (cases "dtor s") (auto simp: pool_dtor_def split: if_splits)
  show "pool_work t < pool_work s"
  proof (cases "dtor s")
    case (DStop i)
    have "worker_work t w \<le> worker_work s w" for w
      using st DStop by (cases "ppcs s w") (auto simp: pool_dtor_def worker_work_def split: if_splits)
    then have "(\<Sum>w<?n. worker_work t w) \<le> (\<Sum>w<?n. worker_work s w)" by (intro sum_mono) auto
    moreover have "dtor_work ?n (dtor t) < dtor_work ?n (dtor s)"
      using st DStop by (auto simp: pool_dtor_def split: if_splits)
    ultimately show ?thesis by (simp add: pool_work_def n)
  next
    case (DNotify i)
    then have t: "t = (pnotify i s)\<lparr>dtor := DStop (Suc i)\<rparr>" using st by (simp add: pool_dtor_def)
    have i: "i < ?n" using ok DNotify by (auto simp: pool_ok_def pool_stops_def)
    have w: "worker_work t i \<le> worker_work s i + 2" "\<And>v. v \<noteq> i \<Longrightarrow> worker_work t v = worker_work s v"
      by (auto simp: t worker_work_def pnotify_def pgoto_def)
    have "(\<Sum>v<?n. worker_work t v) = worker_work t i + (\<Sum>v\<in>{..<?n} - {i}. worker_work t v)"
      "(\<Sum>v<?n. worker_work s v) = worker_work s i + (\<Sum>v\<in>{..<?n} - {i}. worker_work s v)"
      using i by (simp_all add: sum.remove)
    moreover have "(\<Sum>v\<in>{..<?n} - {i}. worker_work t v) = (\<Sum>v\<in>{..<?n} - {i}. worker_work s v)"
      by (rule sum.cong) (use w(2) in auto)
    ultimately have "(\<Sum>v<?n. worker_work t v) \<le> (\<Sum>v<?n. worker_work s v) + 2" using w(1) by simp
    then show ?thesis using DNotify by (simp add: pool_work_def n, simp add: t)
  next
    case (DJoin i)
    then have "\<forall>w. worker_work t w = worker_work s w" "dtor_work ?n (dtor t) < dtor_work ?n (dtor s)"
      using st by (auto simp: pool_dtor_def worker_work_def split: if_splits)
    then show ?thesis by (simp add: pool_work_def n)
  qed (use dn st in \<open>auto simp: pool_dtor_def\<close>)
qed

lemma going_down_calm: "going_down n m s \<Longrightarrow> psubs s c = PSubNone"
  unfolding going_down_def pool_ok_def pool_shape_def by (metis not_le_imp_less)

lemma going_down_step:
  assumes ok: "going_down n m s" and st: "pool_down_step s a = Some t"
  shows "going_down n m t \<and> pool_work t < pool_work s"
proof -
  have sa: "pool_step s a = Some t" "\<not> spurious a"
    using st by (auto simp: pool_down_step_def split: if_splits)
  have inv: "pool_ok False n m t"
    using ok sa(1) pool_ok_step by (auto simp: going_down_def)
  show ?thesis
  proof (cases a)
    case (PWork w free)
    then have w: "w < p_workers s" "pool_worker w free s = Some t" using sa(1) by (auto split: if_splits)
    from pool_worker_frame [OF w(2)] worker_works [OF w(2,1)] ok inv show ?thesis
      by (simp add: going_down_def pool_work_def)
  next
    case (PSpurious w)
    with sa(2) show ?thesis by simp
  next
    case (PSubmit c)
    with sa(1) going_down_calm [OF ok, of c] show ?thesis by (auto simp: pool_submit_def split: if_splits)
  next
    case (PBegin c u)
    with sa(1) ok pool_begin_Some [of c u s t] show ?thesis
      by (cases "c < p_workers s") (auto simp: going_down_def pool_ok_def pool_shape_def)
  next
    case PDestroy
    then have "pool_dtor s = Some t" using sa(1) by simp
    with dtor_works [of n m s t] ok inv show ?thesis by (simp add: going_down_def)
  qed
qed

lemma going_down_possible:
  assumes ok: "going_down n m s" and nd: "dtor s \<noteq> DDone"
  shows "\<exists>a. True \<and> pool_down_step s a \<noteq> None"
proof (cases "pool_dtor s = None")
  case False
  then show ?thesis by (intro exI [of _ PDestroy]) (simp add: pool_down_step_def)
next
  case True
  have inv: "pool_shape False n m s" "pool_stops s" "pool_wakes s" and dn: "dtor s \<noteq> DNone"
    using ok by (simp_all add: going_down_def pool_ok_def)
  obtain w where w: "dtor s = DJoin w" "w < p_workers s" "ppcs s w \<noteq> PExit"
    using True nd dn by (cases "dtor s") (auto simp: pool_dtor_def split: if_splits)
  have "pstop s w" using inv(2) w by (simp add: pool_stops_def)
  then have "ppcs s w \<noteq> PWait" using inv(3) w(1) by (auto simp: pool_wakes_def)
  then have "pool_worker w True s \<noteq> None"
    using w(3) going_down_calm [OF ok, of w] by (cases "ppcs s w") (auto simp: pool_worker_def pool_finish_def)
  then show ?thesis
    using w(2) by (intro exI [of _ "PWork w True"]) (simp add: pool_down_step_def)
qed

interpretation pool_down: resting_machine pool_down_step "going_down n m" pool_work "\<lambda>_. True" "\<lambda>s. dtor s = DDone"
  for n m
  by unfold_locales (use going_down_step going_down_possible in blast)+

section \<open>Properties\<close>

text \<open>
  C20: the destructor of the pool returns. Once it has begun, and if tasks do not submit tasks,
  every run, whatever the schedule and the outcome of the attempts to lock, has a bounded number of
  steps other than spurious wake-ups, and can always go on until the destructor returns; then every
  submitted task has been executed.\<close>

theorem pool_destruction_completes:
  assumes "pool_reach False n m s" "0 < n" "dtor s \<noteq> DNone"
    and "exec_all pool_step s acts = Some t" "\<forall>a \<in> set acts. \<not> spurious a"
  shows "length acts \<le> pool_work s \<and>
    (dtor t = DDone \<and> pborn t = pdone t \<or> (\<exists>a. \<not> spurious a \<and> pool_step t a \<noteq> None))"
proof -
  have ok: "going_down n m s" using pool_reach_ok [OF assms(1,2)] assms(3) by (simp add: going_down_def)
  note run = exec_pool_down [OF assms(5,4)]
  have "going_down n m t" by (rule pool_down.run_good [OF ok run])
  then have "dtor t = DDone \<Longrightarrow> pborn t = pdone t" by (auto simp: going_down_def dest: pool_ok_drained)
  moreover have "length acts \<le> pool_work s \<and> (dtor t = DDone \<or> (\<exists>a. True \<and> pool_down_step t a \<noteq> None))"
    by (rule pool_down.run_rests [OF ok run])
  ultimately show ?thesis by (auto simp: pool_down_step_def split: if_splits)
qed

lemma pool_begun_state:
  "map_option (\<lambda>s. (dtor s, pool_work s, pdone s))
     (exec_all pool_step (init_pool False 2 1) (pool_start @ [PDestroy])) = Some (DStop 0, 36, {#})"
  "map_option dtor
     (exec_all pool_step (init_pool False 2 1) ((pool_start @ [PDestroy]) @
        replicate 5 PDestroy @ replicate 3 (PWork 1 True))) = Some (DJoin 0)"
  by code_simp+

theorem pool_destruction_completes_witness:
  "\<exists>s t. dtor s = DStop 0 \<and> pdone s = {#} \<and> dtor t = DJoin 0 \<and>
     exec_all pool_step s (replicate 5 PDestroy @ replicate 3 (PWork 1 True)) = Some t \<and>
     pool_work s = 36 \<and> (\<exists>a. \<not> spurious a \<and> pool_step t a \<noteq> None)"
proof -
  let ?acts = "replicate 5 PDestroy @ replicate 3 (PWork 1 True)"
  obtain s where s: "exec_all pool_step (init_pool False 2 1) (pool_start @ [PDestroy]) = Some s"
    "dtor s = DStop 0" "pool_work s = 36" "pdone s = {#}"
    using pool_begun_state(1) by auto
  have "map_option dtor (exec_all pool_step s ?acts) = Some (DJoin 0)"
    using pool_begun_state(2) s(1) unfolding exec_all_append [of _ _ "pool_start @ [PDestroy]"]
    by (simp only: option.case)
  then obtain t where t: "exec_all pool_step s ?acts = Some t" "dtor t = DJoin 0" by blast
  have "\<forall>a \<in> set ?acts. \<not> spurious a" by auto
  with pool_destruction_completes [OF pool_exec_reach [OF s(1)] _ _ t(1)] s(2) t(2)
  have "\<exists>a. \<not> spurious a \<and> pool_step t a \<noteq> None" by auto
  with s t show ?thesis by blast
qed

end
