(* ===== verification/Koro_Inplace.thy ===== *)
theory Koro_Inplace
  imports Work_Queues
begin

text \<open>
  \<^verbatim>\<open>InplaceFunction\<close> (\<^verbatim>\<open>koro/inplace_function.hpp\<close>), the type of the tasks of the thread
  pool: a buffer that holds a callable object, and a pointer to the table of its operations. The
  model keeps what the buffer really holds, so that applying a table to the wrong object is a
  visible error.
\<close>

section \<open>Objects\<close>

text \<open>
  A callable is a C++ type and a payload that stands for what it captured. \<open>Husk\<close> is an object
  that was moved from: it is still an object of its type, without the payload.
\<close>

datatype cell = Raw | Alive nat nat | Husk nat

record ifn =
  buffer :: cell
  vtable :: "nat option"

definition empty_ifn :: ifn where
  "empty_ifn = \<lparr>buffer = Raw, vtable = None\<rparr>"

text \<open>The three entries of the table of type \<open>ty\<close>; \<^const>\<open>None\<close> is undefined behaviour.\<close>

definition vt_invoke :: "nat \<Rightarrow> cell \<Rightarrow> nat option" where
  "vt_invoke ty c = (case c of Alive ty' p \<Rightarrow> if ty' = ty then Some p else None | _ \<Rightarrow> None)"

text \<open>Returns the new object and what is left in the source.\<close>

definition vt_move :: "nat \<Rightarrow> cell \<Rightarrow> (cell \<times> cell) option" where
  "vt_move ty c = (case c of Alive ty' p \<Rightarrow> if ty' = ty then Some (Alive ty p, Husk ty) else None | _ \<Rightarrow> None)"

text \<open>Returns the payload that the destructor releases.\<close>

definition vt_destroy :: "nat \<Rightarrow> cell \<Rightarrow> nat option" where
  "vt_destroy ty c = (case c of Alive ty' p \<Rightarrow> if ty' = ty then Some p else None | _ \<Rightarrow> None)"

section \<open>A program that uses such objects\<close>

text \<open>
  \<open>vars\<close> variables; \<open>objs i\<close> is \<^const>\<open>None\<close> outside the variable's lifetime. \<open>made\<close>,
  \<open>released\<close> and \<open>called\<close> record the payloads that were put into callables, released
  by destructors, and executed. \<open>bad\<close>: undefined behaviour has happened.
\<close>

record fstore =
  vars :: nat
  objs :: "nat \<Rightarrow> ifn option"
  made :: "nat multiset"
  released :: "nat multiset"
  called :: "nat list"
  bad :: bool

definition init_fstore :: "nat \<Rightarrow> fstore" where
  "init_fstore n = \<lparr>vars = n, objs = (\<lambda>_. None), made = {#}, released = {#}, called = [], bad = False\<rparr>"

definition put :: "nat \<Rightarrow> ifn \<Rightarrow> fstore \<Rightarrow> fstore" where
  "put i f s = s\<lparr>objs := (objs s)(i \<mapsto> f)\<rparr>"

definition undefined_behaviour :: "fstore \<Rightarrow> fstore" where
  "undefined_behaviour s = s\<lparr>bad := True\<rparr>"

text \<open>\<^verbatim>\<open>if (vtable_) vtable_->destroy(buffer_)\<close>, which the destructor and the assignments begin with.\<close>

definition drop_callable :: "nat \<Rightarrow> ifn \<Rightarrow> fstore \<Rightarrow> fstore" where
  "drop_callable i f s =
     (case vtable f of
        None \<Rightarrow> s
      | Some ty \<Rightarrow>
          (case vt_destroy ty (buffer f) of
             None \<Rightarrow> undefined_behaviour s
           | Some p \<Rightarrow> put i (f\<lparr>buffer := Raw\<rparr>) (s\<lparr>released := add_mset p (released s)\<rparr>)))"

text \<open>The part that the move constructor and the move assignment share.\<close>

definition steal_callable :: "nat \<Rightarrow> ifn \<Rightarrow> nat \<Rightarrow> ifn \<Rightarrow> fstore \<Rightarrow> fstore" where
  "steal_callable i f j g s =
     (case vtable g of
        None \<Rightarrow> put i (f\<lparr>vtable := None\<rparr>) s
      | Some ty \<Rightarrow>
          (case vt_move ty (buffer g) of
             None \<Rightarrow> undefined_behaviour s
           | Some (d, r) \<Rightarrow>
               put j (g\<lparr>buffer := r, vtable := None\<rparr>)
                 (put i (f\<lparr>buffer := d, vtable := vtable g\<rparr>) s)))"

definition inplace_new :: "nat \<Rightarrow> nat \<Rightarrow> nat \<Rightarrow> fstore \<Rightarrow> fstore" where
  "inplace_new i ty p s =
     put i \<lparr>buffer = Alive ty p, vtable = Some ty\<rparr> (s\<lparr>made := add_mset p (made s)\<rparr>)"

definition inplace_end :: "nat \<Rightarrow> ifn \<Rightarrow> fstore \<Rightarrow> fstore" where
  "inplace_end i f s = (let s1 = drop_callable i f s in s1\<lparr>objs := (objs s1)(i := None)\<rparr>)"

definition inplace_reset :: "nat \<Rightarrow> ifn \<Rightarrow> fstore \<Rightarrow> fstore" where
  "inplace_reset i f s =
     (let s1 = drop_callable i f s in
      case objs s1 i of None \<Rightarrow> s1 | Some f1 \<Rightarrow> put i (f1\<lparr>vtable := None\<rparr>) s1)"

definition inplace_move_new :: "nat \<Rightarrow> nat \<Rightarrow> ifn \<Rightarrow> fstore \<Rightarrow> fstore" where
  "inplace_move_new i j g s = steal_callable i empty_ifn j g s"

definition inplace_move :: "nat \<Rightarrow> ifn \<Rightarrow> nat \<Rightarrow> ifn \<Rightarrow> fstore \<Rightarrow> fstore" where
  "inplace_move i f j g s =
     (if j = i then s
      else let s1 = drop_callable i f s in
           case objs s1 i of None \<Rightarrow> s1 | Some f1 \<Rightarrow> steal_callable i f1 j g s1)"

definition inplace_call :: "ifn \<Rightarrow> fstore \<Rightarrow> fstore" where
  "inplace_call f s =
     (case vtable f of
        None \<Rightarrow> s
      | Some ty \<Rightarrow>
          (case vt_invoke ty (buffer f) of
             None \<Rightarrow> undefined_behaviour s
           | Some p \<Rightarrow> s\<lparr>called := called s @ [p]\<rparr>))"

definition inplace_bool :: "ifn \<Rightarrow> bool" where
  "inplace_bool f \<longleftrightarrow> vtable f \<noteq> None"

definition inplace_swap :: "nat \<Rightarrow> ifn \<Rightarrow> nat \<Rightarrow> ifn \<Rightarrow> fstore \<Rightarrow> fstore" where
  "inplace_swap i f j g s =
     (if j = i then s else put i (f\<lparr>vtable := vtable g\<rparr>) (put j (g\<lparr>vtable := vtable f\<rparr>) s))"

text \<open>
  An operation is possible when the variables it constructs are not alive, those it uses are,
  and nothing undefined has happened yet.
\<close>

datatype fop = FNull nat | FNew nat nat nat | FMoveNew nat nat | FMove nat nat | FReset nat
  | FCall nat | FSwap nat nat | FEnd nat

fun fop_enabled :: "fstore \<Rightarrow> fop \<Rightarrow> bool" where
  "fop_enabled s (FNull i) = (objs s i = None \<and> i < vars s)"
| "fop_enabled s (FNew i ty p) = (objs s i = None \<and> i < vars s)"
| "fop_enabled s (FMoveNew i j) = (objs s i = None \<and> i < vars s \<and> j < vars s)"
| "fop_enabled s (FMove i j) = (i < vars s \<and> j < vars s)"
| "fop_enabled s (FReset i) = (i < vars s)"
| "fop_enabled s (FCall i) = (i < vars s)"
| "fop_enabled s (FSwap i j) = (i < vars s \<and> j < vars s)"
| "fop_enabled s (FEnd i) = (i < vars s)"

fun fop_run :: "fstore \<Rightarrow> fop \<Rightarrow> fstore option" where
  "fop_run s (FNull i) = Some (put i empty_ifn s)"
| "fop_run s (FNew i ty p) = Some (inplace_new i ty p s)"
| "fop_run s (FMoveNew i j) = map_option (\<lambda>g. inplace_move_new i j g s) (objs s j)"
| "fop_run s (FMove i j) =
     (case (objs s i, objs s j) of (Some f, Some g) \<Rightarrow> Some (inplace_move i f j g s) | _ \<Rightarrow> None)"
| "fop_run s (FReset i) = map_option (\<lambda>f. inplace_reset i f s) (objs s i)"
| "fop_run s (FCall i) = map_option (\<lambda>f. inplace_call f s) (objs s i)"
| "fop_run s (FSwap i j) =
     (case (objs s i, objs s j) of (Some f, Some g) \<Rightarrow> Some (inplace_swap i f j g s) | _ \<Rightarrow> None)"
| "fop_run s (FEnd i) = map_option (\<lambda>f. inplace_end i f s) (objs s i)"

definition fop_step :: "fstore \<Rightarrow> fop \<Rightarrow> fstore option" where
  "fop_step s p = (if \<not> bad s \<and> fop_enabled s p then fop_run s p else None)"

section \<open>Ownership\<close>

fun ifn_ok :: "ifn option \<Rightarrow> bool" where
  "ifn_ok None = True"
| "ifn_ok (Some f) =
     (case vtable f of
        None \<Rightarrow> (case buffer f of Alive ty p \<Rightarrow> False | _ \<Rightarrow> True)
      | Some ty \<Rightarrow> (case buffer f of Alive ty' p \<Rightarrow> ty' = ty | _ \<Rightarrow> False))"

fun owned :: "ifn option \<Rightarrow> nat multiset" where
  "owned None = {#}"
| "owned (Some f) = (case buffer f of Alive ty p \<Rightarrow> {#p#} | _ \<Rightarrow> {#})"

definition fstore_ok :: "fstore \<Rightarrow> bool" where
  "fstore_ok s \<longleftrightarrow> \<not> bad s \<and> (\<forall>i. ifn_ok (objs s i)) \<and>
     (\<forall>x. int (count (made s) x) = int (count (released s) x) + tally (vars s) owned (objs s) x)"

fun is_swap :: "fop \<Rightarrow> bool" where
  "is_swap (FSwap i j) = True"
| "is_swap _ = False"

lemma ifn_ok_cases:
  assumes "ifn_ok (Some f)"
  obtains (empty) "vtable f = None" "owned (Some f) = {#}" "\<And>ty p. buffer f \<noteq> Alive ty p"
  | (full) ty p where "vtable f = Some ty" "buffer f = Alive ty p"
  using assms by (auto split: option.splits cell.splits)

lemmas vt_defs = vt_invoke_def vt_move_def vt_destroy_def

lemmas inplace_defs = put_def drop_callable_def steal_callable_def inplace_new_def inplace_end_def
  inplace_reset_def inplace_move_new_def inplace_move_def inplace_call_def empty_ifn_def

lemma fstore_okD: "fstore_ok s \<Longrightarrow> objs s i = Some f \<Longrightarrow> ifn_ok (Some f)"
  by (metis fstore_ok_def)

lemma fop_step_ok:
  assumes "fstore_ok s" "fop_step s p = Some t" "\<not> is_swap p"
  shows "fstore_ok t"
proof -
  have en: "fop_enabled s p" and run: "fop_run s p = Some t"
    using assms(2) by (auto simp: fop_step_def split: if_splits)
  show ?thesis
  proof (cases p)
    case (FNull i)
    with en run assms(1) show ?thesis by (auto simp: fstore_ok_def inplace_defs)
  next
    case (FNew i ty q)
    with en run assms(1) show ?thesis by (auto simp: fstore_ok_def inplace_defs)
  next
    case (FMoveNew i j)
    with run obtain g where g: "objs s j = Some g" "t = inplace_move_new i j g s" by auto
    from fstore_okD [OF assms(1) g(1)] show ?thesis
      by (cases rule: ifn_ok_cases)
        (use g en FMoveNew assms(1) in \<open>auto simp: fstore_ok_def inplace_defs vt_defs\<close>)
  next
    case (FMove i j)
    with run obtain f g where g: "objs s i = Some f" "objs s j = Some g" "t = inplace_move i f j g s"
      by (auto split: option.splits)
    from fstore_okD [OF assms(1) g(1)] show ?thesis
    proof (cases rule: ifn_ok_cases)
      case empty
      from fstore_okD [OF assms(1) g(2)] show ?thesis
        by (cases rule: ifn_ok_cases)
          (use empty g en FMove assms(1) in
            \<open>auto simp: fstore_ok_def inplace_defs vt_defs split: cell.splits\<close>)
    next
      case (full ty q)
      from fstore_okD [OF assms(1) g(2)] show ?thesis
        by (cases rule: ifn_ok_cases)
          (use full g en FMove assms(1) in \<open>auto simp: fstore_ok_def inplace_defs vt_defs\<close>)
    qed
  next
    case (FReset i)
    with run obtain f where f: "objs s i = Some f" "t = inplace_reset i f s" by auto
    from fstore_okD [OF assms(1) f(1)] show ?thesis
      by (cases rule: ifn_ok_cases)
        (use f en FReset assms(1) in
          \<open>auto simp: fstore_ok_def inplace_defs vt_defs split: cell.splits\<close>)
  next
    case (FCall i)
    with run obtain f where f: "objs s i = Some f" "t = inplace_call f s" by auto
    from fstore_okD [OF assms(1) f(1)] show ?thesis
      by (cases rule: ifn_ok_cases)
        (use f assms(1) in \<open>auto simp: fstore_ok_def inplace_defs vt_defs\<close>)
  next
    case (FEnd i)
    with run obtain f where f: "objs s i = Some f" "t = inplace_end i f s" by auto
    from fstore_okD [OF assms(1) f(1)] show ?thesis
      by (cases rule: ifn_ok_cases)
        (use f en FEnd assms(1) in \<open>auto simp: fstore_ok_def inplace_defs vt_defs Let_def\<close>)
  qed (use assms(3) in simp)
qed

text \<open>The programs that do not call \<^verbatim>\<open>swap\<close> are a machine with this invariant.\<close>

definition fop_step_noswap :: "fstore \<Rightarrow> fop \<Rightarrow> fstore option" where
  "fop_step_noswap s p = (if is_swap p then None else fop_step s p)"

interpretation inplace: machine fop_step_noswap fstore_ok
  by unfold_locales (auto simp: fop_step_noswap_def intro: fop_step_ok split: if_splits)

lemma fstore_ok_init: "fstore_ok (init_fstore n)"
  by (simp add: fstore_ok_def init_fstore_def tally_empty)

lemma exec_noswap:
  "exec_all fop_step s ps = Some t \<Longrightarrow> \<forall>p \<in> set ps. \<not> is_swap p \<Longrightarrow>
   exec_all fop_step_noswap s ps = Some t"
  by (induction ps arbitrary: s) (auto simp: fop_step_noswap_def split: option.splits)

text \<open>
  C33: a callable has one owner. However a program constructs, moves, resets, calls and
  destroys \<^verbatim>\<open>InplaceFunction\<close> variables, as long as it does not call \<^verbatim>\<open>swap\<close>, no table
  is ever applied to the wrong object, and the payloads put into callables are, as a multiset,
  those released by destructors plus those that the variables own.\<close>

theorem inplace_single_owner:
  assumes "exec_all fop_step (init_fstore n) ps = Some s" "\<And>p. p \<in> set ps \<Longrightarrow> \<not> is_swap p"
  shows "\<not> bad s \<and> made s = released s + (\<Sum>i<vars s. owned (objs s i))"
proof -
  have "exec_all fop_step_noswap (init_fstore n) ps = Some s"
    using exec_noswap assms by blast
  then have ok: "fstore_ok s" by (rule inplace.run_good [OF fstore_ok_init])
  then have "made s = released s + (\<Sum>i<vars s. owned (objs s i))"
    by (intro multiset_eqI) (simp add: fstore_ok_def tally_sum flip: of_nat_add)
  with ok show ?thesis by (simp add: fstore_ok_def)
qed

definition move_program :: "fop list" where
  "move_program = [FNew 0 1 10, FNew 1 2 20, FMove 0 1, FCall 0, FCall 1, FMoveNew 2 0, FCall 2,
     FReset 2, FEnd 2, FEnd 1, FEnd 0]"

lemma move_program_result:
  "map_option (\<lambda>s. (called s, released s, vars s)) (exec_all fop_step (init_fstore 3) move_program) =
   Some ([20, 20], mset [20, 10], 3)"
  by code_simp

theorem inplace_single_owner_witness:
  "\<exists>s::fstore. called s = [20, 20] \<and> \<not> bad s \<and>
     made s = released s + (\<Sum>i<vars s. owned (objs s i))"
proof -
  obtain s where s: "exec_all fop_step (init_fstore 3) move_program = Some s" "called s = [20, 20]"
    using move_program_result by auto
  have "\<And>p. p \<in> set move_program \<Longrightarrow> \<not> is_swap p" by (auto simp: move_program_def)
  from inplace_single_owner [OF s(1) this] s(2) show ?thesis by - (rule exI [of _ s], simp)
qed

text \<open>
  A move hands the callable over. After a move assignment between two variables the
  target calls what the source would have called, the source is empty, and what the target owned
  before has been released.\<close>

theorem inplace_move_hands_over:
  assumes "fstore_ok s" "objs s i = Some f" "objs s j = Some g" "i \<noteq> j" "fop_step s (FMove i j) = Some t"
  shows "\<exists>f' g'. objs t i = Some f' \<and> objs t j = Some g' \<and> vtable f' = vtable g \<and>
    owned (objs t i) = owned (objs s j) \<and> inplace_bool g' = False \<and>
    released t = released s + owned (objs s i)"
proof -
  have t: "t = inplace_move i f j g s" using assms(2-5) by (simp add: fop_step_def split: if_splits)
  from fstore_okD [OF assms(1,2)] fstore_okD [OF assms(1,3)] show ?thesis
    using assms(2-4) t
    by (auto simp: inplace_defs vt_defs inplace_bool_def split: option.splits cell.splits)
qed

theorem inplace_move_hands_over_witness:
  "\<exists>t::fstore. released t = {#10#} \<and> owned (objs t 0) = {#20#}"
proof -
  obtain s where s: "exec_all fop_step (init_fstore 2) [FNew 0 1 10, FNew 1 2 20] = Some s"
    "objs s 0 = Some \<lparr>buffer = Alive 1 10, vtable = Some 1\<rparr>"
    "objs s 1 = Some \<lparr>buffer = Alive 2 20, vtable = Some 2\<rparr>" "released s = {#}" "\<not> bad s" "vars s = 2"
    by (simp add: fop_step_def init_fstore_def inplace_new_def put_def)
  have ok: "fstore_ok s"
    by (rule inplace.run_good [OF fstore_ok_init]) (rule exec_noswap [OF s(1)], simp)
  obtain t where t: "fop_step s (FMove 0 1) = Some t" using s by (simp add: fop_step_def)
  from inplace_move_hands_over [OF ok s(2,3) _ t] s(2-4) show ?thesis
    by - (rule exI [of _ t], auto)
qed

text \<open>
  \<^verbatim>\<open>swap\<close> breaks the pairing. It exchanges the tables and leaves the buffers, so
  after swapping a callable with an empty variable a call through the receiving variable applies
  the table to a buffer without an object.\<close>

theorem inplace_swap_breaks_pairing:
  "map_option (\<lambda>s. (called s, bad s))
     (exec_all fop_step (init_fstore 2) [FNew 0 1 10, FNull 1, FSwap 0 1, FCall 1]) = Some ([], True)"
  by code_simp

end
