(* ===== verification/Koro_Channel.thy ===== *)
theory Koro_Channel
  imports Koro_Task
begin

text \<open>
  \<^verbatim>\<open>Channel\<close> (\<^verbatim>\<open>koro/channel.h\<close>, \<^verbatim>\<open>koro/channel.cpp\<close>), \<^verbatim>\<open>EpollPoller\<close>
  (\<^verbatim>\<open>koro/epoll_poller.cpp\<close>) and the descriptor helpers of
  \<^verbatim>\<open>koro/file_descriptor.h\<close>. A system call is an input (its result) and an output (the
  request it makes); \<open>apply_ctl\<close> is the documented effect of a successful
  \<^verbatim>\<open>epoll_ctl\<close> on the interest list.
\<close>

section \<open>Descriptor helpers\<close>

definition O_NONBLOCK :: u32 where
  "O_NONBLOCK = 0x800"

text \<open>
  \<open>getfl\<close> is what \<^verbatim>\<open>fcntl(F_GETFL)\<close> returns, \<open>set_ok\<close> whether
  \<^verbatim>\<open>fcntl(F_SETFL)\<close> succeeds. The result carries the flags that were set, if any.
\<close>

definition setNonBlocking :: "bool \<Rightarrow> u32 \<Rightarrow> bool \<Rightarrow> bool \<times> u32 option" where
  "setNonBlocking on getfl set_ok =
     (if getfl = - 1 then (False, None)
      else let new_flags = (if on then getfl OR O_NONBLOCK else getfl AND NOT O_NONBLOCK) in
           if new_flags = getfl then (True, None)
           else if \<not> set_ok then (False, Some new_flags) else (True, Some new_flags))"

text \<open>\<^verbatim>\<open>FD::close\<close> closes a descriptor once: the second component is the system call it makes.\<close>

definition fd_close :: "int \<Rightarrow> int \<times> int option" where
  "fd_close fd = (if fd \<noteq> - 1 then (- 1, Some fd) else (fd, None))"

text \<open>The flags of the descriptor after the call: those set if the call succeeded.\<close>

definition flags_after :: "u32 \<Rightarrow> bool \<times> u32 option \<Rightarrow> u32" where
  "flags_after getfl r = (case r of (True, Some f) \<Rightarrow> f | _ \<Rightarrow> getfl)"

lemma fd_close_twice: "fd_close (fst (fd_close fd)) = (- 1, None)"
  by (simp add: fd_close_def)

section \<open>Channels\<close>

definition EPOLLIN :: u32 where "EPOLLIN = 0x001"
definition EPOLLOUT :: u32 where "EPOLLOUT = 0x004"
definition EPOLLERR :: u32 where "EPOLLERR = 0x008"
definition EPOLLHUP :: u32 where "EPOLLHUP = 0x010"
definition EPOLLET :: u32 where "EPOLLET = 0x80000000"

lemmas epoll_defs = EPOLLIN_def EPOLLOUT_def EPOLLERR_def EPOLLHUP_def EPOLLET_def

record channel =
  ch_fd :: int
  ch_queue :: "nat option"
  ch_events :: u32
  ch_revents :: u32
  in_epoll :: bool
  read_cb :: "callback option"
  write_cb :: "callback option"
  error_cb :: "callback option"
  time_cb :: "callback option"
  user_non_block :: bool
  sys_non_block :: bool

definition new_channel :: "int \<Rightarrow> nat \<Rightarrow> channel" where
  "new_channel fd q = \<lparr>ch_fd = fd, ch_queue = Some q, ch_events = 0, ch_revents = 0,
     in_epoll = False, read_cb = None, write_cb = None, error_cb = None, time_cb = None,
     user_non_block = False, sys_non_block = False\<rparr>"

text \<open>The setters, which simplification unfolds.\<close>

definition setInEpoll :: "bool \<Rightarrow> channel \<Rightarrow> channel" where
  "setInEpoll b ch = ch\<lparr>in_epoll := b\<rparr>"

definition setReadyEvent :: "u32 \<Rightarrow> channel \<Rightarrow> channel" where
  "setReadyEvent revents ch = ch\<lparr>ch_revents := revents\<rparr>"

definition setReadCallback :: "callback option \<Rightarrow> channel \<Rightarrow> channel" where
  "setReadCallback cb ch = ch\<lparr>read_cb := cb\<rparr>"

definition setWriteCallback :: "callback option \<Rightarrow> channel \<Rightarrow> channel" where
  "setWriteCallback cb ch = ch\<lparr>write_cb := cb\<rparr>"

definition setErrorCallback :: "callback option \<Rightarrow> channel \<Rightarrow> channel" where
  "setErrorCallback cb ch = ch\<lparr>error_cb := cb\<rparr>"

definition setOnTimeCallback :: "callback option \<Rightarrow> channel \<Rightarrow> channel" where
  "setOnTimeCallback cb ch = ch\<lparr>time_cb := cb\<rparr>"

lemmas setter_defs [simp] = setInEpoll_def setReadyEvent_def setReadCallback_def setWriteCallback_def
  setErrorCallback_def setOnTimeCallback_def

section \<open>The poller\<close>

datatype ctl = CtlAdd int u32 | CtlMod int u32 | CtlDel int

text \<open>The documented effect and the documented precondition of a request.\<close>

fun apply_ctl :: "bool \<Rightarrow> ctl \<Rightarrow> (int \<rightharpoonup> u32) \<Rightarrow> (int \<rightharpoonup> u32)" where
  "apply_ctl ok (CtlAdd fd ev) ep = (if ok then ep(fd \<mapsto> ev) else ep)"
| "apply_ctl ok (CtlMod fd ev) ep = (if ok then ep(fd \<mapsto> ev) else ep)"
| "apply_ctl ok (CtlDel fd) ep = (if ok then ep(fd := None) else ep)"

fun ctl_valid :: "ctl \<Rightarrow> (int \<rightharpoonup> u32) \<Rightarrow> bool" where
  "ctl_valid (CtlAdd fd ev) ep = (ep fd = None)"
| "ctl_valid (CtlMod fd ev) ep = (ep fd \<noteq> None)"
| "ctl_valid (CtlDel fd) ep = (ep fd \<noteq> None)"

definition updateChannel :: "bool \<Rightarrow> channel \<Rightarrow> ctl \<times> channel" where
  "updateChannel ok ch =
     (if in_epoll ch then (CtlMod (ch_fd ch) (ch_events ch), ch)
      else (CtlAdd (ch_fd ch) (ch_events ch), if ok then setInEpoll True ch else ch))"

text \<open>\<^const>\<open>None\<close>: the assertion that the channel is registered fails.\<close>

definition removeChannel :: "bool \<Rightarrow> channel \<Rightarrow> (ctl \<times> channel) option" where
  "removeChannel ok ch =
     (if \<not> in_epoll ch then None
      else Some (CtlDel (ch_fd ch), if ok then setInEpoll False ch else ch))"

definition kInitEventSize :: nat where
  "kInitEventSize = 1024"

text \<open>
  \<open>nevs\<close> is the result of \<^verbatim>\<open>epoll_wait\<close> on a buffer of \<open>cap\<close> events, \<open>evs\<close> the
  buffer: the events reported, and the size of the buffer afterwards.
\<close>

definition epoll_poll :: "nat \<Rightarrow> int \<Rightarrow> 'e list \<Rightarrow> 'e list \<times> nat" where
  "epoll_poll cap nevs evs =
     (if nevs = - 1 then ([], cap)
      else if nevs = 0 then ([], cap)
      else (take (nat nevs) evs, if nat nevs = cap then cap * 2 else cap))"

section \<open>Operations of a channel\<close>

definition setEvents :: "u32 \<Rightarrow> channel \<Rightarrow> channel" where
  "setEvents e ch = ch\<lparr>ch_events := e\<rparr>"

definition useET :: "channel \<Rightarrow> channel" where
  "useET ch = ch\<lparr>ch_events := ch_events ch OR EPOLLET\<rparr>"

definition writing :: "channel \<Rightarrow> bool" where
  "writing ch \<longleftrightarrow> ch_events ch AND EPOLLOUT \<noteq> 0"

text \<open>\<^verbatim>\<open>update\<close> and \<^verbatim>\<open>remove\<close> assert that the channel has a queue.\<close>

definition channel_update :: "bool \<Rightarrow> channel \<Rightarrow> (ctl \<times> channel) option" where
  "channel_update ok ch = (if ch_queue ch = None then None else Some (updateChannel ok ch))"

definition channel_remove :: "bool \<Rightarrow> channel \<Rightarrow> (ctl \<times> channel) option" where
  "channel_remove ok ch =
     (if ch_queue ch = None then None
      else map_option (\<lambda>(r, c). (r, c\<lparr>ch_queue := None\<rparr>)) (removeChannel ok ch))"

definition enableReading :: "bool \<Rightarrow> channel \<Rightarrow> (ctl \<times> channel) option" where
  "enableReading ok ch = channel_update ok (ch\<lparr>ch_events := ch_events ch OR EPOLLIN\<rparr>)"

definition enableWriting :: "bool \<Rightarrow> channel \<Rightarrow> (ctl \<times> channel) option" where
  "enableWriting ok ch = channel_update ok (ch\<lparr>ch_events := ch_events ch OR EPOLLOUT\<rparr>)"

definition disableReading :: "bool \<Rightarrow> channel \<Rightarrow> (ctl \<times> channel) option" where
  "disableReading ok ch = channel_update ok (ch\<lparr>ch_events := ch_events ch AND NOT EPOLLIN\<rparr>)"

definition disableWriting :: "bool \<Rightarrow> channel \<Rightarrow> (ctl \<times> channel) option" where
  "disableWriting ok ch = channel_update ok (ch\<lparr>ch_events := ch_events ch AND NOT EPOLLOUT\<rparr>)"

definition disableAll :: "bool \<Rightarrow> channel \<Rightarrow> (ctl \<times> channel) option" where
  "disableAll ok ch = channel_update ok (ch\<lparr>ch_events := 0\<rparr>)"

text \<open>
  \<^verbatim>\<open>triggerEvent\<close> copies the callback and pushes a task for it on the channel's queue; an
  event other than the three logs an error.
\<close>

definition triggerEvent :: "u32 \<Rightarrow> channel \<Rightarrow> scheduled_task list \<Rightarrow> scheduled_task list" where
  "triggerEvent e ch ts =
     (let cb = (if e = EPOLLIN then read_cb ch
                else if e = EPOLLOUT then write_cb ch
                else if e = EPOLLERR then error_cb ch else None)
      in case cb of None \<Rightarrow> ts | Some c \<Rightarrow> ts @ [task_of_callback c])"

definition handleEvent :: "channel \<Rightarrow> scheduled_task list \<Rightarrow> channel \<times> scheduled_task list" where
  "handleEvent ch ts =
     (let rev = (if ch_revents ch AND (EPOLLERR OR EPOLLHUP) \<noteq> 0
                 then ch_revents ch OR (EPOLLIN OR EPOLLOUT) else ch_revents ch);
          ch1 = ch\<lparr>ch_revents := rev\<rparr>;
          ts1 = (if rev AND EPOLLERR \<noteq> 0 then triggerEvent EPOLLERR ch1 ts else ts);
          ts2 = (if rev AND EPOLLIN \<noteq> 0 then triggerEvent EPOLLIN ch1 ts1 else ts1);
          ts3 = (if rev AND EPOLLOUT \<noteq> 0 then triggerEvent EPOLLOUT ch1 ts2 else ts2)
      in (ch1, ts3))"

definition onTime :: "channel \<Rightarrow> callback list" where
  "onTime ch = (case time_cb ch of None \<Rightarrow> [] | Some c \<Rightarrow> [c])"

section \<open>The channel and the kernel agree\<close>

datatype ch_op = OpRead bool | OpWrite bool | OpNoRead bool | OpNoWrite bool | OpNone bool | OpRemove bool

fun ch_op_ok :: "ch_op \<Rightarrow> bool" where
  "ch_op_ok (OpRead ok) = ok"
| "ch_op_ok (OpWrite ok) = ok"
| "ch_op_ok (OpNoRead ok) = ok"
| "ch_op_ok (OpNoWrite ok) = ok"
| "ch_op_ok (OpNone ok) = ok"
| "ch_op_ok (OpRemove ok) = ok"

fun ch_op_run :: "ch_op \<Rightarrow> channel \<Rightarrow> (ctl \<times> channel) option" where
  "ch_op_run (OpRead ok) ch = enableReading ok ch"
| "ch_op_run (OpWrite ok) ch = enableWriting ok ch"
| "ch_op_run (OpNoRead ok) ch = disableReading ok ch"
| "ch_op_run (OpNoWrite ok) ch = disableWriting ok ch"
| "ch_op_run (OpNone ok) ch = disableAll ok ch"
| "ch_op_run (OpRemove ok) ch = channel_remove ok ch"

text \<open>
  A channel together with the interest list of its poller, and the requests made so far that the
  documentation of \<^verbatim>\<open>epoll_ctl\<close> calls errors.
\<close>

record ch_kernel =
  kch :: channel
  interest :: "int \<rightharpoonup> u32"
  invalid :: "ctl list"

definition ch_step :: "ch_kernel \<Rightarrow> ch_op \<Rightarrow> ch_kernel option" where
  "ch_step s p =
     map_option (\<lambda>(r, c). \<lparr>kch = c, interest = apply_ctl (ch_op_ok p) r (interest s),
         invalid = (if ctl_valid r (interest s) then invalid s else invalid s @ [r])\<rparr>)
       (ch_op_run p (kch s))"

definition mirrored :: "ch_kernel \<Rightarrow> bool" where
  "mirrored s \<longleftrightarrow> invalid s = [] \<and> (in_epoll (kch s) \<longleftrightarrow> interest s (ch_fd (kch s)) \<noteq> None)"

lemmas ch_op_defs = enableReading_def enableWriting_def disableReading_def disableWriting_def
  disableAll_def channel_update_def channel_remove_def updateChannel_def removeChannel_def

lemma mirrored_step: "mirrored s \<Longrightarrow> ch_step s p = Some t \<Longrightarrow> mirrored t"
  by (cases p) (auto simp: ch_step_def ch_op_defs mirrored_def split: if_splits)

interpretation channel_machine: machine ch_step mirrored
  by unfold_locales (rule mirrored_step)

definition init_kernel :: "int \<Rightarrow> nat \<Rightarrow> ch_kernel" where
  "init_kernel fd q = \<lparr>kch = new_channel fd q, interest = Map.empty, invalid = []\<rparr>"

text \<open>
  C32: a channel's \<^verbatim>\<open>in_epoll_\<close> mirrors the kernel. Through any sequence of enabling,
  disabling and removing, whichever \<^verbatim>\<open>epoll_ctl\<close> calls fail, the flag says whether the
  descriptor is in the interest list, and no request is one the kernel must refuse (adding
  twice, changing or deleting what is not there).\<close>

theorem channel_mirrors_kernel:
  assumes "exec_all ch_step (init_kernel fd q) ps = Some s"
  shows "invalid s = [] \<and> (in_epoll (kch s) \<longleftrightarrow> interest s (ch_fd (kch s)) \<noteq> None)"
proof -
  have "mirrored (init_kernel fd q)" by (simp add: mirrored_def init_kernel_def new_channel_def)
  from channel_machine.run_good [OF this assms] show ?thesis by (simp add: mirrored_def)
qed

theorem channel_mirrors_kernel_witness:
  "\<exists>s::ch_kernel. interest s 5 = Some 4 \<and> invalid s = [] \<and>
     (in_epoll (kch s) \<longleftrightarrow> interest s (ch_fd (kch s)) \<noteq> None)"
proof -
  let ?ps = "[OpRead False, OpRead True, OpWrite True, OpNoRead True]"
  obtain s where s: "exec_all ch_step (init_kernel 5 0) ?ps = Some s" "interest s 5 = Some 4"
    by (simp add: ch_step_def init_kernel_def new_channel_def ch_op_defs epoll_defs)
  from channel_mirrors_kernel [OF s(1)] s(2) show ?thesis by - (rule exI [of _ s], simp)
qed

text \<open>
  Event dispatch. \<^verbatim>\<open>handleEvent\<close> appends to the queue the error callback, the read
  callback and the write callback, in this order, each if it is set and its event is reported;
  an error or a hang-up counts as readable and writable.\<close>

theorem handleEvent_dispatches:
  "snd (handleEvent ch ts) = ts @ map task_of_callback
     (let rev = ch_revents ch; fail = rev AND (EPOLLERR OR EPOLLHUP) \<noteq> 0 in
      (if rev AND EPOLLERR \<noteq> 0 then (case error_cb ch of None \<Rightarrow> [] | Some c \<Rightarrow> [c]) else []) @
      (if \<not> fail \<and> rev AND EPOLLIN = 0 then [] else (case read_cb ch of None \<Rightarrow> [] | Some c \<Rightarrow> [c])) @
      (if \<not> fail \<and> rev AND EPOLLOUT = 0 then [] else (case write_cb ch of None \<Rightarrow> [] | Some c \<Rightarrow> [c])))"
proof -
  have disj: "(r OR (EPOLLIN OR EPOLLOUT)) AND EPOLLERR = r AND EPOLLERR"
    "(r OR (EPOLLIN OR EPOLLOUT)) AND EPOLLIN = EPOLLIN"
    "(r OR (EPOLLIN OR EPOLLOUT)) AND EPOLLOUT = EPOLLOUT" for r :: u32
    unfolding epoll_defs by (simp_all add: bit.conj_disj_distrib2 bit.conj_disj_distrib)
  have ne: "EPOLLIN \<noteq> 0" "EPOLLOUT \<noteq> 0" "EPOLLERR \<noteq> EPOLLIN" "EPOLLERR \<noteq> EPOLLOUT" "EPOLLOUT \<noteq> EPOLLIN"
    by (simp_all add: epoll_defs)
  show ?thesis
    by (simp add: handleEvent_def Let_def triggerEvent_def disj ne split: option.split)
qed

text \<open>
  \<^verbatim>\<open>setNonBlocking\<close>. When it reports success, the descriptor's
  \<^verbatim>\<open>O_NONBLOCK\<close> bit is the requested one and every other flag is unchanged; when it
  reports failure no flag has changed.\<close>

theorem setNonBlocking_correct:
  "let r = setNonBlocking on getfl set_ok; new = flags_after getfl r in
     (if fst r then (new AND O_NONBLOCK \<noteq> 0) = on \<and> new AND NOT O_NONBLOCK = getfl AND NOT O_NONBLOCK
      else new = getfl)"
proof -
  have bits: "(x OR O_NONBLOCK) AND O_NONBLOCK = O_NONBLOCK" "(x AND NOT O_NONBLOCK) AND O_NONBLOCK = 0"
    "(x OR O_NONBLOCK) AND NOT O_NONBLOCK = x AND NOT O_NONBLOCK"
    "(x AND NOT O_NONBLOCK) AND NOT O_NONBLOCK = x AND NOT O_NONBLOCK" for x :: u32
    by (auto intro!: bit_word_eqI simp: bit_simps)
  have ne: "O_NONBLOCK \<noteq> 0" by (simp add: O_NONBLOCK_def)
  have on: "getfl OR O_NONBLOCK = getfl \<Longrightarrow> getfl AND O_NONBLOCK = O_NONBLOCK"
    by (metis bits(1))
  show ?thesis
    using bits [of getfl] ne on
    by (auto simp: setNonBlocking_def flags_after_def Let_def)
qed

end
