(* ===== verification/Koro_Timer.thy ===== *)
theory Koro_Timer
  imports Koro_Task
begin

text \<open>
  Timestamps and timers: \<^verbatim>\<open>koro/timestamp.h\<close>, \<^verbatim>\<open>koro/timer.h\<close>,
  \<^verbatim>\<open>koro/timer_id.h\<close>, \<^verbatim>\<open>koro/timer_manager.cpp\<close>. A time point is its number of
  nanoseconds, an integer far below the 64 bits of the code. The time that the clock shows is an
  argument of each operation that reads it.
\<close>

section \<open>Timestamps\<close>

record itimerspec =
  it_sec :: int
  it_nsec :: int

definition toItimerspec :: "int \<Rightarrow> itimerspec" where
  "toItimerspec tp = \<lparr>it_sec = tp sdiv 1000000000, it_nsec = tp smod 1000000000\<rparr>"

definition toRelativeItimerspec :: "int \<Rightarrow> int \<Rightarrow> itimerspec" where
  "toRelativeItimerspec clock tp =
     (let diff = tp - clock in
      if diff \<le> 0 then \<lparr>it_sec = 0, it_nsec = 0\<rparr>
      else \<lparr>it_sec = diff sdiv 1000000000, it_nsec = diff smod 1000000000\<rparr>)"

text \<open>
  Adding seconds given as a \<^verbatim>\<open>double\<close>: \<open>rnd\<close> is the rounding of the floating-point sum
  and of the conversion back to nanoseconds; the interval is given by its exact value in
  nanoseconds.
\<close>

definition timestamp_add :: "(int \<Rightarrow> int) \<Rightarrow> int \<Rightarrow> int \<Rightarrow> int" where
  "timestamp_add rnd tp d = rnd (d + tp)"

definition spec_ns :: "itimerspec \<Rightarrow> int" where
  "spec_ns its = it_sec its * 1000000000 + it_nsec its"

text \<open>The documented meaning of \<^verbatim>\<open>timerfd_settime\<close>: a zero value disarms the timer.\<close>

definition settime :: "int \<Rightarrow> itimerspec \<Rightarrow> int option" where
  "settime clock its = (if it_sec its = 0 \<and> it_nsec its = 0 then None else Some (clock + spec_ns its))"

lemma relative_pos:
  assumes "clock < tp"
  shows "0 \<le> it_sec (toRelativeItimerspec clock tp)"
    "0 \<le> it_nsec (toRelativeItimerspec clock tp)" "it_nsec (toRelativeItimerspec clock tp) < 1000000000"
    "spec_ns (toRelativeItimerspec clock tp) = tp - clock"
proof -
  have d: "0 < tp - clock" using assms by simp
  have q: "(tp - clock) sdiv 1000000000 = (tp - clock) div 1000000000"
    and r: "(tp - clock) smod 1000000000 = (tp - clock) mod 1000000000"
    using d by (simp_all add: signed_divide_int_def signed_modulo_int_def sgn_if)
  show "0 \<le> it_sec (toRelativeItimerspec clock tp)"
    "0 \<le> it_nsec (toRelativeItimerspec clock tp)" "it_nsec (toRelativeItimerspec clock tp) < 1000000000"
    "spec_ns (toRelativeItimerspec clock tp) = tp - clock"
    using d by (simp_all add: toRelativeItimerspec_def Let_def spec_ns_def q r pos_imp_zdiv_nonneg_iff)
qed

lemma settime_future:
  assumes "clock < tp"
  shows "settime clock (toRelativeItimerspec clock tp) = Some tp"
proof -
  have "spec_ns (toRelativeItimerspec clock tp) \<noteq> 0" using relative_pos(4) [OF assms] assms by simp
  then have "\<not> (it_sec (toRelativeItimerspec clock tp) = 0 \<and> it_nsec (toRelativeItimerspec clock tp) = 0)"
    by (auto simp: spec_ns_def)
  then show ?thesis using relative_pos(4) [OF assms] by (auto simp: settime_def)
qed

lemma settime_past: "tp \<le> clock \<Longrightarrow> settime clock (toRelativeItimerspec clock tp) = None"
  by (simp add: settime_def toRelativeItimerspec_def Let_def)

section \<open>The ordered set of timers\<close>

text \<open>
  \<^verbatim>\<open>std::set\<close> of pairs of an expiration and the timer's address: the sorted list of its
  elements, without duplicates.
\<close>

type_synonym entry = "int \<times> nat"

definition entry_less :: "entry \<Rightarrow> entry \<Rightarrow> bool" where
  "entry_less a b \<longleftrightarrow> fst a < fst b \<or> fst a = fst b \<and> snd a < snd b"

fun set_insert :: "entry \<Rightarrow> entry list \<Rightarrow> entry list" where
  "set_insert e [] = [e]"
| "set_insert e (x # xs) =
     (if entry_less e x then e # x # xs else if entry_less x e then x # set_insert e xs else x # xs)"

text \<open>The elements before \<^verbatim>\<open>upper_bound({t, UINTPTR_MAX})\<close>, and the others.\<close>

definition set_due :: "int \<Rightarrow> entry list \<Rightarrow> entry list" where
  "set_due t xs = takeWhile (\<lambda>e. fst e \<le> t) xs"

definition set_later :: "int \<Rightarrow> entry list \<Rightarrow> entry list" where
  "set_later t xs = dropWhile (\<lambda>e. fst e \<le> t) xs"

definition entries_ok :: "entry list \<Rightarrow> bool" where
  "entries_ok xs \<longleftrightarrow> sorted_wrt entry_less xs"

text \<open>What a client of the ordered set relies on.\<close>

locale timer_set =
  fixes ok :: "'s \<Rightarrow> bool"
    and ins :: "entry \<Rightarrow> 's \<Rightarrow> 's"
    and due :: "int \<Rightarrow> 's \<Rightarrow> entry list"
    and later :: "int \<Rightarrow> 's \<Rightarrow> 's"
    and elems :: "'s \<Rightarrow> entry list"
  assumes ins_ok: "ok s \<Longrightarrow> ok (ins e s)"
    and later_ok: "ok s \<Longrightarrow> ok (later t s)"
    and ins_elems: "ok s \<Longrightarrow> set (elems (ins e s)) = insert e (set (elems s))"
    and split_elems: "elems s = due t s @ elems (later t s)"
    and due_bound: "ok s \<Longrightarrow> e \<in> set (due t s) \<Longrightarrow> fst e \<le> t"
    and later_bound: "ok s \<Longrightarrow> e \<in> set (elems (later t s)) \<Longrightarrow> t < fst e"
begin

lemma due_filter:
  assumes "ok s"
  shows "due t s = filter (\<lambda>e. fst e \<le> t) (elems s)"
proof -
  have "filter (\<lambda>e. fst e \<le> t) (elems (later t s)) = []"
    using later_bound [OF assms, of _ t] by (force simp: filter_empty_conv)
  then show ?thesis
    using due_bound [OF assms, of _ t] by (subst split_elems [of s t]) (simp add: filter_id_conv)
qed

lemma later_filter:
  assumes "ok s"
  shows "elems (later t s) = filter (\<lambda>e. t < fst e) (elems s)"
proof -
  have "filter (\<lambda>e. t < fst e) (due t s) = []"
    using due_bound [OF assms, of _ t] by (force simp: filter_empty_conv)
  moreover have "filter (\<lambda>e. t < fst e) (elems (later t s)) = elems (later t s)"
    using later_bound [OF assms, of _ t] by (simp add: filter_id_conv)
  moreover have "filter (\<lambda>e. t < fst e) (elems s) =
      filter (\<lambda>e. t < fst e) (due t s) @ filter (\<lambda>e. t < fst e) (elems (later t s))"
    by (subst split_elems [of s t]) simp
  ultimately show ?thesis by simp
qed

lemma ins_all_ok: "ok s \<Longrightarrow> ok (fold ins es s)"
  by (induction es arbitrary: s) (auto simp: ins_ok)

lemma ins_all_elems: "ok s \<Longrightarrow> set (elems (fold ins es s)) = set es \<union> set (elems s)"
  by (induction es arbitrary: s) (auto simp: ins_ok ins_elems)

end

lemma entry_less_trans: "entry_less a b \<Longrightarrow> entry_less b c \<Longrightarrow> entry_less a c"
  by (auto simp: entry_less_def)

lemma entry_less_total: "\<not> entry_less a b \<Longrightarrow> \<not> entry_less b a \<Longrightarrow> a = b"
  by (auto simp: entry_less_def prod_eq_iff)

lemma set_set_insert: "set (set_insert e xs) = insert e (set xs)"
  by (induction xs) (auto dest: entry_less_total)

lemma set_insert_ok: "entries_ok xs \<Longrightarrow> entries_ok (set_insert e xs)"
  unfolding entries_ok_def
  by (induction xs) (auto simp: set_set_insert intro: entry_less_trans)

lemma sorted_dropWhile:
  "sorted_wrt entry_less xs \<Longrightarrow> e \<in> set (dropWhile (\<lambda>e. fst e \<le> t) xs) \<Longrightarrow> t < fst e"
  by (induction xs) (auto simp: entry_less_def split: if_splits)

interpretation timer_entries: timer_set entries_ok set_insert set_due set_later "\<lambda>xs. xs"
proof unfold_locales
  fix s :: "entry list" and t :: int
  assume "entries_ok s"
  then show "entries_ok (set_later t s)"
    unfolding entries_ok_def set_later_def
    by (metis sorted_wrt_append takeWhile_dropWhile_id)
next
  fix s :: "entry list" and t :: int and e
  assume "entries_ok s" "e \<in> set (set_later t s)"
  then show "t < fst e" unfolding entries_ok_def set_later_def by (rule sorted_dropWhile)
qed (auto simp: set_insert_ok set_set_insert set_due_def set_later_def dest: set_takeWhileD)

section \<open>Timers\<close>

record timer =
  tm_exp :: int
  tm_interval :: int
  tm_repeat :: bool
  tm_on :: bool
  tm_cb :: callback

definition new_timer :: "int \<Rightarrow> callback \<Rightarrow> int \<Rightarrow> timer" where
  "new_timer expiration cb interval = \<lparr>tm_exp = expiration, tm_interval = interval,
     tm_repeat = (interval > 0), tm_on = False, tm_cb = cb\<rparr>"

definition timer_enable :: "bool \<Rightarrow> timer \<Rightarrow> timer" where
  "timer_enable on t = t\<lparr>tm_on := on\<rparr>"

definition timer_repeat :: "(int \<Rightarrow> int) \<Rightarrow> timer \<Rightarrow> timer" where
  "timer_repeat rnd t = t\<lparr>tm_exp := timestamp_add rnd (tm_exp t) (tm_interval t)\<rparr>"

text \<open>A \<^verbatim>\<open>TimerId\<close> holds a weak pointer to the timer and a number.\<close>

record timer_id =
  tid_timer :: "nat option"
  tid_id :: u64

definition no_timer_id :: timer_id where
  "no_timer_id = \<lparr>tid_timer = None, tid_id = 0\<rparr>"

section \<open>\<^verbatim>\<open>TimerManager\<close>\<close>

text \<open>
  \<open>timers\<close> are the timer objects by address, \<open>armed\<close> the instant for which the timerfd is
  set, \<open>tqueue\<close> the tasks of the queue the manager belongs to, \<open>id_creator\<close> the counter of
  \<^verbatim>\<open>TimerId\<close>.
\<close>

record tmgr =
  timers :: "nat \<rightharpoonup> timer"
  tset :: "entry list"
  tactive :: "entry list"
  armed :: "int option"
  tqueue :: "scheduled_task list"
  next_tm :: nat
  id_creator :: u64

definition init_tmgr :: tmgr where
  "init_tmgr = \<lparr>timers = Map.empty, tset = [], tactive = [], armed = None, tqueue = [],
     next_tm = 0, id_creator = 1\<rparr>"

definition timer_at :: "nat \<Rightarrow> tmgr \<Rightarrow> timer" where
  "timer_at a s = (case timers s a of Some t \<Rightarrow> t | None \<Rightarrow> new_timer 0 0 0)"

definition make_timer_id :: "nat \<Rightarrow> tmgr \<Rightarrow> timer_id \<times> tmgr" where
  "make_timer_id a s = (\<lparr>tid_timer = Some a, tid_id = id_creator s\<rparr>, s\<lparr>id_creator := id_creator s + 1\<rparr>)"

text \<open>The weak pointer can be locked while the set or the list of active timers holds the timer.\<close>

definition tid_lock :: "timer_id \<Rightarrow> tmgr \<Rightarrow> nat option" where
  "tid_lock tid s =
     (case tid_timer tid of
        None \<Rightarrow> None
      | Some a \<Rightarrow> if a \<in> snd ` set (tset s) \<or> a \<in> snd ` set (tactive s) then Some a else None)"

definition tm_insert :: "nat \<Rightarrow> tmgr \<Rightarrow> bool \<times> tmgr" where
  "tm_insert a s =
     (let e = tm_exp (timer_at a s) in
      (tset s = [] \<or> e < fst (hd (tset s)), s\<lparr>tset := set_insert (e, a) (tset s)\<rparr>))"

definition resetTimerFd :: "int \<Rightarrow> nat \<Rightarrow> tmgr \<Rightarrow> tmgr" where
  "resetTimerFd clock a s =
     s\<lparr>armed := settime clock (toRelativeItimerspec clock (tm_exp (timer_at a s)))\<rparr>"

definition set_timer :: "nat \<Rightarrow> timer \<Rightarrow> tmgr \<Rightarrow> tmgr" where
  "set_timer a t s = s\<lparr>timers := (timers s)(a \<mapsto> t)\<rparr>"

definition registerTimer :: "int \<Rightarrow> int \<Rightarrow> callback \<Rightarrow> int \<Rightarrow> tmgr \<Rightarrow> timer_id \<times> tmgr" where
  "registerTimer clock ts cb interval s =
     (let a = next_tm s;
          s1 = set_timer a (new_timer ts cb interval) (s\<lparr>next_tm := Suc a\<rparr>);
          (reset_now, s2) = tm_insert a s1;
          s3 = (if reset_now then resetTimerFd clock a s2 else s2);
          s4 = set_timer a (timer_enable True (timer_at a s3)) s3
      in make_timer_id a s4)"

definition unregisterTimer :: "timer_id \<Rightarrow> tmgr \<Rightarrow> tmgr" where
  "unregisterTimer tid s =
     (if tid_id tid = 0 then s
      else case tid_lock tid s of
             None \<Rightarrow> s
           | Some a \<Rightarrow> set_timer a (timer_enable False (timer_at a s)) s)"

text \<open>The first loop of \<^verbatim>\<open>triggerTimer\<close> and the loop of \<^verbatim>\<open>resetTimer\<close>.\<close>

fun fire_all :: "entry list \<Rightarrow> tmgr \<Rightarrow> tmgr" where
  "fire_all [] s = s"
| "fire_all (e # es) s =
     (let t = timer_at (snd e) s in
      fire_all es (if tm_on t then s\<lparr>tqueue := tqueue s @ [task_of_callback (tm_cb t)]\<rparr> else s))"

fun repeat_all :: "(int \<Rightarrow> int) \<Rightarrow> entry list \<Rightarrow> tmgr \<Rightarrow> tmgr" where
  "repeat_all rnd [] s = s"
| "repeat_all rnd (e # es) s =
     (let t = timer_at (snd e) s in
      repeat_all rnd es
        (if tm_on t \<and> tm_repeat t
         then snd (tm_insert (snd e) (set_timer (snd e) (timer_repeat rnd t) s)) else s))"

definition resetTimer :: "(int \<Rightarrow> int) \<Rightarrow> int \<Rightarrow> tmgr \<Rightarrow> tmgr" where
  "resetTimer rnd clock s =
     (let s1 = (repeat_all rnd (tactive s) s)\<lparr>tactive := []\<rparr> in
      if tset s1 \<noteq> [] then resetTimerFd clock (snd (hd (tset s1))) s1 else s1)"

text \<open>\<open>clock\<close> is the time read first, \<open>clock2\<close> the time read when the timerfd is set.\<close>

definition triggerTimer :: "(int \<Rightarrow> int) \<Rightarrow> int \<Rightarrow> int \<Rightarrow> tmgr \<Rightarrow> tmgr" where
  "triggerTimer rnd clock clock2 s =
     (let s1 = s\<lparr>tactive := tactive s @ set_due clock (tset s), tset := set_later clock (tset s)\<rparr>
      in resetTimer rnd clock2 (fire_all (tactive s1) s1))"

section \<open>The machine and its invariant\<close>

datatype tm_op = Register int int callback int | Unregister timer_id | Trigger int int

fun tm_step :: "(int \<Rightarrow> int) \<Rightarrow> tmgr \<Rightarrow> tm_op \<Rightarrow> tmgr option" where
  "tm_step rnd s (Register clock ts cb interval) = Some (snd (registerTimer clock ts cb interval s))"
| "tm_step rnd s (Unregister tid) = Some (unregisterTimer tid s)"
| "tm_step rnd s (Trigger clock clock2) = Some (triggerTimer rnd clock clock2 s)"

definition entry_at :: "tmgr \<Rightarrow> entry \<Rightarrow> bool" where
  "entry_at s e \<longleftrightarrow> (case timers s (snd e) of None \<Rightarrow> False | Some t \<Rightarrow> tm_exp t = fst e)"

text \<open>
  \<open>es\<close> are entries about to be processed: each timer occurs once, in the set or among them,
  under its expiration.
\<close>

definition tm_inv :: "entry list \<Rightarrow> tmgr \<Rightarrow> bool" where
  "tm_inv es s \<longleftrightarrow> entries_ok (tset s) \<and>
     (\<forall>e \<in> set es \<union> set (tset s). entry_at s e) \<and>
     (\<forall>a. next_tm s \<le> a \<longrightarrow> timers s a = None) \<and>
     distinct (map snd es) \<and> snd ` set es \<inter> snd ` set (tset s) = {}"

definition tmgr_ok :: "tmgr \<Rightarrow> bool" where
  "tmgr_ok s \<longleftrightarrow> tm_inv [] s \<and> tactive s = []"

lemma tm_inv_exp: "tm_inv es s \<Longrightarrow> e \<in> set es \<union> set (tset s) \<Longrightarrow> tm_exp (timer_at (snd e) s) = fst e"
proof -
  assume "tm_inv es s" "e \<in> set es \<union> set (tset s)"
  then have "entry_at s e" by (simp add: tm_inv_def)
  then show ?thesis by (simp add: entry_at_def timer_at_def split: option.splits)
qed

lemma fire_all_frame:
  "timers (fire_all es s) = timers s \<and> tset (fire_all es s) = tset s \<and> tactive (fire_all es s) = tactive s \<and>
   next_tm (fire_all es s) = next_tm s \<and> armed (fire_all es s) = armed s \<and>
   tqueue (fire_all es s) = tqueue s @
     map (\<lambda>e. task_of_callback (tm_cb (timer_at (snd e) s)))
       (filter (\<lambda>e. tm_on (timer_at (snd e) s)) es)"
proof (induction es arbitrary: s)
  case (Cons e es)
  have at: "timer_at a (s\<lparr>tqueue := q\<rparr>) = timer_at a s" for a q by (simp add: timer_at_def)
  show ?case using Cons.IH by (auto simp: Let_def at)
qed simp

lemma repeat_all_frame:
  "tactive (repeat_all rnd es s) = tactive s \<and> next_tm (repeat_all rnd es s) = next_tm s \<and>
   armed (repeat_all rnd es s) = armed s \<and> tqueue (repeat_all rnd es s) = tqueue s"
  by (induction es arbitrary: s) (auto simp: Let_def tm_insert_def set_timer_def)

lemma tm_inv_skip: "tm_inv (e # es) s \<Longrightarrow> tm_inv es s"
  by (simp add: tm_inv_def)

lemma entries_distinct: "entries_ok xs \<Longrightarrow> distinct xs"
  unfolding entries_ok_def by (induction xs) (auto simp: entry_less_def)

lemma tm_insert_set [simp]:
  "snd (tm_insert a (set_timer a t s)) =
     s\<lparr>timers := (timers s)(a \<mapsto> t), tset := set_insert (tm_exp t, a) (tset s)\<rparr>"
  by (simp add: tm_insert_def Let_def set_timer_def timer_at_def)

lemma tm_inv_repeat:
  assumes "tm_inv (e # es) s"
  shows "tm_inv es (s\<lparr>timers := (timers s)(snd e \<mapsto> t), tset := set_insert (tm_exp t, snd e) (tset s)\<rparr>)"
    (is "tm_inv es ?s")
proof -
  have old: "entries_ok (tset s)" "\<forall>a. next_tm s \<le> a \<longrightarrow> timers s a = None"
    "distinct (map snd es)" "snd e \<notin> snd ` set es" "snd e \<notin> snd ` set (tset s)"
    "snd ` set es \<inter> snd ` set (tset s) = {}"
    using assms by (auto simp: tm_inv_def)
  have "entry_at s e" using assms by (simp add: tm_inv_def)
  then have "\<not> next_tm s \<le> snd e" using old(2) by (auto simp: entry_at_def split: option.splits)
  then have fresh: "\<forall>a. next_tm s \<le> a \<longrightarrow> timers ?s a = None" using old(2) by auto
  have ent: "entry_at ?s x" if x: "x \<in> set es \<union> set (tset ?s)" for x
  proof (cases "x = (tm_exp t, snd e)")
    case False
    with x have x': "x \<in> set es \<union> set (tset s)" by (auto simp: set_set_insert)
    then have "snd x \<noteq> snd e" using old(4,5) by (metis UnE imageI)
    moreover have "entry_at s x"
      using assms x' unfolding tm_inv_def by simp
    ultimately show ?thesis by (simp add: entry_at_def)
  qed (simp add: entry_at_def)
  have "entries_ok (tset ?s)" using old(1) by (simp add: set_insert_ok)
  moreover have "snd ` set es \<inter> snd ` set (tset ?s) = {}"
    using old(4,6) by (auto simp: set_set_insert)
  ultimately show ?thesis unfolding tm_inv_def using ent fresh old(3) by simp
qed

lemma tm_inv_repeat_all: "tm_inv es s \<Longrightarrow> tm_inv [] (repeat_all rnd es s)"
proof (induction es arbitrary: s)
  case (Cons e es)
  show ?case using Cons.IH tm_inv_repeat [OF Cons.prems] tm_inv_skip [OF Cons.prems]
    by (simp add: Let_def)
qed simp

lemma tm_inv_frame:
  "timers t = timers s \<Longrightarrow> tset t = tset s \<Longrightarrow> next_tm t = next_tm s \<Longrightarrow> tm_inv es t = tm_inv es s"
  by (simp add: tm_inv_def entry_at_def)

text \<open>Taking the due entries out of the set.\<close>

lemma tm_inv_split:
  assumes "tm_inv [] s"
  shows "tm_inv (set_due clock (tset s)) (s\<lparr>tactive := xs, tset := set_later clock (tset s)\<rparr>)"
proof -
  have ok: "entries_ok (tset s)" using assms by (simp add: tm_inv_def)
  have all: "set_due clock (tset s) @ set_later clock (tset s) = tset s"
    by (simp add: set_due_def set_later_def)
  have fst_snd: "a = b" if "a \<in> set (tset s)" "b \<in> set (tset s)" "snd a = snd b" for a b
  proof -
    have "entry_at s a" "entry_at s b" using assms that(1,2) by (simp_all add: tm_inv_def)
    with that(3) show ?thesis by (simp add: entry_at_def prod_eq_iff split: option.splits)
  qed
  have "distinct (tset s)" using ok by (rule entries_distinct)
  then have dist: "distinct (map snd (tset s))"
    using fst_snd by (auto simp: distinct_map inj_on_def)
  then have "distinct (map snd (set_due clock (tset s) @ set_later clock (tset s)))" by (simp add: all)
  then have d: "distinct (map snd (set_due clock (tset s)))"
    "snd ` set (set_due clock (tset s)) \<inter> snd ` set (set_later clock (tset s)) = {}"
    by auto
  have "entries_ok (set_later clock (tset s))"
    using ok timer_entries.later_ok by blast
  moreover have "set (set_due clock (tset s)) \<union> set (set_later clock (tset s)) = set (tset s)"
    by (metis all set_append)
  ultimately show ?thesis using assms d by (simp add: tm_inv_def entry_at_def)
qed

text \<open>Replacing a timer by one with the same expiration.\<close>

lemma tm_inv_same_exp:
  assumes "tm_inv es s" "timers s a \<noteq> None" "tm_exp t = tm_exp (timer_at a s)"
  shows "tm_inv es (set_timer a t s)"
proof -
  have "entry_at (set_timer a t s) e" if "entry_at s e" for e
    using that assms(2,3)
    by (auto simp: entry_at_def set_timer_def timer_at_def split: option.splits)
  moreover have "\<not> next_tm s \<le> a" using assms(1,2) by (auto simp: tm_inv_def)
  ultimately show ?thesis using assms(1) by (auto simp: tm_inv_def set_timer_def)
qed

lemma register_state:
  assumes "timers s (next_tm s) = None"
  shows "snd (registerTimer clock ts cb interval s) = s\<lparr>
    timers := (timers s)(next_tm s \<mapsto> timer_enable True (new_timer ts cb interval)),
    tset := set_insert (ts, next_tm s) (tset s), next_tm := Suc (next_tm s),
    armed := (if tset s = [] \<or> ts < fst (hd (tset s))
              then settime clock (toRelativeItimerspec clock ts) else armed s),
    id_creator := id_creator s + 1\<rparr>"
  by (simp add: registerTimer_def Let_def tm_insert_def set_timer_def timer_at_def resetTimerFd_def
      make_timer_id_def new_timer_def timer_enable_def)

lemma tmgr_ok_register:
  assumes "tmgr_ok s"
  shows "tmgr_ok (snd (registerTimer clock ts cb interval s))"
proof -
  have inv: "tm_inv [] s" and act: "tactive s = []" using assms by (simp_all add: tmgr_ok_def)
  have fresh: "timers s (next_tm s) = None" using inv by (simp add: tm_inv_def)
  have keep: "snd e \<noteq> next_tm s" if "e \<in> set (tset s)" for e
  proof -
    have "entry_at s e" using inv that by (simp add: tm_inv_def)
    with fresh show ?thesis by (auto simp: entry_at_def)
  qed
  have "entry_at (snd (registerTimer clock ts cb interval s)) e"
    if e: "e \<in> insert (ts, next_tm s) (set (tset s))" for e
  proof (cases "e \<in> set (tset s)")
    case True
    with inv have "entry_at s e" by (simp add: tm_inv_def)
    with keep [OF True] show ?thesis by (simp add: register_state [OF fresh] entry_at_def)
  next
    case False
    with e show ?thesis
      by (simp add: register_state [OF fresh] entry_at_def timer_enable_def new_timer_def)
  qed
  then show ?thesis
    using inv act unfolding tmgr_ok_def tm_inv_def
    by (simp add: register_state [OF fresh] set_insert_ok set_set_insert)
qed

lemma tmgr_ok_unregister: "tmgr_ok s \<Longrightarrow> tmgr_ok (unregisterTimer tid s)"
proof -
  assume ok: "tmgr_ok s"
  show ?thesis
  proof (cases "tid_id tid \<noteq> 0 \<and> tid_lock tid s \<noteq> None")
    case True
    then obtain a where a: "tid_lock tid s = Some a" by auto
    then obtain e where e: "e \<in> set (tset s)" "snd e = a"
      using ok by (auto simp: tid_lock_def tmgr_ok_def split: option.splits if_splits)
    then have "entry_at s e" using ok by (simp add: tmgr_ok_def tm_inv_def)
    then have "timers s a \<noteq> None" using e(2) by (auto simp: entry_at_def split: option.splits)
    then have "tm_inv [] (set_timer a (timer_enable False (timer_at a s)) s)"
      using ok by (intro tm_inv_same_exp) (simp_all add: tmgr_ok_def timer_enable_def)
    with ok True a show ?thesis by (simp add: unregisterTimer_def tmgr_ok_def set_timer_def)
  next
    case False
    with ok show ?thesis by (auto simp: unregisterTimer_def)
  qed
qed

lemma tmgr_ok_trigger: "tmgr_ok s \<Longrightarrow> tmgr_ok (triggerTimer rnd clock clock2 s)"
proof -
  assume ok: "tmgr_ok s"
  let ?s1 = "s\<lparr>tactive := tactive s @ set_due clock (tset s), tset := set_later clock (tset s)\<rparr>"
  let ?s2 = "fire_all (tactive ?s1) ?s1"
  let ?s3 = "(repeat_all rnd (tactive ?s2) ?s2)\<lparr>tactive := []\<rparr>"
  have act: "tactive ?s1 = set_due clock (tset s)" using ok by (simp add: tmgr_ok_def)
  have "tm_inv (tactive ?s1) ?s1"
    unfolding act using tm_inv_split [of s] ok by (simp add: tmgr_ok_def)
  then have "tm_inv (tactive ?s2) ?s2"
    using tm_inv_frame [of ?s2 ?s1] fire_all_frame [of "tactive ?s1" ?s1] by simp
  from tm_inv_repeat_all [OF this] have "tm_inv [] ?s3"
    using tm_inv_frame [of ?s3 "repeat_all rnd (tactive ?s2) ?s2"] by simp
  then have "tmgr_ok ?s3" by (simp add: tmgr_ok_def)
  moreover have "tmgr_ok (resetTimerFd c a t) = tmgr_ok t" for c a t
    by (simp add: tmgr_ok_def tm_inv_def entry_at_def resetTimerFd_def)
  ultimately show ?thesis by (simp add: triggerTimer_def resetTimer_def Let_def)
qed

lemma tmgr_ok_step: "tmgr_ok s \<Longrightarrow> tm_step rnd s p = Some t \<Longrightarrow> tmgr_ok t"
  by (cases p) (auto simp: tmgr_ok_register tmgr_ok_unregister tmgr_ok_trigger)

lemma tmgr_ok_init: "tmgr_ok init_tmgr"
  by (simp add: tmgr_ok_def init_tmgr_def tm_inv_def entries_ok_def)

interpretation timers: machine "tm_step rnd" tmgr_ok for rnd
  by unfold_locales (rule tmgr_ok_step)

section \<open>Properties\<close>

text \<open>
  The arithmetic of \<^verbatim>\<open>toRelativeItimerspec\<close>. For an instant in the future the
  seconds and nanoseconds are normalised and add up to the remaining time, so the timerfd is
  armed for exactly that instant; for any other instant the value is zero, which disarms the
  timerfd.\<close>

theorem relative_itimerspec_exact:
  "settime clock (toRelativeItimerspec clock tp) = (if clock < tp then Some tp else None) \<and>
   it_nsec (toRelativeItimerspec clock tp) \<in> {0..<1000000000} \<and>
   it_sec (toRelativeItimerspec clock tp) \<ge> 0"
  using relative_pos [of clock tp] settime_future [of clock tp] settime_past [of tp clock]
  by (cases "clock < tp") (auto simp: toRelativeItimerspec_def)

text \<open>
  C24: a trigger fires exactly the timers that are due. Whatever operations came before,
  \<^verbatim>\<open>triggerTimer\<close> pushes the callbacks of the enabled timers whose expiration is not after
  the time it reads, in the order of their expirations, and nothing else.\<close>

theorem trigger_fires_due_timers:
  assumes "exec_all (tm_step rnd) init_tmgr ps = Some s"
  shows "tqueue (triggerTimer rnd clock clock2 s) = tqueue s @
      map (\<lambda>e. task_of_callback (tm_cb (timer_at (snd e) s)))
        (filter (\<lambda>e. fst e \<le> clock \<and> tm_on (timer_at (snd e) s)) (tset s)) \<and>
    sorted (map fst (tset s))"
proof -
  have ok: "tmgr_ok s" by (rule timers.run_good [OF tmgr_ok_init assms])
  then have ent: "entries_ok (tset s)" "tactive s = []" by (simp_all add: tmgr_ok_def tm_inv_def)
  have at: "timer_at a (s\<lparr>tactive := x, tset := y\<rparr>) = timer_at a s" for a x y
    by (simp add: timer_at_def)
  have rf: "tqueue (resetTimer rnd c t) = tqueue t" for c t
    using repeat_all_frame [of rnd "tactive t" t] by (simp add: resetTimer_def resetTimerFd_def Let_def)
  have srt: "sorted_wrt entry_less xs \<Longrightarrow> sorted (map fst xs)" for xs
    by (induction xs) (auto simp: entry_less_def)
  show ?thesis
    using ent fire_all_frame [of "set_due clock (tset s)"] srt
    by (simp add: triggerTimer_def Let_def rf at timer_entries.due_filter entries_ok_def conj_commute)
qed

lemma two_timers:
  "exec_all (tm_step id) init_tmgr
     [Register 0 20 7 0, Register 0 10 8 0, Register 5 15 9 0,
      Unregister \<lparr>tid_timer = Some 2, tid_id = 3\<rparr>] = Some s \<Longrightarrow>
   tset s = [(10, 1), (15, 2), (20, 0)] \<and> tqueue s = [] \<and>
     map (\<lambda>a. tm_cb (timer_at a s)) [0, 1, 2] = [7, 8, 9] \<and>
     map (\<lambda>a. tm_on (timer_at a s)) [0, 1, 2] = [True, True, False]"
  by (auto simp: registerTimer_def unregisterTimer_def tid_lock_def Let_def tm_insert_def set_timer_def
      timer_at_def resetTimerFd_def make_timer_id_def new_timer_def timer_enable_def init_tmgr_def
      entry_less_def)

theorem trigger_fires_due_timers_witness:
  "\<exists>s. tset s = [(10, 1), (15, 2), (20, 0)] \<and>
     tqueue (triggerTimer id 30 30 s) = [task_of_callback 8, task_of_callback 7]"
proof -
  obtain s where s: "exec_all (tm_step id) init_tmgr
     [Register 0 20 7 0, Register 0 10 8 0, Register 5 15 9 0,
      Unregister \<lparr>tid_timer = Some 2, tid_id = 3\<rparr>] = Some s" by simp
  from trigger_fires_due_timers [OF s, of 30 30] two_timers [OF s]
  show ?thesis by - (rule exI [of _ s], simp)
qed

text \<open>The entry under which a due timer is inserted again.\<close>

definition next_entry :: "(int \<Rightarrow> int) \<Rightarrow> tmgr \<Rightarrow> entry \<Rightarrow> entry" where
  "next_entry rnd s e = (timestamp_add rnd (fst e) (tm_interval (timer_at (snd e) s)), snd e)"

definition comes_again :: "tmgr \<Rightarrow> entry \<Rightarrow> bool" where
  "comes_again s e \<longleftrightarrow> tm_on (timer_at (snd e) s) \<and> tm_repeat (timer_at (snd e) s)"

lemma repeat_all_set:
  "tm_inv es s \<Longrightarrow> set (tset (repeat_all rnd es s)) =
     next_entry rnd s ` {e \<in> set es. comes_again s e} \<union> set (tset s)"
proof (induction es arbitrary: s)
  case (Cons e es)
  have exp: "tm_exp (timer_at (snd e) s) = fst e" using tm_inv_exp [OF Cons.prems] by simp
  have other: "snd x \<noteq> snd e" if "x \<in> set es" for x
    using Cons.prems that unfolding tm_inv_def by (metis (no_types) distinct.simps(2) imageI list.set_map list.simps(9))
  let ?t = "timer_repeat rnd (timer_at (snd e) s)"
  let ?s = "s\<lparr>timers := (timers s)(snd e \<mapsto> ?t), tset := set_insert (tm_exp ?t, snd e) (tset s)\<rparr>"
  have same: "comes_again ?s x = comes_again s x" "next_entry rnd ?s x = next_entry rnd s x"
    if "x \<in> set es" for x
    using other [OF that] by (simp_all add: comes_again_def next_entry_def timer_at_def)
  show ?case
  proof (cases "comes_again s e")
    case True
    then have "repeat_all rnd (e # es) s = repeat_all rnd es ?s"
      by (simp add: Let_def comes_again_def)
    moreover have "next_entry rnd ?s ` {x \<in> set es. comes_again ?s x} =
      next_entry rnd s ` {x \<in> set es. comes_again s x}"
      by (rule image_cong) (use same in auto)
    then have "set (tset (repeat_all rnd es ?s)) =
      next_entry rnd s ` {x \<in> set es. comes_again s x} \<union> set (tset ?s)"
      using Cons.IH [OF tm_inv_repeat [OF Cons.prems, of ?t]] by simp
    moreover have "(tm_exp ?t, snd e) = next_entry rnd s e"
      by (simp add: next_entry_def timer_repeat_def exp)
    ultimately show ?thesis using True by (auto simp: set_set_insert)
  next
    case False
    then have "repeat_all rnd (e # es) s = repeat_all rnd es s"
      by (auto simp: Let_def comes_again_def)
    with Cons.IH [OF tm_inv_skip [OF Cons.prems]] False show ?thesis by auto
  qed
qed simp

text \<open>
  C25: what is left after a trigger. The set holds the timers that were not yet due and, one
  interval later, those of the due timers that repeat and are still enabled; one-shot timers and
  cancelled ones are gone.\<close>

theorem trigger_reschedules:
  assumes "exec_all (tm_step rnd) init_tmgr ps = Some s"
  shows "set (tset (triggerTimer rnd clock clock2 s)) =
    {e \<in> set (tset s). clock < fst e} \<union>
    next_entry rnd s ` {e \<in> set (tset s). fst e \<le> clock \<and> comes_again s e}"
proof -
  have ok: "tmgr_ok s" by (rule timers.run_good [OF tmgr_ok_init assms])
  then have inv: "tm_inv [] s" and act: "tactive s = []" and ent: "entries_ok (tset s)"
    by (simp_all add: tmgr_ok_def tm_inv_def)
  let ?d = "set_due clock (tset s)"
  let ?s1 = "s\<lparr>tactive := ?d, tset := set_later clock (tset s)\<rparr>"
  let ?s2 = "fire_all ?d ?s1"
  have fr: "timers ?s2 = timers s" "tset ?s2 = set_later clock (tset s)" "tactive ?s2 = ?d"
    "next_tm ?s2 = next_tm ?s1"
    using fire_all_frame [of ?d ?s1] by simp_all
  have "tm_inv ?d ?s2"
    using tm_inv_split [OF inv, of clock ?d] tm_inv_frame [of ?s2 ?s1 ?d] fire_all_frame [of ?d ?s1]
    by simp
  from repeat_all_set [OF this, of rnd]
  have "set (tset (repeat_all rnd ?d ?s2)) =
    next_entry rnd s ` {e \<in> set ?d. comes_again s e} \<union> set (set_later clock (tset s))"
    by (simp add: fr next_entry_def comes_again_def timer_at_def)
  moreover have "tset (triggerTimer rnd clock clock2 s) = tset (repeat_all rnd ?d ?s2)"
    by (simp add: triggerTimer_def resetTimer_def Let_def act fr resetTimerFd_def)
  ultimately show ?thesis
    using ent by (auto simp: timer_entries.due_filter timer_entries.later_filter)
qed

lemma repeating_timer:
  "exec_all (tm_step id) init_tmgr [Register 0 20 7 0, Register 0 10 8 15] = Some s \<Longrightarrow>
   tset s = [(10, 1), (20, 0)] \<and> comes_again s (10, 1) \<and> next_entry id s (10, 1) = (25, 1)"
  by (auto simp: registerTimer_def Let_def tm_insert_def set_timer_def timer_at_def resetTimerFd_def
      make_timer_id_def new_timer_def timer_enable_def init_tmgr_def entry_less_def comes_again_def
      next_entry_def timestamp_add_def)

theorem trigger_reschedules_witness:
  "\<exists>s. tset s = [(10, 1), (20, 0)] \<and> set (tset (triggerTimer id 12 12 s)) = {(20, 0), (25, 1)}"
proof -
  obtain s where s: "exec_all (tm_step id) init_tmgr [Register 0 20 7 0, Register 0 10 8 15] = Some s"
    by simp
  have sel: "{e \<in> set (tset s). fst e \<le> 12 \<and> comes_again s e} = {(10, 1)}"
    "{e \<in> set (tset s). 12 < fst e} = {(20, 0)}"
    using repeating_timer [OF s] by auto
  have "set (tset (triggerTimer id 12 12 s)) = {(20, 0), (25, 1)}"
    unfolding trigger_reschedules [OF s] sel using repeating_timer [OF s] by auto
  then show ?thesis using repeating_timer [OF s] by - (rule exI [of _ s], simp)
qed

text \<open>The timerfd is armed for the first timer.\<close>

definition armed_first :: "tmgr \<Rightarrow> bool" where
  "armed_first s \<longleftrightarrow> (tset s \<noteq> [] \<longrightarrow> armed s = Some (fst (hd (tset s))))"

lemma hd_set_insert:
  "entries_ok xs \<Longrightarrow> xs \<noteq> [] \<Longrightarrow> fst (hd (set_insert e xs)) = min (fst e) (fst (hd xs))"
  by (cases xs) (auto simp: entry_less_def)

text \<open>
  C26: the timerfd is armed for the first timer, as long as time does not overtake it. If it
  was armed so, it is after registering a timer for a future instant, and it is after any
  trigger that leaves a first timer which is still in the future when the timerfd is set.\<close>

theorem timerfd_armed_for_first:
  assumes "exec_all (tm_step rnd) init_tmgr ps = Some s" "armed_first s"
  shows "(if clock < ts then armed_first (snd (registerTimer clock ts cb interval s)) else True) \<and>
    (let t = triggerTimer rnd clock clock2 s in
     if tset t = [] \<or> clock2 < fst (hd (tset t)) then armed_first t else armed t = None)"
proof (intro conjI)
  have ok: "tmgr_ok s" by (rule timers.run_good [OF tmgr_ok_init assms(1)])
  then have fresh: "timers s (next_tm s) = None" and ent: "entries_ok (tset s)"
    by (simp_all add: tmgr_ok_def tm_inv_def)
  have nonempty: "set_insert e xs \<noteq> []" for e xs by (cases xs) auto
  show "if clock < ts then armed_first (snd (registerTimer clock ts cb interval s)) else True"
    using assms(2) hd_set_insert [OF ent, of "(ts, next_tm s)"]
    by (cases "tset s = []")
      (auto simp: armed_first_def register_state [OF fresh] settime_future nonempty min_def)
  show "let t = triggerTimer rnd clock clock2 s in
     if tset t = [] \<or> clock2 < fst (hd (tset t)) then armed_first t else armed t = None"
  proof -
    define t where "t = triggerTimer rnd clock clock2 s"
    have "tm_inv [] t" using tmgr_ok_trigger [OF ok] by (simp add: t_def tmgr_ok_def)
    then have exp: "tm_exp (timer_at (snd (hd (tset t))) t) = fst (hd (tset t))" if "tset t \<noteq> []"
      using that by (intro tm_inv_exp) auto
    have "armed t = settime clock2 (toRelativeItimerspec clock2 (tm_exp (timer_at (snd (hd (tset t))) t)))"
      if "tset t \<noteq> []"
      using that unfolding t_def triggerTimer_def resetTimer_def Let_def
      by (auto simp: resetTimerFd_def timer_at_def split: if_splits)
    with exp have "tset t \<noteq> [] \<Longrightarrow>
        armed t = settime clock2 (toRelativeItimerspec clock2 (fst (hd (tset t))))" by simp
    then show ?thesis
      unfolding t_def [symmetric] Let_def
      by (auto simp: armed_first_def settime_future settime_past)
  qed
qed

theorem timerfd_armed_for_first_witness:
  "armed_first init_tmgr \<and> armed_first (snd (registerTimer 3 9 7 0 init_tmgr))"
  using timerfd_armed_for_first [of id "[]" init_tmgr 3 9 7 0 0]
  by (simp add: armed_first_def init_tmgr_def)

text \<open>
  A repetition that is overdue silences the manager. A timer that repeats every 10 ns is
  handled at time 25; its next expiration, 20, is already past, so the timerfd is disarmed. A timer
  registered afterwards is not the first and does not arm it either: from then on no timer fires.\<close>

theorem overdue_repetition_disarms:
  "map_option (\<lambda>s. (map fst (tset s), armed s, tqueue s))
     (exec_all (tm_step id) init_tmgr [Register 0 10 7 10, Trigger 25 25, Register 30 1000 8 0]) =
   Some ([20, 1000], None, [task_of_callback 7])"
  by (simp add: registerTimer_def triggerTimer_def resetTimer_def Let_def tm_insert_def set_timer_def
      timer_at_def resetTimerFd_def make_timer_id_def new_timer_def timer_enable_def init_tmgr_def
      entry_less_def timer_repeat_def timestamp_add_def set_due_def set_later_def settime_def
      toRelativeItimerspec_def)

end
