(* ===== verification/Koro_Io.thy ===== *)
theory Koro_Io
  imports Koro_Channel Koro_Timer Koro_Scheduler
begin

text \<open>
  The operations of \<^verbatim>\<open>IOManager\<close> (\<^verbatim>\<open>koro/io_manager.cpp\<close>) on descriptors, events
  and timers: the table of channels, the count of pending events, and the dispatch of one event
  of the poller. Its idle loop is part of \<^verbatim>\<open>Koro_Worker\<close>.
\<close>

section \<open>Lazy initialisation\<close>

text \<open>
  \<^verbatim>\<open>Scheduler::init\<close> runs its body in the initialiser of a function-local static variable,
  so once per process. \<open>started\<close> are the instances whose threads were started.
\<close>

record process =
  initialized :: bool
  started :: "nat set"

definition scheduler_init :: "nat \<Rightarrow> process \<Rightarrow> process" where
  "scheduler_init inst p =
     (if initialized p then p else p\<lparr>initialized := True, started := insert inst (started p)\<rparr>)"

text \<open>
  Construction and destruction. A new instance counts as stopped; the destructor of the plain
  scheduler asserts that it is stopped, that of the I/O manager stops it first. \<^const>\<open>None\<close>: an
  assertion fails.
\<close>

record sched_instance =
  i_io :: bool
  i_threads :: nat
  i_stop :: bool

definition new_instance :: "bool \<Rightarrow> nat \<Rightarrow> sched_instance option" where
  "new_instance b n = (if 0 < n then Some \<lparr>i_io = b, i_threads = n, i_stop = True\<rparr> else None)"

definition init_instance :: "nat \<Rightarrow> process \<times> sched_instance \<Rightarrow> process \<times> sched_instance" where
  "init_instance k px =
     (let (p, x) = px in (scheduler_init k p, if initialized p then x else x\<lparr>i_stop := False\<rparr>))"

definition stop_instance :: "sched_instance \<Rightarrow> sched_instance" where
  "stop_instance x = x\<lparr>i_stop := True\<rparr>"

definition end_scheduler :: "sched_instance \<Rightarrow> sched_instance option" where
  "end_scheduler x = (if i_stop x then Some x else None)"

definition end_iomanager :: "sched_instance \<Rightarrow> sched_instance option" where
  "end_iomanager x = (let y = stop_instance x in if i_stop y then end_scheduler y else None)"

lemma end_iomanager_safe: "end_iomanager x \<noteq> None"
  by (simp add: end_iomanager_def end_scheduler_def stop_instance_def)

text \<open>
  A plain scheduler fails its destructor's assertion exactly if it was the instance that started
  and nobody stopped it; an instance that never started may be destroyed at once.
\<close>

lemma end_scheduler_fails:
  assumes "new_instance b n = Some x" "init_instance k (p, x) = (p', y)"
  shows "end_scheduler y = None \<longleftrightarrow> \<not> initialized p"
    and "end_scheduler (stop_instance y) \<noteq> None"
    and "end_scheduler y = None \<Longrightarrow> k \<in> started p'"
  using assms
  by (auto simp: new_instance_def init_instance_def scheduler_init_def end_scheduler_def stop_instance_def
      split: if_splits)

section \<open>State\<close>

text \<open>
  Channels are objects in a store, so that a fiber can still refer to a channel that has left
  the table. \<open>io_tasks\<close> are the queues of the workers.
\<close>

record iom =
  io_threads :: nat
  io_pending :: u64
  io_index :: u64
  ctable :: "nat option list"
  chans :: "nat \<rightharpoonup> channel"
  next_ch :: nat
  io_tasks :: "nat \<Rightarrow> scheduled_task list"

definition init_iom :: "nat \<Rightarrow> iom" where
  "init_iom n = \<lparr>io_threads = n, io_pending = 0, io_index = 0, ctable = [], chans = Map.empty,
     next_ch = 0, io_tasks = (\<lambda>_. [])\<rparr>"

definition set_chan :: "nat \<Rightarrow> channel \<Rightarrow> iom \<Rightarrow> iom" where
  "set_chan c ch s = s\<lparr>chans := (chans s)(c \<mapsto> ch)\<rparr>"

section \<open>\<^verbatim>\<open>bindTaskQueue\<close>\<close>

text \<open>The loop that enlarges the table until the descriptor fits.\<close>

function grow_table :: "nat \<Rightarrow> 'a option list \<Rightarrow> 'a option list" where
  "grow_table fd chs =
     (if fd \<ge> length chs then grow_table fd (chs @ replicate (max (3 * fd div 2) (fd + 16) - length chs) None)
      else chs)"
  by auto
termination
  by (relation "measure (\<lambda>(fd, chs). Suc fd - length chs)") auto

declare grow_table.simps [simp del]

lemma grow_table_once:
  "grow_table fd chs =
     (if fd < length chs then chs
      else chs @ replicate (max (3 * fd div 2) (fd + 16) - length chs) None)"
  by (subst grow_table.simps, subst grow_table.simps) simp

lemma grow_table_fits: "fd < length (grow_table fd chs)"
  by (simp add: grow_table_once less_max_iff_disj)

lemma grow_table_nth:
  "i < length (grow_table fd chs) \<Longrightarrow> grow_table fd chs ! i = (if i < length chs then chs ! i else None)"
  by (auto simp: grow_table_once nth_append)

text \<open>
  \<open>tq\<close> is the queue of the calling worker, if it is one. A negative descriptor makes the new
  size a negative \<^verbatim>\<open>double\<close> converted to an unsigned type, which is undefined.
\<close>

definition bindTaskQueue :: "nat option \<Rightarrow> int \<Rightarrow> iom \<Rightarrow> (nat \<times> iom) option" where
  "bindTaskQueue tq fd s =
     (if fd < 0 then None
      else let s1 = s\<lparr>ctable := grow_table (nat fd) (ctable s)\<rparr> in
           case ctable s1 ! nat fd of
             Some c \<Rightarrow> Some (c, s1)
           | None \<Rightarrow>
               let (q, s2) = (case tq of
                     None \<Rightarrow> (submit_target (io_index s1) (io_threads s1), s1\<lparr>io_index := io_index s1 + 1\<rparr>)
                   | Some q \<Rightarrow> (q, s1));
                   c = next_ch s2
               in Some (c, (set_chan c (new_channel fd q) s2)\<lparr>next_ch := Suc c,
                    ctable := (ctable s2)[nat fd := Some c]\<rparr>))"

section \<open>Events\<close>

text \<open>
  \<open>ok\<close>: whether the \<^verbatim>\<open>epoll_ctl\<close> call of the update succeeds; a failure is only
  logged. \<open>herr\<close> is the error callback that the manager installs. \<^const>\<open>None\<close>: the
  assertion that the channel has a queue fails.
\<close>

definition registerEvent :: "callback \<Rightarrow> nat \<Rightarrow> u32 \<Rightarrow> callback \<Rightarrow> bool \<Rightarrow> bool \<Rightarrow> iom \<Rightarrow> (bool \<times> iom) option" where
  "registerEvent herr c event cb use_et ok s =
     (case chans s c of
        None \<Rightarrow> None
      | Some ch \<Rightarrow>
          if ch_queue ch = None then None
          else if event \<noteq> 0x001 \<and> event \<noteq> 0x004 then Some (False, s)
          else
            let ch1 = (if event = 0x001 then setReadCallback (Some cb) ch else setWriteCallback (Some cb) ch);
                ch2 = setEvents (ch_events ch1 OR event) (setErrorCallback (Some herr) ch1);
                ch3 = (if use_et then useET ch2 else ch2)
            in map_option (\<lambda>(r, ch4). (True, (set_chan c ch4 s)\<lparr>io_pending := io_pending s + 1\<rparr>))
                 (channel_update ok ch3))"

definition unregisterEvent :: "nat \<Rightarrow> u32 \<Rightarrow> bool \<Rightarrow> iom \<Rightarrow> iom option" where
  "unregisterEvent c event ok s =
     (case chans s c of
        None \<Rightarrow> None
      | Some ch \<Rightarrow>
          if ch_queue ch = None then None
          else
            let (ch1, n1) = (if event AND 0x001 \<noteq> 0
                  then (setReadCallback None (setEvents (ch_events ch AND NOT 0x001) ch), 1) else (ch, 0));
                (ch2, n2) = (if event AND 0x004 \<noteq> 0
                  then (setWriteCallback None (setEvents (ch_events ch1 AND NOT 0x004) ch1), n1 + 1)
                  else (ch1, n1))
            in map_option (\<lambda>(r, ch3). (set_chan c ch3 s)\<lparr>io_pending := io_pending s - n2\<rparr>)
                 (channel_update ok ch2))"

definition io_removeChannel :: "nat \<Rightarrow> bool \<Rightarrow> iom \<Rightarrow> iom option" where
  "io_removeChannel c ok s =
     (case chans s c of
        None \<Rightarrow> None
      | Some ch \<Rightarrow>
          if ch_queue ch = None then Some s
          else
            let fd = ch_fd ch;
                s1 = (if 0 \<le> fd \<and> nat fd < length (ctable s) \<and> ctable s ! nat fd \<noteq> None
                      then s\<lparr>ctable := (ctable s)[nat fd := None]\<rparr> else s);
                ch1 = setErrorCallback None (setWriteCallback None (setReadCallback None ch))
            in if in_epoll ch1
               then map_option (\<lambda>(r, ch2). set_chan c ch2 s1) (channel_remove ok (setEvents 0 ch1))
               else Some (set_chan c ch1 s1))"

section \<open>Dispatch of one event by \<^verbatim>\<open>idle\<close>\<close>

datatype dispatch = DrainWakeup | FireTimers | Delivered

definition dispatch_event :: "int \<Rightarrow> int \<Rightarrow> int \<times> u32 \<Rightarrow> iom \<Rightarrow> dispatch \<times> iom" where
  "dispatch_event wakeup_fd timer_fd ev s =
     (let (fd, revents) = ev in
      if wakeup_fd = fd then (DrainWakeup, s)
      else if timer_fd = fd then (FireTimers, s)
      else (Delivered,
        case (if 0 \<le> fd \<and> nat fd < length (ctable s) then ctable s ! nat fd else None) of
          None \<Rightarrow> s
        | Some c \<Rightarrow>
            (case chans s c of
               None \<Rightarrow> s
             | Some ch \<Rightarrow>
                 (case ch_queue ch of
                    None \<Rightarrow> s
                  | Some q \<Rightarrow>
                      let (ch1, ts) = handleEvent (setReadyEvent revents ch) (io_tasks s q)
                      in (set_chan c ch1 s)\<lparr>io_tasks := (io_tasks s)(q := ts)\<rparr>))))"

section \<open>The channels that a queue owns\<close>

text \<open>
  \<^verbatim>\<open>IOManager::onInit\<close> makes for each queue a channel of its wake-up eventfd; the constructor
  of \<^verbatim>\<open>TimerManager\<close> makes one of its timerfd. The destructors take them out of the
  poller and close the descriptor, the last component of the result.
\<close>

definition make_wakeup_channel :: "bool \<Rightarrow> int \<Rightarrow> nat \<Rightarrow> (ctl \<times> channel) option" where
  "make_wakeup_channel ok fd q = enableReading ok (new_channel fd q)"

definition make_timer_channel :: "bool \<Rightarrow> int \<Rightarrow> nat \<Rightarrow> callback \<Rightarrow> (ctl \<times> channel) option" where
  "make_timer_channel ok fd q trigger = enableReading ok (setOnTimeCallback (Some trigger) (new_channel fd q))"

definition end_task_queue :: "bool \<Rightarrow> channel \<Rightarrow> (ctl list \<times> int) option" where
  "end_task_queue ok ch = map_option (\<lambda>(r, c). ([r], ch_fd ch)) (channel_remove ok ch)"

definition end_timer_manager :: "bool \<Rightarrow> bool \<Rightarrow> channel \<Rightarrow> (ctl list \<times> int) option" where
  "end_timer_manager ok1 ok2 ch =
     (case disableAll ok1 ch of
        None \<Rightarrow> None
      | Some (r1, c1) \<Rightarrow> map_option (\<lambda>(r2, c2). ([r1, r2], ch_fd ch)) (channel_remove ok2 c1))"

lemma owned_channels_end:
  "make_wakeup_channel True fd q = Some (r, ch) \<Longrightarrow> end_task_queue ok ch = Some ([CtlDel fd], fd)"
  "make_timer_channel True fd q cb = Some (r, ch) \<Longrightarrow>
   end_timer_manager ok1 ok2 ch = Some ([CtlMod fd 0, CtlDel fd], fd)"
  by (auto simp: make_wakeup_channel_def make_timer_channel_def end_task_queue_def end_timer_manager_def
      new_channel_def ch_op_defs)

section \<open>Timers\<close>

text \<open>
  The count of pending events and the timer manager of the calling worker's queue.
\<close>

definition runAt :: "int \<Rightarrow> int \<Rightarrow> callback \<Rightarrow> u64 \<times> tmgr \<Rightarrow> timer_id \<times> u64 \<times> tmgr" where
  "runAt clock ts cb s =
     (let (tid, tm) = registerTimer clock ts cb (- 1000000000) (snd s) in (tid, fst s + 1, tm))"

definition runAfter :: "(int \<Rightarrow> int) \<Rightarrow> int \<Rightarrow> int \<Rightarrow> callback \<Rightarrow> u64 \<times> tmgr \<Rightarrow> timer_id \<times> u64 \<times> tmgr" where
  "runAfter rnd clock delay cb s =
     (let (tid, tm) = registerTimer clock (timestamp_add rnd clock delay) cb (- 1000000000) (snd s)
      in (tid, fst s + 1, tm))"

definition runEvery :: "(int \<Rightarrow> int) \<Rightarrow> int \<Rightarrow> int \<Rightarrow> callback \<Rightarrow> u64 \<times> tmgr \<Rightarrow> timer_id \<times> u64 \<times> tmgr" where
  "runEvery rnd clock interval cb s =
     (let (tid, tm) = registerTimer clock (timestamp_add rnd clock interval) cb interval (snd s)
      in (tid, fst s + 1, tm))"

definition cancellTimer :: "timer_id \<Rightarrow> u64 \<times> tmgr \<Rightarrow> u64 \<times> tmgr" where
  "cancellTimer tid s = (fst s - 1, unregisterTimer tid (snd s))"

section \<open>The table of channels\<close>

text \<open>
  An occupied place holds a channel of that descriptor, bound to a queue of the pool; a channel
  occurs at most in the place of its descriptor.
\<close>

definition slot_ok :: "iom \<Rightarrow> nat \<Rightarrow> nat \<Rightarrow> bool" where
  "slot_ok s i c \<longleftrightarrow> c < next_ch s \<and>
     (case chans s c of None \<Rightarrow> False | Some ch \<Rightarrow> ch_fd ch = int i \<and> ch_queue ch \<noteq> None)"

definition table_ok :: "iom \<Rightarrow> bool" where
  "table_ok s \<longleftrightarrow> (\<forall>i < length (ctable s). \<forall>c. ctable s ! i = Some c \<longrightarrow> slot_ok s i c)"

datatype io_op = Bind "nat option" int | Register nat u32 callback bool bool
  | Unregister nat u32 bool | Remove nat bool | Dispatch int int "int \<times> u32"

fun io_step :: "callback \<Rightarrow> iom \<Rightarrow> io_op \<Rightarrow> iom option" where
  "io_step herr s (Bind tq fd) = map_option snd (bindTaskQueue tq fd s)"
| "io_step herr s (Register c e cb et ok) = map_option snd (registerEvent herr c e cb et ok s)"
| "io_step herr s (Unregister c e ok) = unregisterEvent c e ok s"
| "io_step herr s (Remove c ok) = io_removeChannel c ok s"
| "io_step herr s (Dispatch w t ev) = Some (snd (dispatch_event w t ev s))"

lemma channel_update_frame:
  "channel_update ok ch = Some (r, ch') \<Longrightarrow>
   ch_fd ch' = ch_fd ch \<and> ch_queue ch' = ch_queue ch \<and> ch_events ch' = ch_events ch \<and>
   read_cb ch' = read_cb ch \<and> write_cb ch' = write_cb ch \<and> error_cb ch' = error_cb ch \<and> ch_queue ch \<noteq> None"
  by (auto simp: channel_update_def updateChannel_def split: if_splits)

lemma table_ok_set_chan:
  assumes "table_ok s" "chans s c = Some ch" "ch_fd ch' = ch_fd ch" "ch_queue ch' = ch_queue ch"
  shows "table_ok (set_chan c ch' s)"
proof -
  have "slot_ok (set_chan c ch' s) i d" if "slot_ok s i d" for i d
    using that assms(2-4) by (cases "d = c") (auto simp: slot_ok_def set_chan_def)
  with assms(1) show ?thesis by (auto simp: table_ok_def set_chan_def)
qed

lemma table_ok_frame:
  "ctable t = ctable s \<Longrightarrow> chans t = chans s \<Longrightarrow> next_ch t = next_ch s \<Longrightarrow> table_ok t = table_ok s"
  by (simp add: table_ok_def slot_ok_def)

lemma bindTaskQueue_cases [consumes 1, case_names old fresh]:
  assumes "bindTaskQueue tq fd s = Some (c, t)"
  obtains
    (old) "0 \<le> fd" "grow_table (nat fd) (ctable s) ! nat fd = Some c"
      "t = s\<lparr>ctable := grow_table (nat fd) (ctable s)\<rparr>"
  | (fresh) q where "0 \<le> fd" "grow_table (nat fd) (ctable s) ! nat fd = None" "c = next_ch s"
      "ctable t = (grow_table (nat fd) (ctable s))[nat fd := Some c]" "next_ch t = Suc c"
      "chans t = (chans s)(c \<mapsto> new_channel fd q)"
  using assms
  by (auto simp: bindTaskQueue_def Let_def set_chan_def split: if_splits option.splits)

lemma table_ok_bind:
  assumes "table_ok s" "bindTaskQueue tq fd s = Some (c, t)"
  shows "table_ok t"
proof -
  let ?tab = "grow_table (nat fd) (ctable s)"
  have slot: "slot_ok s i d" if "i < length ?tab" "?tab ! i = Some d" for i d
    using that assms(1) grow_table_nth [of i "nat fd" "ctable s"]
    by (auto simp: table_ok_def split: if_splits)
  from assms(2) show ?thesis
  proof (cases rule: bindTaskQueue_cases)
    case old
    with slot show ?thesis by (auto simp: table_ok_def slot_ok_def)
  next
    case (fresh q)
    have "slot_ok t k d" if k: "k < length ?tab" "?tab[nat fd := Some c] ! k = Some d" for k d
    proof (cases "k = nat fd")
      case True
      with k fresh(1) show ?thesis by (simp add: fresh slot_ok_def new_channel_def)
    next
      case False
      with k slot [of k d] show ?thesis by (auto simp: fresh slot_ok_def)
    qed
    then show ?thesis by (simp add: table_ok_def fresh(4))
  qed
qed

lemma registerEvent_frame:
  assumes "registerEvent herr c e cb et ok s = Some (b, t)"
  shows "t = s \<or> (\<exists>ch ch' p. chans s c = Some ch \<and> ch_fd ch' = ch_fd ch \<and> ch_queue ch' = ch_queue ch \<and>
    t = (set_chan c ch' s)\<lparr>io_pending := p\<rparr>)"
  using assms
  by (fastforce simp: registerEvent_def Let_def setEvents_def useET_def
      split: option.splits if_splits dest: channel_update_frame)

lemma unregisterEvent_frame:
  assumes "unregisterEvent c e ok s = Some t"
  shows "\<exists>ch ch' p. chans s c = Some ch \<and> ch_fd ch' = ch_fd ch \<and> ch_queue ch' = ch_queue ch \<and>
    t = (set_chan c ch' s)\<lparr>io_pending := p\<rparr>"
  using assms
  by (fastforce simp: unregisterEvent_def Let_def setEvents_def
      split: option.splits if_splits dest: channel_update_frame)

lemma table_ok_remove:
  assumes "table_ok s" "io_removeChannel c ok s = Some t"
  shows "table_ok t"
proof -
  from assms(2) obtain ch where ch: "chans s c = Some ch"
    by (auto simp: io_removeChannel_def split: option.splits)
  let ?i = "nat (ch_fd ch)"
  let ?tab = "if 0 \<le> ch_fd ch \<and> ?i < length (ctable s) \<and> ctable s ! ?i \<noteq> None
    then (ctable s)[?i := None] else ctable s"
  have cases: "t = s \<or> (\<exists>ch'. t = s\<lparr>ctable := ?tab, chans := (chans s)(c \<mapsto> ch')\<rparr>)"
    using assms(2) ch
    by (auto simp: io_removeChannel_def Let_def set_chan_def split: option.splits if_splits)
  have gone: "slot_ok s i d \<and> d \<noteq> c" if "i < length (ctable s)" "?tab ! i = Some d" for i d
  proof -
    have old: "ctable s ! i = Some d" "0 \<le> ch_fd ch \<and> ?i < length (ctable s) \<Longrightarrow> i \<noteq> ?i"
      using that by (auto split: if_splits simp: nth_list_update)
    then have ok: "slot_ok s i d" using that(1) assms(1) by (auto simp: table_ok_def)
    moreover have "d \<noteq> c"
    proof
      assume "d = c"
      with ok ch have "ch_fd ch = int i" by (simp add: slot_ok_def)
      with old(2) that(1) show False by simp
    qed
    ultimately show ?thesis by simp
  qed
  have len: "length ?tab = length (ctable s)" by simp
  from cases show ?thesis
  proof (elim disjE exE)
    fix ch'
    assume t: "t = s\<lparr>ctable := ?tab, chans := (chans s)(c \<mapsto> ch')\<rparr>"
    have "slot_ok t i d" if "i < length (ctable s)" "?tab ! i = Some d" for i d
      using gone [OF that] by (auto simp: t slot_ok_def)
    then show ?thesis unfolding table_ok_def t using len by simp
  qed (use assms(1) in simp)
qed

lemma handleEvent_frame:
  "ch_fd (fst (handleEvent ch ts)) = ch_fd ch" "ch_queue (fst (handleEvent ch ts)) = ch_queue ch"
  by (simp_all add: handleEvent_def Let_def)

lemma dispatch_event_cases [case_names same pushed]:
  obtains
    (same) "snd (dispatch_event w tm ev s) = s"
  | (pushed) c ch ch' f where "chans s c = Some ch" "ch_fd ch' = ch_fd ch" "ch_queue ch' = ch_queue ch"
      "snd (dispatch_event w tm ev s) = (set_chan c ch' s)\<lparr>io_tasks := f\<rparr>"
proof -
  obtain fd rev where ev: "ev = (fd, rev)" by fastforce
  let ?slot = "if 0 \<le> fd \<and> nat fd < length (ctable s) then ctable s ! nat fd else None"
  show thesis
  proof (cases "w = fd \<or> tm = fd \<or> ?slot = None")
    case True
    then have "snd (dispatch_event w tm ev s) = s"
      by (auto simp: dispatch_event_def ev simp del: if_split_asm split: option.split)
    then show thesis by (rule same)
  next
    case False
    then obtain c where c: "w \<noteq> fd" "tm \<noteq> fd" "?slot = Some c" by fastforce
    then have idx: "0 \<le> fd" "nat fd < length (ctable s)" "ctable s ! nat fd = Some c"
      by (simp_all split: if_splits)
    show thesis
    proof (cases "chans s c")
      case None
      with c have "snd (dispatch_event w tm ev s) = s" by (simp add: dispatch_event_def ev)
      then show thesis by (rule same)
    next
      case (Some ch)
      show thesis
      proof (cases "ch_queue ch")
        case None
        with c Some have "snd (dispatch_event w tm ev s) = s" by (simp add: dispatch_event_def ev)
        then show thesis by (rule same)
      next
        case (Some q)
        let ?h = "handleEvent (ch\<lparr>ch_revents := rev\<rparr>) (io_tasks s q)"
        have "snd (dispatch_event w tm ev s) =
          (set_chan c (fst ?h) s)\<lparr>io_tasks := (io_tasks s)(q := snd ?h)\<rparr>"
          using c(1,2) idx Some \<open>chans s c = Some ch\<close>
          by (simp add: dispatch_event_def ev case_prod_beta Let_def)
        then show thesis
          by (rule pushed [OF \<open>chans s c = Some ch\<close>, rotated 2]) (simp_all add: handleEvent_frame)
      qed
    qed
  qed
qed

lemma table_ok_dispatch:
  assumes "table_ok s"
  shows "table_ok (snd (dispatch_event w tm ev s))"
proof (cases rule: dispatch_event_cases [of w tm ev s])
  case (pushed c ch ch' f)
  with table_ok_set_chan [OF assms] have "table_ok (set_chan c ch' s)" by simp
  then show ?thesis unfolding pushed(4) by (subst table_ok_frame [of _ "set_chan c ch' s"]) simp_all
qed (use assms in simp)

lemma table_ok_step:
  assumes "table_ok s" "io_step herr s p = Some t"
  shows "table_ok t"
proof (cases p)
  case (Bind tq fd)
  with assms table_ok_bind show ?thesis by auto
next
  case (Register c e cb et ok)
  with assms(2) obtain b where "registerEvent herr c e cb et ok s = Some (b, t)" by auto
  from registerEvent_frame [OF this] show ?thesis
  proof (elim disjE exE conjE)
    fix ch ch' p
    assume a: "chans s c = Some ch" "ch_fd ch' = ch_fd ch" "ch_queue ch' = ch_queue ch"
      and t: "t = (set_chan c ch' s)\<lparr>io_pending := p\<rparr>"
    show ?thesis unfolding t using table_ok_set_chan [OF assms(1) a]
      by (subst table_ok_frame [of _ "set_chan c ch' s"]) simp_all
  qed (use assms(1) in simp)
next
  case (Unregister c e ok)
  with assms(2) have "unregisterEvent c e ok s = Some t" by simp
  from unregisterEvent_frame [OF this] show ?thesis
  proof (elim exE conjE)
    fix ch ch' p
    assume a: "chans s c = Some ch" "ch_fd ch' = ch_fd ch" "ch_queue ch' = ch_queue ch"
      and t: "t = (set_chan c ch' s)\<lparr>io_pending := p\<rparr>"
    show ?thesis unfolding t using table_ok_set_chan [OF assms(1) a]
      by (subst table_ok_frame [of _ "set_chan c ch' s"]) simp_all
  qed
next
  case (Remove c ok)
  with assms show ?thesis using table_ok_remove by simp
next
  case (Dispatch w tm ev)
  with assms(2) have "t = snd (dispatch_event w tm ev s)" by simp
  then show ?thesis using table_ok_dispatch [OF assms(1)] by simp
qed

interpretation io_machine: machine "io_step herr" table_ok for herr
  by unfold_locales (rule table_ok_step)

lemma table_ok_init: "table_ok (init_iom n)"
  by (simp add: table_ok_def init_iom_def)

section \<open>Properties\<close>

text \<open>
  C30: a descriptor has one channel. After any sequence of operations,
  \<^verbatim>\<open>bindTaskQueue\<close> returns for a valid descriptor a channel of that descriptor with a task
  queue, and a second call, from whatever thread, returns the same channel.\<close>

theorem bind_stable:
  assumes "exec_all (io_step herr) (init_iom n) ps = Some s" "0 \<le> fd"
  shows "\<exists>c t. bindTaskQueue tq fd s = Some (c, t) \<and>
    (case chans t c of None \<Rightarrow> False | Some ch \<Rightarrow> ch_fd ch = fd \<and> ch_queue ch \<noteq> None) \<and>
    bindTaskQueue tq' fd t = Some (c, t)"
proof -
  have ok: "table_ok s" by (rule io_machine.run_good [OF table_ok_init assms(1)])
  let ?tab = "grow_table (nat fd) (ctable s)"
  have fits: "nat fd < length ?tab" by (rule grow_table_fits)
  have "bindTaskQueue tq fd s \<noteq> None"
    using assms(2) by (auto simp: bindTaskQueue_def Let_def split: option.split)
  then obtain c t where bind: "bindTaskQueue tq fd s = Some (c, t)" by auto
  have slot: "length ?tab = length (ctable t)" "ctable t ! nat fd = Some c"
    using bind fits by (cases rule: bindTaskQueue_cases; simp)+
  have "table_ok t" by (rule table_ok_bind [OF ok bind])
  then have "slot_ok t (nat fd) c" using slot fits by (simp add: table_ok_def)
  then have ch: "case chans t c of None \<Rightarrow> False | Some ch \<Rightarrow> ch_fd ch = fd \<and> ch_queue ch \<noteq> None"
    using assms(2) by (simp add: slot_ok_def split: option.splits)
  have "grow_table (nat fd) (ctable t) = ctable t"
    using slot fits by (simp add: grow_table_once)
  then have "bindTaskQueue tq' fd t = Some (c, t)"
    using slot assms(2) by (simp add: bindTaskQueue_def Let_def)
  with bind ch show ?thesis by blast
qed

theorem bind_stable_witness:
  "\<exists>c t. bindTaskQueue None 5 (init_iom 2) = Some (c, t) \<and>
    (case chans t c of None \<Rightarrow> False | Some ch \<Rightarrow> ch_fd ch = 5 \<and> ch_queue ch \<noteq> None) \<and>
    bindTaskQueue (Some 1) 5 t = Some (c, t)"
  by (rule bind_stable [of 9 2 "[]"]) simp_all

text \<open>
  Waiting for an event leaves no trace. Registering an event and unregistering it again
  restores the count of pending events, clears the event's callback and its bit, and changes no
  other bit of the interest than the edge-trigger flag.\<close>

theorem register_unregister_balance:
  assumes "chans s c = Some ch" "ch_queue ch = Some q" "e \<in> {EPOLLIN, EPOLLOUT}"
    and "registerEvent herr c e cb et ok1 s = Some (r, s1)" "unregisterEvent c e ok2 s1 = Some s2"
  shows "r \<and> io_pending s1 = io_pending s + 1 \<and> io_pending s2 = io_pending s \<and>
    (case chans s2 c of None \<Rightarrow> False
     | Some ch2 \<Rightarrow> ch_events ch2 AND e = 0 \<and>
         ch_events ch2 AND NOT (e OR EPOLLET) = ch_events ch AND NOT (e OR EPOLLET) \<and>
         (if e = EPOLLIN then read_cb ch2 else write_cb ch2) = None)"
proof -
  have bits: "((x OR y) AND NOT y) AND y = 0" "(((x OR y) OR z) AND NOT y) AND y = 0"
    "((x OR y) AND NOT y) AND NOT (y OR z) = x AND NOT (y OR z)"
    "(((x OR y) OR z) AND NOT y) AND NOT (y OR z) = x AND NOT (y OR z)" for x y z :: u32
    by (auto intro!: bit_word_eqI simp: bit_simps)
  have e: "e = 0x001 \<or> e = 0x004" using assms(3) by (auto simp: epoll_defs)
  then show ?thesis
  proof
    assume [simp]: "e = 0x001"
    have v: "(1::u32) AND 4 = 0" "(1::u32) = EPOLLIN" by (simp_all add: epoll_defs)
    show ?thesis
      using assms(1,2,4,5) bits [of _ 1]
      by (auto simp: registerEvent_def unregisterEvent_def Let_def setEvents_def useET_def set_chan_def
          EPOLLIN_def split: if_splits dest!: channel_update_frame)
  next
    assume [simp]: "e = 0x004"
    have v: "(4::u32) AND 1 = 0" "(4::u32) \<noteq> EPOLLIN" by (simp_all add: epoll_defs)
    show ?thesis
      using assms(1,2,4,5) bits [of _ 4]
      by (auto simp: registerEvent_def unregisterEvent_def Let_def setEvents_def useET_def set_chan_def
          EPOLLIN_def split: if_splits dest!: channel_update_frame)
  qed
qed

definition bound_iom :: iom where
  "bound_iom = (case bindTaskQueue (Some 0) 5 (init_iom 2) of Some (c, t) \<Rightarrow> t | None \<Rightarrow> init_iom 2)"

lemma bound_iom: "chans bound_iom 0 = Some (new_channel 5 0)" "io_pending bound_iom = 0"
  by (simp_all add: bound_iom_def bindTaskQueue_def init_iom_def grow_table_once set_chan_def)

lemma bound_register:
  "registerEvent 9 0 1 7 True True bound_iom =
     Some (True, (set_chan 0 ((new_channel 5 0)\<lparr>read_cb := Some 7, error_cb := Some 9,
       ch_events := 0x80000001, in_epoll := True\<rparr>) bound_iom)\<lparr>io_pending := 1\<rparr>)"
  by (simp add: registerEvent_def bound_iom setEvents_def useET_def channel_update_def
      updateChannel_def new_channel_def EPOLLET_def)

theorem register_unregister_balance_witness:
  "\<exists>s1 s2. registerEvent 9 0 1 7 True True bound_iom = Some (True, s1) \<and> io_pending s1 = 1 \<and>
     unregisterEvent 0 1 True s1 = Some s2 \<and> io_pending s2 = 0"
proof -
  obtain s1 where s1: "registerEvent 9 0 1 7 True True bound_iom = Some (True, s1)"
    using bound_register by blast
  have "unregisterEvent 0 1 True s1 \<noteq> None"
    using s1 bound_register
    by (auto simp: unregisterEvent_def set_chan_def channel_update_def updateChannel_def setEvents_def
        new_channel_def Let_def)
  then obtain s2 where s2: "unregisterEvent 0 1 True s1 = Some s2" by auto
  have q: "ch_queue (new_channel 5 0) = Some 0" by (simp add: new_channel_def)
  from register_unregister_balance [OF bound_iom(1) q _ s1 s2] s1 s2 bound_iom(2)
  show ?thesis by (intro exI [of _ s1] exI [of _ s2]) (simp add: EPOLLIN_def)
qed

text \<open>
  Closing a descriptor that a fiber waits on. \<^verbatim>\<open>removeChannel\<close> clears the callbacks
  but does not give the pending event back: nothing is left that could resume the waiting fiber,
  and the count stays at one, so \<^verbatim>\<open>stopping\<close> will never be true.\<close>

theorem remove_keeps_pending:
  "map_option (\<lambda>s. (io_pending s, map_option (\<lambda>ch. (read_cb ch, write_cb ch, in_epoll ch)) (chans s 0),
       ctable s ! 5))
     (exec_all (io_step 9) bound_iom [Register 0 1 7 True True, Remove 0 True]) =
   Some (1, Some (None, None, False), None)"
proof -
  have "ctable bound_iom = (replicate 21 None)[5 := Some 0]"
    by (simp add: bound_iom_def bindTaskQueue_def init_iom_def grow_table_once set_chan_def)
  then show ?thesis
    by (simp add: bound_register io_removeChannel_def set_chan_def setEvents_def new_channel_def
        channel_remove_def removeChannel_def Let_def)
qed

text \<open>
  The count of pending events drifts with timers. A one-shot timer that has fired is
  still counted as pending, and cancelling a timer twice takes the count below zero, to
  \<open>2^64 - 1\<close>.\<close>

theorem timer_pending_drifts:
  "(let (tid, p, tm) = runAt 0 10 7 (0, init_tmgr); tm' = triggerTimer id 12 12 tm in
      (p, tset tm', tqueue tm')) = (1, [], [task_of_callback 7]) \<and>
   (let (tid, st) = runAt 0 10 7 (0, init_tmgr) in fst (cancellTimer tid (cancellTimer tid st))) = - 1"
  by (simp add: runAt_def cancellTimer_def registerTimer_def triggerTimer_def resetTimer_def Let_def
      tm_insert_def set_timer_def timer_at_def resetTimerFd_def make_timer_id_def new_timer_def
      timer_enable_def init_tmgr_def set_due_def set_later_def)

text \<open>
  Only one scheduler of a process can start. The initialisation is guarded by a variable
  that all instances share, so \<^verbatim>\<open>init\<close> starts the instance that calls it first and no
  other.\<close>

theorem only_first_scheduler_starts:
  "started (fold scheduler_init (i # is) \<lparr>initialized = False, started = {}\<rparr>) = {i}"
proof -
  have "started (fold scheduler_init js p) = started p" if "initialized p" for js p
    using that by (induction js arbitrary: p) (auto simp: scheduler_init_def)
  then show ?thesis by (simp add: scheduler_init_def)
qed

end
