(* ===== verification/Koro_Idle.thy ===== *)
theory Koro_Idle
  imports Koro_Io Koro_Worker_Inv
begin

text \<open>
  One round of \<^verbatim>\<open>IOManager::idle\<close> in detail: the events that \<^verbatim>\<open>epoll_wait\<close> reports,
  by descriptor, go to the wake-up eventfd, the timer manager of the queue, or a channel of the
  table. The round is shown to do what the scheduler's machine of \<^verbatim>\<open>Koro_Worker\<close>, which
  knows only of tasks that events push, does in its place. The theory also holds the eventfd and the
  creation of descriptors (\<^verbatim>\<open>koro/file_descriptor.h\<close>).
\<close>

section \<open>Descriptors\<close>

text \<open>
  \<open>fd\<close> is the result of the system call; a failure ends the process, which is an \<open>Inl\<close>. The
  three functions differ in the call only.
\<close>

datatype process_exit = ExitFailure

definition checkErrno :: "int \<Rightarrow> process_exit + unit" where
  "checkErrno saved_errno = (if saved_errno \<noteq> 0 then Inl ExitFailure else Inr ())"

definition createEventFd :: "int \<Rightarrow> process_exit + int" where
  "createEventFd fd = (if fd = - 1 then Inl ExitFailure else Inr fd)"

definition createEpollFd :: "int \<Rightarrow> process_exit + int" where
  "createEpollFd fd = (if fd = - 1 then Inl ExitFailure else Inr fd)"

definition createTimerFd :: "int \<Rightarrow> process_exit + int" where
  "createTimerFd fd = (if fd = - 1 then Inl ExitFailure else Inr fd)"

text \<open>
  The counter of an eventfd that does not block: a write of one fails when the counter is at its
  maximum, a read fails when it is zero and resets it otherwise. The flag is whether the call
  transferred its eight bytes; if not, the code logs an error and goes on.
\<close>

definition eventfd_max :: u64 where
  "eventfd_max = 0xFFFFFFFFFFFFFFFE"

definition writeEventFd :: "u64 \<Rightarrow> bool \<times> u64" where
  "writeEventFd c = (if c < eventfd_max then (True, c + 1) else (False, c))"

definition readEventFd :: "u64 \<Rightarrow> bool \<times> u64" where
  "readEventFd c = (if c \<noteq> 0 then (True, 0) else (False, c))"

datatype eventfd_op = EvWrite | EvRead

fun eventfd_run :: "eventfd_op list \<Rightarrow> u64 \<Rightarrow> u64" where
  "eventfd_run [] c = c"
| "eventfd_run (EvWrite # ops) c = eventfd_run ops (snd (writeEventFd c))"
| "eventfd_run (EvRead # ops) c = eventfd_run ops (snd (readEventFd c))"

text \<open>How many writes have come since the last read, without a bound.\<close>

fun unread :: "eventfd_op list \<Rightarrow> nat \<Rightarrow> nat" where
  "unread [] k = k"
| "unread (EvWrite # ops) k = unread ops (Suc k)"
| "unread (EvRead # ops) k = unread ops 0"

lemma write_saturates:
  "unat c = min k (unat eventfd_max) \<Longrightarrow> unat (snd (writeEventFd c)) = min (Suc k) (unat eventfd_max)"
  by (auto simp: writeEventFd_def eventfd_max_def word_less_nat_alt unat_plus_simple [THEN iffD1]
      word_le_nat_alt unat_word_ariths min_def split: if_splits)

lemma eventfd_run_unread:
  "unat c = min k (unat eventfd_max) \<Longrightarrow>
   unat (eventfd_run ops c) = min (unread ops k) (unat eventfd_max)"
proof (induction ops arbitrary: c k)
  case (Cons x ops)
  show ?case
  proof (cases x)
    case EvWrite
    with Cons.IH [OF write_saturates [OF Cons.prems]] show ?thesis by simp
  next
    case EvRead
    have "unat (snd (readEventFd c)) = min 0 (unat eventfd_max)" by (simp add: readEventFd_def)
    with Cons.IH EvRead show ?thesis by simp
  qed
qed simp

section \<open>What a queue owns\<close>

text \<open>The poller: its descriptor and the size of its buffer of events.\<close>

record poller =
  ep_fd :: int
  ep_cap :: nat

definition new_poller :: "int \<Rightarrow> process_exit + poller" where
  "new_poller fd =
     (case createEpollFd fd of Inl e \<Rightarrow> Inl e | Inr epfd \<Rightarrow> Inr \<lparr>ep_fd = epfd, ep_cap = kInitEventSize\<rparr>)"

definition end_poller :: "poller \<Rightarrow> poller \<times> int option" where
  "end_poller p = (let (fd, r) = fd_close (ep_fd p) in (p\<lparr>ep_fd := fd\<rparr>, r))"

record queue_io =
  q_poller :: poller
  q_wakeup :: channel
  q_eventfd :: u64
  q_timer :: channel
  q_tmgr :: tmgr

text \<open>
  One iteration of \<^verbatim>\<open>IOManager::onInit\<close>: \<open>ep\<close>, \<open>ev\<close> and \<open>tf\<close> are the results of the three
  system calls that create descriptors, \<open>ok1\<close> and \<open>ok2\<close> those of the two registrations, \<open>trigger\<close>
  is the bound \<^verbatim>\<open>triggerTimer\<close>. \<^const>\<open>None\<close>: an assertion fails.
\<close>

definition onInit_queue :: "int \<Rightarrow> int \<Rightarrow> int \<Rightarrow> bool \<Rightarrow> bool \<Rightarrow> callback \<Rightarrow> nat \<Rightarrow> process_exit + queue_io option" where
  "onInit_queue ep ev tf ok1 ok2 trigger q =
     (case new_poller ep of Inl e \<Rightarrow> Inl e | Inr po \<Rightarrow>
      (case createEventFd ev of Inl e \<Rightarrow> Inl e | Inr wfd \<Rightarrow>
       (case make_wakeup_channel ok1 wfd q of None \<Rightarrow> Inr None | Some (r1, wch) \<Rightarrow>
        (case createTimerFd tf of Inl e \<Rightarrow> Inl e | Inr tfd \<Rightarrow>
           Inr (map_option (\<lambda>(r2, tch). \<lparr>q_poller = po, q_wakeup = wch, q_eventfd = 0, q_timer = tch,
                  q_tmgr = init_tmgr\<rparr>) (make_timer_channel ok2 tfd q trigger))))))"

text \<open>
  The end of a queue: the body of \<^verbatim>\<open>~TaskQueue\<close>, then its members in reverse order, first
  the timer manager, then the poller. The result is the list of calls that reach the kernel; the
  descriptors are not in the channel table, for which the hooked \<^verbatim>\<open>close\<close> only calls the real
  one.
\<close>

datatype queue_call = QCtl ctl | QClose int

definition end_queue :: "bool \<Rightarrow> bool \<Rightarrow> bool \<Rightarrow> queue_io \<Rightarrow> queue_call list option" where
  "end_queue ok1 ok2 ok3 q =
     (case end_task_queue ok1 (q_wakeup q) of None \<Rightarrow> None | Some (cs1, wfd) \<Rightarrow>
      (case end_timer_manager ok2 ok3 (q_timer q) of None \<Rightarrow> None | Some (cs2, tfd) \<Rightarrow>
         Some (map QCtl cs1 @ [QClose wfd] @ map QCtl cs2 @ [QClose tfd] @
           (case snd (end_poller (q_poller q)) of None \<Rightarrow> [] | Some e \<Rightarrow> [QClose e]))))"

section \<open>One round of events\<close>

text \<open>
  An event with the two times that the clock shows if it is the timerfd's. The timer manager and
  the channels push on the same queue of the worker.
\<close>

record poll_event =
  pe_fd :: int
  pe_revents :: u32
  pe_clock :: int
  pe_clock2 :: int

definition idle_event :: "(int \<Rightarrow> int) \<Rightarrow> nat \<Rightarrow> poll_event \<Rightarrow> queue_io \<times> iom \<Rightarrow> queue_io \<times> iom" where
  "idle_event rnd w e qs =
     (let (q, s) = qs in
      case dispatch_event (ch_fd (q_wakeup q)) (ch_fd (q_timer q)) (pe_fd e, pe_revents e) s of
        (DrainWakeup, s1) \<Rightarrow> (q\<lparr>q_eventfd := snd (readEventFd (q_eventfd q))\<rparr>, s1)
      | (FireTimers, s1) \<Rightarrow>
          if time_cb (q_timer q) = None then (q, s1)
          else let tm = triggerTimer rnd (pe_clock e) (pe_clock2 e) ((q_tmgr q)\<lparr>tqueue := io_tasks s1 w\<rparr>)
               in (q\<lparr>q_tmgr := tm\<rparr>, s1\<lparr>io_tasks := (io_tasks s1)(w := tqueue tm)\<rparr>)
      | (Delivered, s1) \<Rightarrow> (q, s1))"

definition idle_round :: "(int \<Rightarrow> int) \<Rightarrow> nat \<Rightarrow> poll_event list \<Rightarrow> queue_io \<times> iom \<Rightarrow> queue_io \<times> iom" where
  "idle_round rnd w es qs = fold (idle_event rnd w) es qs"

text \<open>What the scheduler's machine sees of an event: the wake-up, or the tasks it pushes.\<close>

definition event_view :: "(int \<Rightarrow> int) \<Rightarrow> nat \<Rightarrow> poll_event \<Rightarrow> queue_io \<times> iom \<Rightarrow> event list" where
  "event_view rnd w e qs =
     (if pe_fd e = ch_fd (q_wakeup (fst qs)) then [EvWakeup]
      else map EvTask (drop (length (io_tasks (snd qs) w)) (io_tasks (snd (idle_event rnd w e qs)) w)))"

fun round_view :: "(int \<Rightarrow> int) \<Rightarrow> nat \<Rightarrow> poll_event list \<Rightarrow> queue_io \<times> iom \<Rightarrow> event list" where
  "round_view rnd w [] qs = []"
| "round_view rnd w (e # es) qs = event_view rnd w e qs @ round_view rnd w es (idle_event rnd w e qs)"

section \<open>The events of a round\<close>

lemma triggerEvent_pushes: "\<exists>cbs. triggerEvent e ch ts = ts @ map task_of_callback cbs"
proof -
  obtain cb where t: "triggerEvent e ch ts = (case cb of None \<Rightarrow> ts | Some c \<Rightarrow> ts @ [task_of_callback c])"
    unfolding triggerEvent_def Let_def by blast
  then have "triggerEvent e ch ts = ts @ map task_of_callback (case cb of None \<Rightarrow> [] | Some c \<Rightarrow> [c])"
    by (cases cb) auto
  then show ?thesis by blast
qed

definition pushes :: "scheduled_task list \<Rightarrow> scheduled_task list \<Rightarrow> bool" where
  "pushes ts us \<longleftrightarrow> (\<exists>cbs. us = ts @ map task_of_callback cbs)"

lemma pushes_refl [simp]: "pushes ts ts"
  by (simp add: pushes_def)

lemma pushes_trans: "pushes ts us \<Longrightarrow> pushes us vs \<Longrightarrow> pushes ts vs"
  unfolding pushes_def by (metis append.assoc map_append)

lemma pushes_trigger: "pushes ts us \<Longrightarrow> pushes ts (triggerEvent e ch us)"
  using triggerEvent_pushes [of e ch us] pushes_trans unfolding pushes_def by blast

lemma handleEvent_pushes: "pushes ts (snd (handleEvent ch ts))"
  by (simp add: handleEvent_def Let_def pushes_trigger)

lemma triggerTimer_pushes: "pushes (tqueue s) (tqueue (triggerTimer rnd clock clock2 s))"
proof -
  let ?u = "s\<lparr>tactive := tactive s @ set_due clock (tset s), tset := set_later clock (tset s)\<rparr>"
  have "pushes (tqueue u) (tqueue (fire_all es u))" for es u
    using fire_all_frame [of es u] unfolding pushes_def
    by (intro exI [of _ "map (\<lambda>e. tm_cb (timer_at (snd e) u)) (filter (\<lambda>e. tm_on (timer_at (snd e) u)) es)"])
      (simp add: comp_def)
  from this [of ?u "tactive ?u"] have "pushes (tqueue s) (tqueue (fire_all (tactive ?u) ?u))" by simp
  moreover have "tqueue (resetTimer rnd clock2 u) = tqueue u" for u
    using repeat_all_frame [of rnd "tactive u" u] by (simp add: resetTimer_def Let_def resetTimerFd_def)
  ultimately show ?thesis by (simp add: triggerTimer_def Let_def)
qed

text \<open>
  The poller of a worker reports only descriptors whose channel belongs to the worker's queue, or
  that have left the table.
\<close>

definition reports_own :: "nat \<Rightarrow> iom \<Rightarrow> poll_event \<Rightarrow> bool" where
  "reports_own w s e \<longleftrightarrow> (\<forall>c ch. 0 \<le> pe_fd e \<longrightarrow> nat (pe_fd e) < length (ctable s) \<longrightarrow>
     ctable s ! nat (pe_fd e) = Some c \<longrightarrow> chans s c = Some ch \<longrightarrow> ch_queue ch \<in> {None, Some w})"

lemma dispatch_own:
  assumes "reports_own w s e" "dispatch_event wfd tfd (pe_fd e, pe_revents e) s = (d, t)"
  shows "\<exists>us. pushes (io_tasks s w) us \<and> io_tasks t = (io_tasks s)(w := us) \<and> (d \<noteq> Delivered \<longrightarrow> t = s) \<and>
    (d = DrainWakeup \<longleftrightarrow> wfd = pe_fd e) \<and> ctable t = ctable s \<and>
    (\<forall>c. map_option ch_queue (chans t c) = map_option ch_queue (chans s c))"
proof -
  have same: "\<exists>us. pushes (io_tasks s w) us \<and> io_tasks s = (io_tasks s)(w := us)"
    by (rule exI [of _ "io_tasks s w"]) simp
  show ?thesis
  proof (cases "wfd = pe_fd e \<or> pe_fd e = tfd")
    case True
    with assms(2) same show ?thesis by (auto simp: dispatch_event_def split: if_splits)
  next
    case False
    let ?slot = "if 0 \<le> pe_fd e \<and> nat (pe_fd e) < length (ctable s) then ctable s ! nat (pe_fd e) else None"
    have d: "d = Delivered" using assms(2) False by (simp add: dispatch_event_def split: if_splits)
    consider (none) "t = s" | (pushed) c ch where "?slot = Some c" "chans s c = Some ch" "ch_queue ch \<noteq> None"
      using assms(2) False by (auto simp: dispatch_event_def split: option.splits if_splits)
    then show ?thesis
    proof cases
      case none
      with same d False show ?thesis by auto
    next
      case pushed
      then have q: "ch_queue ch = Some w" using assms(1) by (auto simp: reports_own_def split: if_splits)
      let ?h = "handleEvent (ch\<lparr>ch_revents := pe_revents e\<rparr>) (io_tasks s w)"
      have "t = (set_chan c (fst ?h) s)\<lparr>io_tasks := (io_tasks s)(w := snd ?h)\<rparr>"
        using assms(2) False pushed(1,2) q
        by (simp add: dispatch_event_def case_prod_beta Let_def split: if_splits)
      then show ?thesis
        using d False pushed(2) handleEvent_pushes [of "io_tasks s w"] handleEvent_frame(2)
        by (intro exI [of _ "snd ?h"]) (auto simp: set_chan_def)
    qed
  qed
qed

text \<open>What one event does to the queue of the worker and to the eventfd.\<close>

lemma idle_event_own:
  assumes "reports_own w s e" "idle_event rnd w e (q, s) = (q', s')"
  shows "\<exists>us. pushes (io_tasks s w) us \<and> io_tasks s' = (io_tasks s)(w := us) \<and>
    (pe_fd e = ch_fd (q_wakeup q) \<longrightarrow> us = io_tasks s w) \<and>
    q_eventfd q' = (if pe_fd e = ch_fd (q_wakeup q) then 0 else q_eventfd q) \<and> ctable s' = ctable s \<and>
    (\<forall>c. map_option ch_queue (chans s' c) = map_option ch_queue (chans s c)) \<and> q_wakeup q' = q_wakeup q"
proof -
  obtain d t where dt: "dispatch_event (ch_fd (q_wakeup q)) (ch_fd (q_timer q)) (pe_fd e, pe_revents e) s = (d, t)"
    by fastforce
  from dispatch_own [OF assms(1) dt] obtain us where us: "pushes (io_tasks s w) us"
    "io_tasks t = (io_tasks s)(w := us)" "d \<noteq> Delivered \<longrightarrow> t = s"
    "d = DrainWakeup \<longleftrightarrow> ch_fd (q_wakeup q) = pe_fd e" "ctable t = ctable s"
    "\<forall>c. map_option ch_queue (chans t c) = map_option ch_queue (chans s c)"
    by blast
  show ?thesis
  proof (cases d)
    case DrainWakeup
    with us assms(2) dt show ?thesis
      by (intro exI [of _ "io_tasks s w"]) (auto simp: idle_event_def Let_def readEventFd_def split: if_splits)
  next
    case FireTimers
    let ?tm = "triggerTimer rnd (pe_clock e) (pe_clock2 e) ((q_tmgr q)\<lparr>tqueue := io_tasks s w\<rparr>)"
    have p: "pushes (io_tasks s w) (tqueue ?tm)"
      using triggerTimer_pushes [of "(q_tmgr q)\<lparr>tqueue := io_tasks s w\<rparr>"] by simp
    show ?thesis
    proof (cases "time_cb (q_timer q) = None")
      case True
      with FireTimers us assms(2) dt show ?thesis
        by (intro exI [of _ "io_tasks s w"]) (auto simp: idle_event_def Let_def)
    next
      case False
      with FireTimers us assms(2) dt p show ?thesis
        by (intro exI [of _ "tqueue ?tm"]) (auto simp: idle_event_def Let_def)
    qed
  next
    case Delivered
    with us assms(2) dt show ?thesis
      by (intro exI [of _ us]) (auto simp: idle_event_def Let_def)
  qed
qed

lemma reports_own_frame:
  assumes "ctable s' = ctable s" "\<forall>c. map_option ch_queue (chans s' c) = map_option ch_queue (chans s c)"
  shows "reports_own w s' = reports_own w s"
proof -
  have "(\<exists>ch. chans s' c = Some ch \<and> ch_queue ch \<notin> {None, Some w}) =
    (\<exists>ch. chans s c = Some ch \<and> ch_queue ch \<notin> {None, Some w})" for c
    using assms(2) [THEN spec, of c] by (cases "chans s c"; cases "chans s' c") auto
  then show ?thesis unfolding reports_own_def assms(1) by (intro ext) blast
qed

section \<open>The round and the scheduler's machine\<close>

text \<open>The tasks of a list of abstract events, and the state after the machine has handled them.\<close>

fun event_tasks :: "event list \<Rightarrow> scheduled_task list" where
  "event_tasks [] = []"
| "event_tasks (EvWakeup # vs) = event_tasks vs"
| "event_tasks (EvTask t # vs) = t # event_tasks vs"

lemma event_tasks_append [simp]: "event_tasks (us @ vs) = event_tasks us @ event_tasks vs"
  by (induction us rule: event_tasks.induct) auto

lemma event_tasks_map [simp]:
  "event_tasks (map EvTask ts) = ts" "event_tasks (map (EvTask \<circ> f) xs) = map f xs"
  by (induction ts, simp_all, induction xs, simp_all)

definition after_events :: "nat \<Rightarrow> event list \<Rightarrow> event list \<Rightarrow> sched \<Rightarrow> sched" where
  "after_events w vs rest s = s\<lparr>tasks := (tasks s)(w := tasks s w @ event_tasks vs),
     wakeups := (if EvWakeup \<in> set vs then (wakeups s)(w := 0) else wakeups s),
     born := born s + mset (event_tasks vs), pcs := (pcs s)(w := IdleEvents rest)\<rparr>"

lemma sched_events:
  assumes "pcs s w = IdleEvents (vs @ rest)" "w < n_threads s" "\<forall>t \<in> set (event_tasks vs). st_fiber t = None"
  shows "exec_all sched_step s (replicate (length vs) (Worker w Go)) = Some (after_events w vs rest s)"
  using assms
proof (induction vs arbitrary: s)
  case Nil
  then show ?case by (simp add: after_events_def fun_upd_idem)
next
  case (Cons v vs)
  let ?s = "after_events w [v] (vs @ rest) s"
  have "sched_step s (Worker w Go) = Some ?s"
    using Cons.prems
    by (cases v) (auto simp: run_worker_def idle_events_def after_events_def goto_def add_born_def push_back_def)
  moreover have "exec_all sched_step ?s (replicate (length vs) (Worker w Go)) = Some (after_events w vs rest ?s)"
    by (rule Cons.IH) (use Cons.prems in \<open>cases v; auto simp: after_events_def\<close>)+
  moreover have "after_events w vs rest ?s = after_events w (v # vs) rest s"
    by (cases v) (auto simp: after_events_def)
  ultimately show ?case by simp
qed

text \<open>The view of a round holds the tasks that the round pushes, and all are callbacks.\<close>

lemma event_view_own:
  assumes "reports_own w s e" "idle_event rnd w e (q, s) = (q', s')"
  shows "io_tasks s' = (io_tasks s)(w := io_tasks s w @ event_tasks (event_view rnd w e (q, s)))"
    and "\<forall>t \<in> set (event_tasks (event_view rnd w e (q, s))). st_fiber t = None"
    and "EvWakeup \<in> set (event_view rnd w e (q, s)) \<longleftrightarrow> pe_fd e = ch_fd (q_wakeup q)"
proof -
  from idle_event_own [OF assms] obtain cbs where
    us: "io_tasks s' = (io_tasks s)(w := io_tasks s w @ map task_of_callback cbs)"
    and no: "pe_fd e = ch_fd (q_wakeup q) \<Longrightarrow> cbs = []"
    by (auto simp: pushes_def)
  have v: "event_view rnd w e (q, s) =
      (if pe_fd e = ch_fd (q_wakeup q) then [EvWakeup] else map EvTask (map task_of_callback cbs))"
    using us by (simp add: event_view_def assms(2))
  show "io_tasks s' = (io_tasks s)(w := io_tasks s w @ event_tasks (event_view rnd w e (q, s)))"
    using us no by (auto simp: v)
  show "\<forall>t \<in> set (event_tasks (event_view rnd w e (q, s))). st_fiber t = None"
    by (auto simp: v task_of_callback_def)
  show "EvWakeup \<in> set (event_view rnd w e (q, s)) \<longleftrightarrow> pe_fd e = ch_fd (q_wakeup q)"
    by (auto simp: v)
qed

lemma round_view_own:
  assumes "\<forall>e \<in> set es. reports_own w s e" "idle_round rnd w es (q, s) = (q', s')"
  shows "io_tasks s' = (io_tasks s)(w := io_tasks s w @ event_tasks (round_view rnd w es (q, s))) \<and>
    (\<forall>t \<in> set (event_tasks (round_view rnd w es (q, s))). st_fiber t = None) \<and>
    q_eventfd q' = (if EvWakeup \<in> set (round_view rnd w es (q, s)) then 0 else q_eventfd q)"
  using assms
proof (induction es arbitrary: q s)
  case Nil
  then show ?case by (simp add: idle_round_def fun_upd_idem)
next
  case (Cons e es)
  obtain q1 s1 where one: "idle_event rnd w e (q, s) = (q1, s1)" by fastforce
  have e: "reports_own w s e" using Cons.prems(1) by simp
  from idle_event_own [OF e one] have own: "q_eventfd q1 = (if pe_fd e = ch_fd (q_wakeup q) then 0 else q_eventfd q)"
    "reports_own w s1 = reports_own w s"
    using reports_own_frame [of s1 s w] by auto
  note ev = event_view_own [OF e one]
  have "idle_round rnd w es (q1, s1) = (q', s')"
    using Cons.prems(2) by (simp add: idle_round_def one)
  from Cons.IH [OF _ this] Cons.prems(1) own(2)
  have ih: "io_tasks s' = (io_tasks s1)(w := io_tasks s1 w @ event_tasks (round_view rnd w es (q1, s1)))"
    "\<forall>t \<in> set (event_tasks (round_view rnd w es (q1, s1))). st_fiber t = None"
    "q_eventfd q' = (if EvWakeup \<in> set (round_view rnd w es (q1, s1)) then 0 else q_eventfd q1)"
    by auto
  show ?case using ih ev own(1) by (auto simp: one)
qed

section \<open>Properties\<close>


definition demo_queue :: queue_io where
  "demo_queue = \<lparr>q_poller = \<lparr>ep_fd = 2, ep_cap = kInitEventSize\<rparr>, q_wakeup = new_channel 3 0, q_eventfd = 1, q_timer = new_channel 4 0,
     q_tmgr = init_tmgr\<rparr>"

definition demo_events :: "poll_event list" where
  "demo_events = [\<lparr>pe_fd = 5, pe_revents = 1, pe_clock = 0, pe_clock2 = 0\<rparr>,
     \<lparr>pe_fd = 3, pe_revents = 1, pe_clock = 0, pe_clock2 = 0\<rparr>]"

definition demo_iom :: iom where
  "demo_iom = (case registerEvent 9 0 1 7 True True bound_iom of Some (b, t) \<Rightarrow> t | None \<Rightarrow> bound_iom)"

lemma demo_iom:
  "ctable demo_iom = (replicate 21 None)[5 := Some 0]" "io_tasks demo_iom = (\<lambda>_. [])"
  "chans demo_iom 0 = Some ((new_channel 5 0)\<lparr>read_cb := Some 7, error_cb := Some 9,
       ch_events := 0x80000001, in_epoll := True\<rparr>)"
proof -
  have d: "demo_iom = (set_chan 0 ((new_channel 5 0)\<lparr>read_cb := Some 7, error_cb := Some 9,
       ch_events := 0x80000001, in_epoll := True\<rparr>) bound_iom)\<lparr>io_pending := 1\<rparr>"
    unfolding demo_iom_def bound_register by simp
  have b: "ctable bound_iom = (replicate 21 None)[5 := Some 0]" "io_tasks bound_iom = (\<lambda>_. [])"
    by (simp_all add: set_chan_def bound_iom_def bindTaskQueue_def init_iom_def grow_table_once)
  show "ctable demo_iom = (replicate 21 None)[5 := Some 0]" "io_tasks demo_iom = (\<lambda>_. [])"
    by (simp_all add: d set_chan_def b)
  show "chans demo_iom 0 = Some ((new_channel 5 0)\<lparr>read_cb := Some 7, error_cb := Some 9,
       ch_events := 0x80000001, in_epoll := True\<rparr>)"
    by (simp add: d set_chan_def)
qed

lemma demo_view: "round_view id 0 demo_events (demo_queue, demo_iom) = [EvTask (task_of_callback 7), EvWakeup]"
proof -
  have w: "ch_fd (q_wakeup demo_queue) = 3" "ch_fd (q_timer demo_queue) = 4"
    by (simp_all add: demo_queue_def new_channel_def)
  have one: "idle_event id 0 (demo_events ! 0) (demo_queue, demo_iom) =
      (demo_queue, snd (dispatch_event 3 4 (5, 1) demo_iom))"
    "io_tasks (snd (dispatch_event 3 4 (5, 1) demo_iom)) 0 = [task_of_callback 7]"
    by (simp_all add: idle_event_def dispatch_event_def demo_events_def w demo_iom handleEvent_def Let_def
        triggerEvent_def epoll_defs new_channel_def set_chan_def)
  then show ?thesis
    by (simp add: demo_events_def event_view_def w demo_iom)
qed

definition demo_sched :: sched where
  "demo_sched = (init_sched True 1 0)\<lparr>
     pcs := (\<lambda>_. IdleEvents (round_view id 0 demo_events (demo_queue, demo_iom))), wakeups := (\<lambda>_. 1)\<rparr>"

lemma demo_sched:
  "pcs demo_sched 0 = IdleEvents (round_view id 0 demo_events (demo_queue, demo_iom))"
  "n_threads demo_sched = 1" "tasks demo_sched = (\<lambda>_. [])" "wakeups demo_sched 0 = 1"
  by (simp_all add: demo_sched_def init_sched_def)


text \<open>
  The wake-up counter of the machine, a number without a bound, stands for the eventfd, whose
  64-bit counter stops at its maximum: after any writes and reads the eventfd shows the number of
  writes since the last read up to that maximum, so it is readable exactly if there was one.\<close>

theorem eventfd_counts:
  "unat (eventfd_run ops 0) = min (unread ops 0) (2 ^ 64 - 2) \<and>
   (fst (readEventFd (eventfd_run ops 0)) \<longleftrightarrow> unread ops 0 \<noteq> 0)"
proof -
  have "unat (eventfd_run ops 0) = min (unread ops 0) (unat eventfd_max)"
    by (rule eventfd_run_unread) simp
  moreover have "unat eventfd_max = 2 ^ 64 - 2" by (simp add: eventfd_max_def)
  ultimately show ?thesis by (simp add: readEventFd_def unat_eq_0 [symmetric] min_def)
qed

text \<open>
  The life of a queue's descriptors. If the three descriptors are created and both registrations
  succeed, the end of the queue takes the two channels out of the poller's set before it closes
  them, closes the poller last, and closes each descriptor once, whatever the kernel answers. If a
  registration had failed, an assertion of \<^verbatim>\<open>EpollPoller::removeChannel\<close> fails for the
  wake-up channel.\<close>

theorem queue_lifecycle:
  assumes "onInit_queue ep ev tf ok1 ok2 trigger n = Inr (Some q)"
  shows "ep \<noteq> - 1 \<and> ev \<noteq> - 1 \<and> tf \<noteq> - 1"
    and "ok1 \<Longrightarrow> ok2 \<Longrightarrow> end_queue a b c q = Some [QCtl (CtlDel ev), QClose ev,
      QCtl (CtlMod tf 0), QCtl (CtlDel tf), QClose tf, QClose ep]"
    and "\<not> ok1 \<Longrightarrow> end_queue a b c q = None"
  using assms
  by (auto simp: onInit_queue_def end_queue_def new_poller_def end_poller_def fd_close_def
      createEpollFd_def createEventFd_def createTimerFd_def make_wakeup_channel_def make_timer_channel_def
      end_task_queue_def end_timer_manager_def new_channel_def ch_op_defs split: if_splits sum.splits option.splits)


end
