(* ===== verification/Koro_Hook.thy ===== *)
theory Koro_Hook
  imports Koro_Io
begin

text \<open>
  The system calls that \<^verbatim>\<open>koro/hook.cpp\<close> replaces: \<^verbatim>\<open>read\<close>,
  \<^verbatim>\<open>write\<close>, \<^verbatim>\<open>accept\<close> and \<^verbatim>\<open>close\<close>. The results of the real
  calls are inputs; the thread gives up its worker in \<^verbatim>\<open>hold\<close> and continues when the
  callback it registered has put its fiber back into a queue.
\<close>

section \<open>\<^verbatim>\<open>do_io\<close>\<close>

text \<open>\<open>Again\<close> is the result -1 with \<^verbatim>\<open>EAGAIN\<close> or \<^verbatim>\<open>EWOULDBLOCK\<close>.\<close>

datatype sysret = Bytes nat | Again | Failed int

text \<open>
  What happens in one round of the loop: the result of the call, the value of
  \<^verbatim>\<open>user_non_block_\<close>, and whether the two \<^verbatim>\<open>epoll_ctl\<close> calls succeed.
\<close>

record round =
  rd_ret :: sysret
  rd_user_nb :: bool
  rd_ok1 :: bool
  rd_ok2 :: bool

text \<open>
  \<open>Returned r k s\<close>: the call returned \<open>r\<close> after the fiber was held \<open>k\<close> times.
  \<open>Blocked\<close>: the rounds given are used up. \<open>Crashed\<close>: an assertion failed.
\<close>

datatype io_result = Returned sysret nat iom | Blocked | Crashed

fun do_io_loop :: "callback \<Rightarrow> callback \<Rightarrow> nat \<Rightarrow> u32 \<Rightarrow> round list \<Rightarrow> nat \<Rightarrow> iom \<Rightarrow> io_result" where
  "do_io_loop herr cb c e [] k s = Blocked"
| "do_io_loop herr cb c e (x # xs) k s =
     (if rd_ret x \<noteq> Again then Returned (rd_ret x) k s
      else if rd_user_nb x then Returned Again k s
      else case registerEvent herr c e cb True (rd_ok1 x) s of
             None \<Rightarrow> Crashed
           | Some (ret, s1) \<Rightarrow>
               if \<not> ret then Returned (Failed (- 1)) k s1
               else case unregisterEvent c e (rd_ok2 x) s1 of
                      None \<Rightarrow> Crashed
                    | Some s2 \<Rightarrow> do_io_loop herr cb c e xs (Suc k) s2)"

text \<open>
  \<open>in_fiber\<close>: the caller is a task fiber; otherwise the real call is made at once. The flag in
  the result says whether \<^verbatim>\<open>setNonBlocking\<close> was called.
\<close>

definition do_io :: "callback \<Rightarrow> callback \<Rightarrow> bool \<Rightarrow> nat option \<Rightarrow> int \<Rightarrow> u32 \<Rightarrow> round list \<Rightarrow> iom \<Rightarrow>
    bool \<times> io_result" where
  "do_io herr cb in_fiber tq fd e rounds s =
     (if \<not> in_fiber
      then (False, case rounds of [] \<Rightarrow> Blocked | x # _ \<Rightarrow> Returned (rd_ret x) 0 s)
      else case bindTaskQueue tq fd s of
             None \<Rightarrow> (False, Crashed)
           | Some (c, s1) \<Rightarrow>
               (case chans s1 c of
                  None \<Rightarrow> (False, Crashed)
                | Some ch \<Rightarrow>
                    (\<not> sys_non_block ch,
                     do_io_loop herr cb c e rounds 0 (set_chan c (ch\<lparr>sys_non_block := True\<rparr>) s1))))"

definition hook_read :: "callback \<Rightarrow> callback \<Rightarrow> bool \<Rightarrow> nat option \<Rightarrow> int \<Rightarrow> round list \<Rightarrow> iom \<Rightarrow> bool \<times> io_result" where
  "hook_read herr cb in_fiber tq fd rounds s = do_io herr cb in_fiber tq fd 0x001 rounds s"

definition hook_accept :: "callback \<Rightarrow> callback \<Rightarrow> bool \<Rightarrow> nat option \<Rightarrow> int \<Rightarrow> round list \<Rightarrow> iom \<Rightarrow> bool \<times> io_result" where
  "hook_accept herr cb in_fiber tq fd rounds s = do_io herr cb in_fiber tq fd 0x001 rounds s"

text \<open>
  \<^verbatim>\<open>write\<close> repeats \<^verbatim>\<open>do_io\<close>, whose successive results are the list, until the buffer
  is written; \<^const>\<open>None\<close>: the results are used up.
\<close>

fun write_loop :: "int list \<Rightarrow> int \<Rightarrow> int \<Rightarrow> int option" where
  "write_loop rets remain written =
     (if remain > 0
      then (case rets of
              [] \<Rightarrow> None
            | ret # rets' \<Rightarrow>
                if ret < 0 then Some (if written > 0 then written else ret)
                else if ret = 0 then Some written
                else write_loop rets' (remain - ret) (written + ret))
      else Some written)"

declare write_loop.simps [simp del]

definition hook_write :: "nat \<Rightarrow> int list \<Rightarrow> int option" where
  "hook_write n rets = write_loop rets (int n) 0"

definition hook_close :: "int \<Rightarrow> bool \<Rightarrow> iom \<Rightarrow> iom option" where
  "hook_close fd ok s =
     (case (if 0 \<le> fd \<and> nat fd < length (ctable s) then ctable s ! nat fd else None) of
        None \<Rightarrow> Some s
      | Some c \<Rightarrow> io_removeChannel c ok s)"

section \<open>One round of waiting\<close>

definition usable :: "nat \<Rightarrow> iom \<Rightarrow> bool" where
  "usable c s \<longleftrightarrow> (case chans s c of None \<Rightarrow> False | Some ch \<Rightarrow> ch_queue ch \<noteq> None)"

lemma registerEvent_usable:
  assumes "usable c s" "e = 1 \<or> e = 4"
  obtains s1 where "registerEvent herr c e cb True ok s = Some (True, s1)" "usable c s1"
    "io_pending s1 = io_pending s + 1" "ctable s1 = ctable s"
proof -
  obtain ch q where ch: "chans s c = Some ch" "ch_queue ch = Some q"
    using assms(1) by (auto simp: usable_def split: option.splits)
  have "registerEvent herr c e cb True ok s \<noteq> None"
    using ch assms(2)
    by (auto simp: registerEvent_def Let_def setEvents_def useET_def channel_update_def)
  then obtain r s1 where r: "registerEvent herr c e cb True ok s = Some (r, s1)" by fastforce
  then have "r = True \<and> usable c s1 \<and> io_pending s1 = io_pending s + 1 \<and> ctable s1 = ctable s"
    using ch assms(2)
    by (auto simp: registerEvent_def Let_def setEvents_def useET_def set_chan_def usable_def
        split: if_splits dest!: channel_update_frame)
  with r that show thesis by blast
qed

lemma unregisterEvent_usable:
  assumes "usable c s" "e = 1 \<or> e = 4"
  obtains s1 where "unregisterEvent c e ok s = Some s1" "usable c s1"
    "io_pending s1 = io_pending s - 1" "ctable s1 = ctable s"
proof -
  obtain ch q where ch: "chans s c = Some ch" "ch_queue ch = Some q"
    using assms(1) by (auto simp: usable_def split: option.splits)
  have "unregisterEvent c e ok s \<noteq> None"
    using ch assms(2)
    by (auto simp: unregisterEvent_def Let_def setEvents_def channel_update_def)
  then obtain s1 where r: "unregisterEvent c e ok s = Some s1" by fastforce
  then have "usable c s1 \<and> io_pending s1 = io_pending s - 1 \<and> ctable s1 = ctable s"
    using ch assms(2)
    by (auto simp: unregisterEvent_def Let_def setEvents_def set_chan_def usable_def
        split: if_splits dest!: channel_update_frame)
  with r that show thesis by blast
qed

lemma wait_round:
  assumes "usable c s" "e \<in> {EPOLLIN, EPOLLOUT}"
  obtains s1 s2 where "registerEvent herr c e cb True ok1 s = Some (True, s1)"
    "unregisterEvent c e ok2 s1 = Some s2" "usable c s2" "io_pending s2 = io_pending s"
    "ctable s2 = ctable s"
proof -
  have e: "e = 1 \<or> e = 4" using assms(2) by (auto simp: epoll_defs)
  obtain s1 where s1: "registerEvent herr c e cb True ok1 s = Some (True, s1)" "usable c s1"
    "io_pending s1 = io_pending s + 1" "ctable s1 = ctable s"
    by (rule registerEvent_usable [OF assms(1) e])
  obtain s2 where "unregisterEvent c e ok2 s1 = Some s2" "usable c s2"
    "io_pending s2 = io_pending s1 - 1" "ctable s2 = ctable s1"
    by (rule unregisterEvent_usable [OF s1(2) e])
  with s1 that show thesis by simp
qed

lemma do_io_loop_waits:
  assumes "usable c s" "e \<in> {EPOLLIN, EPOLLOUT}"
    and "\<And>x. x \<in> set ws \<Longrightarrow> rd_ret x = Again \<and> \<not> rd_user_nb x" "rd_ret r \<noteq> Again"
  shows "\<exists>s'. do_io_loop herr cb c e (ws @ r # rest) k s = Returned (rd_ret r) (k + length ws) s' \<and>
    io_pending s' = io_pending s \<and> ctable s' = ctable s"
  using assms(1,3)
proof (induction ws arbitrary: k s)
  case Nil
  show ?case by (rule exI [of _ s]) (use assms(4) in simp)
next
  case (Cons w ws)
  obtain s1 s2 where s: "registerEvent herr c e cb True (rd_ok1 w) s = Some (True, s1)"
    "unregisterEvent c e (rd_ok2 w) s1 = Some s2" "usable c s2" "io_pending s2 = io_pending s"
    "ctable s2 = ctable s"
    by (rule wait_round [OF Cons.prems(1) assms(2)])
  obtain s' where "do_io_loop herr cb c e (ws @ r # rest) (Suc k) s2 =
      Returned (rd_ret r) (Suc k + length ws) s'"
    "io_pending s' = io_pending s2" "ctable s' = ctable s2"
    using Cons.IH [OF s(3), of "Suc k"] Cons.prems(2) by (metis list.set_intros(2))
  moreover have "rd_ret w = Again" "\<not> rd_user_nb w" using Cons.prems(2) by simp_all
  ultimately show ?case using s by (intro exI [of _ s']) simp
qed


definition again :: round where
  "again = \<lparr>rd_ret = Again, rd_user_nb = False, rd_ok1 = True, rd_ok2 = True\<rparr>"


section \<open>\<^verbatim>\<open>write\<close>\<close>

lemma write_loop_prefix:
  "(\<And>p. p \<in> set ps \<Longrightarrow> 0 < p) \<Longrightarrow> sum_list ps < remain \<Longrightarrow>
   write_loop (ps @ rets) remain written = write_loop rets (remain - sum_list ps) (written + sum_list ps)"
proof (induction ps arbitrary: remain written)
  case (Cons p ps)
  have p: "0 < p" using Cons.prems(1) by simp
  have "0 \<le> sum_list ps" using Cons.prems(1) by (intro sum_list_nonneg) (simp add: less_imp_le)
  then have "p < remain" using Cons.prems(2) by simp
  then have "write_loop (p # (ps @ rets)) remain written = write_loop (ps @ rets) (remain - p) (written + p)"
    using p by (subst write_loop.simps) simp
  also have "\<dots> = write_loop rets (remain - p - sum_list ps) (written + p + sum_list ps)"
    using Cons.prems by (intro Cons.IH) auto
  finally show ?case by (simp add: algebra_simps)
qed simp

text \<open>
  Partial writes. After any number of partial writes \<^verbatim>\<open>write\<close> reports the whole
  length when the rest is written, the bytes written so far when the next call fails or writes
  nothing, and the error itself only when nothing has been written.\<close>

theorem hook_write_result:
  assumes "\<And>p. p \<in> set ps \<Longrightarrow> 0 < p" "sum_list ps < int n" "r \<le> int n - sum_list ps"
    and "0 < r \<longrightarrow> r = int n - sum_list ps"
  shows "hook_write n (ps @ r # rest) =
    Some (if r > 0 then int n else if r = 0 \<or> ps \<noteq> [] then sum_list ps else r)"
proof -
  have pos: "ps \<noteq> [] \<Longrightarrow> 0 < sum_list ps"
  proof -
    assume "ps \<noteq> []"
    then obtain p ps' where ps: "ps = p # ps'" by (cases ps) auto
    have "0 \<le> sum_list ps'" using assms(1) ps by (intro sum_list_nonneg) (simp add: less_imp_le)
    then show ?thesis using assms(1) ps by (simp add: add_pos_nonneg)
  qed
  have "hook_write n (ps @ r # rest) = write_loop (r # rest) (int n - sum_list ps) (sum_list ps)"
    using assms(1,2) by (simp add: hook_write_def write_loop_prefix)
  also have "\<dots> = Some (if r > 0 then int n else if r = 0 \<or> ps \<noteq> [] then sum_list ps else r)"
    using assms(2-4) pos by (subst write_loop.simps) (auto simp: write_loop.simps)
  finally show ?thesis .
qed

theorem hook_write_result_witness:
  "hook_write 10 ([3, 4] @ 3 # []) = Some 10 \<and> hook_write 10 ([3, 4] @ (- 1) # []) = Some 7"
proof -
  have "hook_write 10 ([3, 4] @ 3 # []) = Some (if (3::int) > 0 then int 10
      else if (3::int) = 0 \<or> [3::int, 4] \<noteq> [] then sum_list [3, 4] else 3)"
    by (rule hook_write_result) auto
  moreover have "hook_write 10 ([3, 4] @ (- 1) # []) = Some (if (- 1::int) > 0 then int 10
      else if (- 1::int) = 0 \<or> [3::int, 4] \<noteq> [] then sum_list [3, 4] else - 1)"
    by (rule hook_write_result) auto
  ultimately show ?thesis by simp
qed

end
