(* ===== verification/Koro_Blocking.thy ===== *)
theory Koro_Blocking
  imports Koro_Wakeup Koro_Hook
begin

text \<open>
  Fibers that wait for events, from the registration in \<^verbatim>\<open>do_io\<close> to the wake-up: the
  scheduler's machine beside the channels. A waiting fiber's callback is a closure with a
  \<^verbatim>\<open>triggered\<close> flag; the worker that polls copies it from the channel and pushes a task for
  it, some worker runs it in a fiber of its own, and its first run pushes the waiting fiber. Two
  threads may be anywhere between these atomic steps, and other fibers may register on the same
  channel or close its descriptor meanwhile.
\<close>

section \<open>What a step of the scheduler does to fibers and callbacks\<close>

text \<open>The user code of fiber \<open>f\<close> gives up its worker for good, or until it is woken.\<close>

definition leaves :: "fid \<Rightarrow> sched \<Rightarrow> action \<Rightarrow> bool" where
  "leaves f s a \<longleftrightarrow>
     (case a of Worker w c \<Rightarrow>
        (case pcs s w of RunBody u g \<Rightarrow> f = g \<and> (c = UserHold \<or> c = UserReturn) | _ \<Rightarrow> False)
      | _ \<Rightarrow> False)"

definition same_work :: "fiber \<Rightarrow> fiber \<Rightarrow> bool" where
  "same_work fb fb' \<longleftrightarrow> fb_cb fb' = fb_cb fb \<and>
     (fb_state fb \<in> {kReady, kRunning} \<longrightarrow> fb_state fb' \<in> {kReady, kRunning})"

lemma same_work_refl [simp]: "same_work fb fb"
  by (simp add: same_work_def)

lemma same_work_locks [simp]:
  "same_work fb (fb\<lparr>fb_execute := b\<rparr>)" "same_work fb (fb\<lparr>fb_state := kRunning\<rparr>)"
  "same_work fb (fb\<lparr>fb_state := kReady\<rparr>)"
  by (simp_all add: same_work_def)

lemma user_step_fiber:
  assumes "user_step w u g c s = Some t" "pcs s w = RunBody u g" "fibers s f = Some fb"
    and "\<not> leaves f s (Worker w c)" "fibers s g = Some fbg" "fb_state fbg = kRunning"
  shows "\<exists>fb'. fibers t f = Some fb' \<and> same_work fb fb'"
  using assms
  by (cases c) (auto simp: user_step_def leaves_def machine_simps mark_simps split: if_splits)

lemma run_worker_fiber:
  assumes "run_worker w c s = Some t" "fibers s f = Some fb" "\<not> leaves f s (Worker w c)"
    and ok: "fibers_ok (fibers s) (fresh s) (pcs s)"
  shows "\<exists>fb'. fibers t f = Some fb' \<and> same_work fb fb'"
proof (cases "\<exists>u g. pcs s w = RunBody u g")
  case True
  then obtain u g where w: "pcs s w = RunBody u g" by blast
  with fibers_okD(2) [OF ok, of w] obtain fbg where "fibers s g = Some fbg" "fb_state fbg = kRunning" by auto
  with user_step_fiber [OF _ w assms(2,3)] assms(1) w show ?thesis by (simp add: run_worker_def)
next
  case False
  have f: "f \<noteq> fresh s" using assms(2) fibers_okD(1) [OF ok, of f] by auto
  from assms(1) show ?thesis
  proof (cases rule: run_worker_cases)
    case (dispatch u)
    with assms(2) f show ?thesis
      by (auto simp: machine_simps Let_def tryLock_def split: case_splits)
  next
    case (resume u g)
    with assms(2) show ?thesis by (auto simp: machine_simps mark_resumed_def split: case_splits)
  qed (use assms(2) False in \<open>auto simp: machine_simps unlock_def split: case_splits\<close>)
qed

lemma step_fiber:
  assumes "sched_step s a = Some t" "fibers s f = Some fb" "\<not> leaves f s a"
    and ok: "fibers_ok (fibers s) (fresh s) (pcs s)"
  shows "\<exists>fb'. fibers t f = Some fb' \<and> same_work fb fb'"
proof (cases a)
  case (Worker w c)
  with assms run_worker_fiber [of w c s t f fb] show ?thesis by (auto split: if_splits)
next
  case (Submit c)
  with assms have "submit_step c s = Some t" by (auto split: if_splits)
  then show ?thesis
    using assms(2) by (cases rule: submit_step_cases) (auto simp: machine_simps Let_def)
next
  case (BeginSubmit c u)
  with assms submit_begin_Some [of c u s t] show ?thesis by auto
next
  case (SpawnSubmit c cb)
  have "f \<noteq> fresh s" using assms(2) fibers_okD(1) [OF ok, of f] by auto
  with assms SpawnSubmit submit_spawn_Some [of c cb s t] show ?thesis by auto
next
  case Stop
  with assms have "stop_step s = Some t" by simp
  then show ?thesis using assms(2) by (cases rule: stop_step_cases) auto
qed

definition holding :: "fid \<Rightarrow> sched \<Rightarrow> action \<Rightarrow> bool" where
  "holding g s a \<longleftrightarrow> (\<exists>w u. a = Worker w UserHold \<and> pcs s w = RunBody u g)"

lemma step_leaves:
  assumes "sched_step s a = Some t" "leaves f s a"
    and ok: "fibers_ok (fibers s) (fresh s) (pcs s)"
  shows "\<exists>fb fb'. fibers s f = Some fb \<and> fibers t f = Some fb' \<and>
    (fb_cb fb' = None \<or> holding f s a \<and> fb_cb fb' = fb_cb fb)"
proof -
  obtain w c u where a: "a = Worker w c" "pcs s w = RunBody u f" "c = UserHold \<or> c = UserReturn"
    using assms(2) by (auto simp: leaves_def split: action.splits wpc.splits)
  with fibers_okD(2) [OF ok, of w] obtain fb where "fibers s f = Some fb" "fb_state fb = kRunning" by auto
  moreover have "user_step w u f c s = Some t"
    using a assms(1) by (auto simp: run_worker_def split: if_splits)
  ultimately show ?thesis
    using a by (auto simp: user_step_def machine_simps mark_simps mark_finished_def holding_def split: if_splits)
qed

lemma step_keeps_fiber:
  assumes "sched_step s a = Some t" "fibers s f \<noteq> None"
    and ok: "fibers_ok (fibers s) (fresh s) (pcs s)"
  shows "fibers t f \<noteq> None"
  using assms step_fiber [OF assms(1) _ _ ok, of f] step_leaves [OF assms(1) _ ok, of f]
  by (cases "leaves f s a") auto

text \<open>A fiber appears ready, for a callback that a worker has taken or a caller of \<^verbatim>\<open>submit\<close> gave.\<close>

definition creates :: "callback option \<Rightarrow> sched \<Rightarrow> action \<Rightarrow> bool" where
  "creates cb s a \<longleftrightarrow>
     (case a of Worker w c \<Rightarrow>
        (case pcs s w of RunDispatch u \<Rightarrow> st_fiber u = None \<and> st_cb u = cb | _ \<Rightarrow> False)
      | SpawnSubmit c d \<Rightarrow> d = cb
      | _ \<Rightarrow> False)"

lemma step_new_fiber:
  assumes "sched_step s a = Some t" "fibers s f = None" "fibers t f = Some fb"
    and ok: "fibers_ok (fibers s) (fresh s) (pcs s)"
  shows "f = fresh s \<and> fb_state fb = kReady \<and> creates (fb_cb fb) s a"
proof (cases a)
  case (Worker w c)
  note held = fibers_okD(2) [OF ok, of w]
  from Worker assms(1) have "run_worker w c s = Some t" by (auto split: if_splits)
  then show ?thesis
  proof (cases rule: run_worker_cases)
    case (dispatch u)
    with assms(2,3) Worker show ?thesis
      by (auto simp: machine_simps Let_def tryLock_def wrapper_fiber_def creates_def split: case_splits)
  qed (use assms(2,3) held in \<open>auto simp: machine_simps split: case_splits\<close>)
next
  case (Submit c)
  with assms(1) have "submit_step c s = Some t" by (auto split: if_splits)
  then show ?thesis
    using assms(2,3) by (cases rule: submit_step_cases) (auto simp: machine_simps Let_def)
next
  case (BeginSubmit c u)
  with assms submit_begin_Some [of c u s t] show ?thesis by auto
next
  case (SpawnSubmit c cb)
  with assms submit_spawn_Some [of c cb s t] show ?thesis
    by (auto simp: wrapper_fiber_def creates_def split: if_splits)
next
  case Stop
  with assms(1) have "stop_step s = Some t" by simp
  then show ?thesis using assms(2,3) by (cases rule: stop_step_cases) auto
qed

text \<open>
  The tasks of callbacks. They enter through \<^verbatim>\<open>submit\<close> and polls only, and leave when a worker
  makes a fiber of one.
\<close>

definition brings :: "callback \<Rightarrow> sched \<Rightarrow> action \<Rightarrow> bool" where
  "brings k s a \<longleftrightarrow>
     (case a of Worker w c \<Rightarrow>
        (case pcs s w of IdleEvents (EvTask u # es) \<Rightarrow> st_cb u = Some k | _ \<Rightarrow> False)
      | BeginSubmit c u \<Rightarrow> st_cb u = Some k
      | _ \<Rightarrow> False)"

lemma step_born:
  assumes "sched_step s a = Some t" "task_of_callback k \<in># born t" "\<not> brings k s a"
  shows "task_of_callback k \<in># born s"
proof (cases a)
  case (Worker w c)
  from Worker assms(1) have "run_worker w c s = Some t" by (auto split: if_splits)
  then show ?thesis
    by (cases rule: run_worker_cases)
      (use assms(2,3) Worker in \<open>auto simp: machine_simps Let_def brings_def task_of_callback_def task_of_fiber_def
        split: case_splits\<close>)
next
  case (Submit c)
  with assms(1) have "submit_step c s = Some t" by (auto split: if_splits)
  then show ?thesis
    using assms(2,3) by (cases rule: submit_step_cases) (auto simp: machine_simps Let_def)
next
  case (BeginSubmit c u)
  with assms submit_begin_Some [of c u s t] show ?thesis by (auto simp: brings_def task_of_callback_def)
next
  case (SpawnSubmit c cb)
  with assms submit_spawn_Some [of c cb s t] show ?thesis
    by (auto simp: task_of_callback_def task_of_fiber_def)
next
  case Stop
  with assms(1) have "stop_step s = Some t" by simp
  then show ?thesis using assms(2) by (cases rule: stop_step_cases) auto
qed

lemma step_callback_task:
  assumes "sched_step s a = Some t" "count (retired s) (task_of_callback k) < count (born s) (task_of_callback k)"
    and ok: "fibers_ok (fibers s) (fresh s) (pcs s)"
  shows "count (retired t) (task_of_callback k) < count (born t) (task_of_callback k) \<or>
    fibers s (fresh s) = None \<and> (\<exists>fb. fibers t (fresh s) = Some fb \<and> fb_cb fb = Some k)"
proof (cases a)
  case (Worker w c)
  note tok = fibers_okD(6) [OF ok, of w]
  from Worker assms(1) have "run_worker w c s = Some t" by (auto split: if_splits)
  then show ?thesis
  proof (cases rule: run_worker_cases)
    case (dispatch u)
    with assms(2) fibers_okD(1) [OF ok, of "fresh s"] show ?thesis
      by (auto simp: machine_simps Let_def tryLock_def wrapper_fiber_def task_of_callback_def task_of_fiber_def
          split: case_splits)
  next
    case (check u f)
    with tok have "u \<noteq> task_of_callback k" by auto
    with check assms(2) show ?thesis by (auto simp: machine_simps split: case_splits)
  next
    case (returned u f)
    with tok have "u \<noteq> task_of_callback k" by auto
    with returned assms(2) show ?thesis by (auto simp: machine_simps split: case_splits)
  qed (use assms(2) in \<open>auto simp: machine_simps split: case_splits\<close>)
next
  case (Submit c)
  with assms(1) have "submit_step c s = Some t" by (auto split: if_splits)
  then show ?thesis
    using assms(2) by (cases rule: submit_step_cases) (auto simp: machine_simps Let_def)
next
  case (BeginSubmit c u)
  with assms submit_begin_Some [of c u s t] show ?thesis by auto
next
  case (SpawnSubmit c cb)
  with assms submit_spawn_Some [of c cb s t] show ?thesis by auto
next
  case Stop
  with assms(1) have "stop_step s = Some t" by simp
  then show ?thesis using assms(2) by (cases rule: stop_step_cases) auto
qed

text \<open>The position of a worker that does not sleep changes by that worker's own steps only.\<close>

lemma step_position:
  assumes "sched_step s a = Some t" "pcs s w \<noteq> BaseSleep" "\<And>c. a \<noteq> Worker w c"
  shows "pcs t w = pcs s w"
proof (cases a)
  case (Worker v c)
  with assms(1) have "run_worker v c s = Some t" by (auto split: if_splits)
  moreover have "v \<noteq> w" using Worker assms(3) by auto
  ultimately show ?thesis using run_worker_frame [of v c s t] assms(2) by auto
next
  case (Submit c)
  with assms(1) have "submit_step c s = Some t" by (auto split: if_splits)
  then show ?thesis
    using assms(2) by (cases rule: submit_step_cases) (auto simp: machine_simps Let_def wake_def)
next
  case (BeginSubmit c u)
  with assms submit_begin_Some [of c u s t] show ?thesis by auto
next
  case (SpawnSubmit c cb)
  with assms submit_spawn_Some [of c cb s t] show ?thesis by auto
next
  case Stop
  with assms(1) have "stop_step s = Some t" by simp
  then show ?thesis using assms(2) by (cases rule: stop_step_cases) (auto simp: wake_def goto_def)
qed

lemma step_body:
  "sched_step s a = Some t \<Longrightarrow> pcs s w = RunBody u f \<Longrightarrow> (\<And>c. a \<noteq> Worker w c) \<Longrightarrow> pcs t w = RunBody u f"
  "sched_step s a = Some t \<Longrightarrow> pcs s w = IdleEvents evs \<Longrightarrow> (\<And>c. a \<noteq> Worker w c) \<Longrightarrow> pcs t w = IdleEvents evs"
  using step_position [of s a t w] by auto

text \<open>A resumed fiber runs.\<close>

lemma step_resumes:
  assumes "sched_step s a = Some t" "resumes g s a"
    and ok: "fibers_ok (fibers s) (fresh s) (pcs s)" "fibers_ok (fibers t) (fresh t) (pcs t)"
  shows "\<exists>w < n_threads s. (\<exists>u. pcs t w = RunBody u g) \<and> (\<forall>v u. pcs s v \<noteq> RunBody u g)"
proof -
  obtain w c u where a: "a = Worker w c" "pcs s w = RunResume u g"
    using assms(2) by (auto simp: resumes_def split: action.splits wpc.splits)
  then have "w < n_threads s" "t = run_resume w u g s"
    using assms(1) by (auto simp: run_worker_def on_go_def split: if_splits)
  moreover have "pcs t w = RunBody u g"
    using calculation(2) fibers_okD(7) [OF ok(2), of w]
    by (auto simp: machine_simps split: case_splits)
  moreover have "pcs s v \<noteq> RunBody u' g" for v u'
    using fibers_okD(3) [OF ok(1), of v g w] a(2) by auto
  ultimately show ?thesis by blast
qed

text \<open>A worker in the poll loop pushes the task of a callback on its own queue.\<close>

lemma sched_ok_events:
  assumes "sched_ok b n m s" "pcs s w = IdleEvents evs"
  shows "sched_ok b n m (goto w (IdleEvents evs') s)"
proof (cases "w < n")
  case True
  have "fibers_ok (fibers s) (fresh s) ((pcs s)(w := IdleEvents evs'))"
    using assms by (intro fibers_ok_move) (auto simp: sched_ok_def)
  with assms True show ?thesis
    by (auto simp: sched_ok_def goto_def shape_def books_def located_def born_known_def runnable_kept_def
        exits_ok_def wakeups_ok_def)
next
  case False
  have "in_hand n (ps(w := p)) x = in_hand n ps x" "busy_count n (ps(w := p)) = busy_count n ps" for ps p x
    using False unfolding in_hand_def busy_count_def by (auto intro!: sum.cong)
  moreover have "fibers_ok (fibers s) (fresh s) ((pcs s)(w := IdleEvents evs'))"
    using assms by (intro fibers_ok_move) (auto simp: sched_ok_def)
  ultimately show ?thesis using assms
    by (auto simp: sched_ok_def goto_def shape_def books_def located_def born_known_def runnable_kept_def
        exits_ok_def wakeups_ok_def)
qed

lemma sched_ok_push:
  assumes "sched_ok b n m s" "w < n" "pcs s w = IdleEvents evs"
  shows "sched_ok b n m (add_born (task_of_callback k) (push_back w (task_of_callback k) s))"
proof -
  let ?s = "goto w (IdleEvents (EvTask (task_of_callback k) # evs)) s"
  have "n_threads s = n" using assms(1) by (simp add: sched_ok_def shape_def)
  then have "sched_step ?s (Worker w Go) =
      Some (goto w (IdleEvents evs) (add_born (task_of_callback k) (push_back w (task_of_callback k) ?s)))"
    using assms(2) by (simp add: run_worker_def machine_simps)
  from sched_ok_step [OF sched_ok_events [OF assms(1,3)] this]
  have "sched_ok b n m (goto w (IdleEvents evs) (add_born (task_of_callback k) (push_back w (task_of_callback k) ?s)))" .
  moreover have "goto w (IdleEvents evs) (add_born (task_of_callback k) (push_back w (task_of_callback k) ?s)) =
      add_born (task_of_callback k) (push_back w (task_of_callback k) s)"
    using assms(3) by (simp add: machine_simps fun_upd_idem)
  ultimately show ?thesis by simp
qed

section \<open>The machine\<close>

text \<open>
  A round of \<^verbatim>\<open>do_io\<close> in which the real call would block: the closure that was registered,
  the channel and the event, and whether the fiber has reached its \<^verbatim>\<open>hold\<close>.
\<close>

record wait =
  wt_cb :: callback
  wt_ch :: nat
  wt_ev :: u32
  wt_held :: bool

text \<open>
  The code of the closure: before the \<^verbatim>\<open>exchange\<close> of \<^verbatim>\<open>triggered\<close>, between it and the push
  of the waiting fiber, and after.
\<close>

datatype cl_stage = ClFresh | ClClaimed | ClFinished

text \<open>
  \<open>b_trig\<close> are the \<^verbatim>\<open>triggered\<close> flags, \<open>b_copy w\<close> is the callback that worker \<open>w\<close> has copied in
  \<^verbatim>\<open>triggerEvent\<close> and not yet pushed, with its channel. \<open>b_fail\<close>: an assertion has failed or a
  null pointer was dereferenced. Closures are numbered from \<open>b_next\<close> on. History: \<open>b_owner\<close> and
  \<open>b_place\<close> are the fiber, and the channel and event, of a closure; \<open>b_fired\<close>: its event was
  dispatched; \<open>b_lost\<close>: its channel has dropped it although its owner did not unregister it.
\<close>

record blocking =
  b_sched :: sched
  b_iom :: iom
  b_wait :: "fid \<Rightarrow> wait option"
  b_trig :: "callback \<Rightarrow> bool"
  b_stage :: "fid \<Rightarrow> cl_stage"
  b_copy :: "nat \<Rightarrow> (nat \<times> callback) option"
  b_fail :: bool
  b_next :: callback
  b_owner :: "callback \<Rightarrow> fid"
  b_place :: "callback \<Rightarrow> nat \<times> u32"
  b_fired :: "callback \<Rightarrow> bool"
  b_lost :: "callback \<Rightarrow> bool"

text \<open>The callbacks below \<open>base\<close> are not closures of \<^verbatim>\<open>do_io\<close>.\<close>

definition init_blocking :: "callback \<Rightarrow> nat \<Rightarrow> nat \<Rightarrow> blocking" where
  "init_blocking base n m = \<lparr>b_sched = init_sched True n m, b_iom = init_iom n, b_wait = (\<lambda>_. None),
     b_trig = (\<lambda>_. False), b_stage = (\<lambda>_. ClFresh), b_copy = (\<lambda>_. None), b_fail = False,
     b_next = base, b_owner = (\<lambda>_. 0), b_place = (\<lambda>_. (0, 0)), b_fired = (\<lambda>_. False),
     b_lost = (\<lambda>_. False)\<rparr>"

definition is_closure :: "callback \<Rightarrow> callback option \<Rightarrow> bool" where
  "is_closure base cb = (case cb of None \<Rightarrow> False | Some k \<Rightarrow> base \<le> k)"

definition closure_fiber :: "callback \<Rightarrow> blocking \<Rightarrow> fid \<Rightarrow> bool" where
  "closure_fiber base s f =
     (case fibers (b_sched s) f of None \<Rightarrow> False | Some fb \<Rightarrow> is_closure base (fb_cb fb))"

text \<open>The fiber whose code a worker executes, outside of \<^verbatim>\<open>submit\<close>.\<close>

definition running_fiber :: "nat \<Rightarrow> blocking \<Rightarrow> fid option" where
  "running_fiber w s =
     (case pcs (b_sched s) w of
        RunBody t f \<Rightarrow> if w < n_threads (b_sched s) \<and> subs (b_sched s) w = SubNone then Some f else None
      | _ \<Rightarrow> None)"

definition at_user_code :: "callback \<Rightarrow> nat \<Rightarrow> blocking \<Rightarrow> fid option" where
  "at_user_code base w s =
     (case running_fiber w s of
        None \<Rightarrow> None
      | Some f \<Rightarrow> if closure_fiber base s f \<or> b_wait s f \<noteq> None then None else Some f)"

text \<open>
  The count of pending events is one atomic of the program: the operations on events work on the
  scheduler's.
\<close>

definition iom_of :: "blocking \<Rightarrow> iom" where
  "iom_of s = (b_iom s)\<lparr>io_pending := pending (b_sched s)\<rparr>"

definition put_iom :: "iom \<Rightarrow> blocking \<Rightarrow> blocking" where
  "put_iom i s = s\<lparr>b_iom := i, b_sched := (b_sched s)\<lparr>pending := io_pending i\<rparr>\<rparr>"

definition fails :: "blocking \<Rightarrow> blocking" where
  "fails s = s\<lparr>b_fail := True\<rparr>"

definition lose :: "callback option \<Rightarrow> blocking \<Rightarrow> blocking" where
  "lose cb s = (case cb of None \<Rightarrow> s | Some k \<Rightarrow> s\<lparr>b_lost := (b_lost s)(k := True)\<rparr>)"

text \<open>The callback that \<^verbatim>\<open>triggerEvent\<close> copies.\<close>

definition event_callback :: "u32 \<Rightarrow> channel \<Rightarrow> callback option" where
  "event_callback e ch =
     (if e = 0x001 then read_cb ch else if e = 0x004 then write_cb ch
      else if e = 0x008 then error_cb ch else None)"

lemma triggerEvent_copies:
  "triggerEvent e ch ts =
     (case event_callback e ch of None \<Rightarrow> ts | Some k \<Rightarrow> ts @ [task_of_callback k])"
  by (simp add: triggerEvent_def event_callback_def epoll_defs)

text \<open>
  The steps of the scheduler in which neither \<^verbatim>\<open>do_io\<close> nor a closure nor the dispatch of an event
  of a channel is involved: a waiting fiber and a closure have steps of their own, a worker
  that dispatches an event finishes with it first, and callbacks given to the scheduler otherwise
  (by \<^verbatim>\<open>submit\<close>, by timers) are not closures.
\<close>

definition may_act :: "callback \<Rightarrow> nat \<Rightarrow> choice \<Rightarrow> blocking \<Rightarrow> bool" where
  "may_act base w c s =
     (case pcs (b_sched s) w of
        RunBody t f \<Rightarrow>
          if closure_fiber base s f then c = UserReturn \<and> b_stage s f = ClFinished else b_wait s f = None
      | IdleEvents evs \<Rightarrow>
          b_copy s w = None \<and>
          (case evs of EvTask u # es \<Rightarrow> \<not> is_closure base (st_cb u) | _ \<Rightarrow> True)
      | _ \<Rightarrow> True)"

fun ordinary :: "callback \<Rightarrow> action \<Rightarrow> blocking \<Rightarrow> bool" where
  "ordinary base (Worker w c) s = may_act base w c s"
| "ordinary base (Submit c) s = True"
| "ordinary base (BeginSubmit c u) s = (\<not> is_closure base (st_cb u))"
| "ordinary base (SpawnSubmit c cb) s = (\<not> is_closure base cb)"
| "ordinary base Stop s = True"

definition b_on_sched :: "action \<Rightarrow> blocking \<Rightarrow> blocking option" where
  "b_on_sched a s = map_option (\<lambda>t. s\<lparr>b_sched := t\<rparr>) (sched_step (b_sched s) a)"

section \<open>The steps of \<^verbatim>\<open>do_io\<close>\<close>

definition b_bind :: "callback \<Rightarrow> nat \<Rightarrow> int \<Rightarrow> blocking \<Rightarrow> blocking option" where
  "b_bind base w fd s =
     (case at_user_code base w s of
        None \<Rightarrow> None
      | Some g \<Rightarrow> map_option (\<lambda>(c, i). put_iom i s) (bindTaskQueue (Some w) fd (iom_of s)))"

text \<open>
  A fiber registers a new closure, whose \<^verbatim>\<open>triggered\<close> flag is false. A callback of another fiber
  that it replaces is lost.
\<close>

definition b_register :: "callback \<Rightarrow> callback \<Rightarrow> nat \<Rightarrow> nat \<Rightarrow> u32 \<Rightarrow> blocking \<Rightarrow> blocking option" where
  "b_register herr base w c e s =
     (case at_user_code base w s of
        None \<Rightarrow> None
      | Some g \<Rightarrow>
          (case chans (b_iom s) c of
             None \<Rightarrow> None
           | Some ch \<Rightarrow>
               let k = b_next s in
               if e \<noteq> 0x001 \<and> e \<noteq> 0x004 then None
               else case registerEvent herr c e k True True (iom_of s) of
                      None \<Rightarrow> Some (fails s)
                    | Some (r, i) \<Rightarrow>
                        Some ((lose (event_callback e ch) (put_iom i s))
                          \<lparr>b_wait := (b_wait s)(g \<mapsto> \<lparr>wt_cb = k, wt_ch = c, wt_ev = e, wt_held = False\<rparr>),
                           b_next := Suc k, b_owner := (b_owner s)(k := g),
                           b_place := (b_place s)(k := (c, e))\<rparr>)))"

definition b_hold :: "nat \<Rightarrow> blocking \<Rightarrow> blocking option" where
  "b_hold w s =
     (case running_fiber w s of
        None \<Rightarrow> None
      | Some g \<Rightarrow>
          (case b_wait s g of
             None \<Rightarrow> None
           | Some wt \<Rightarrow>
               if wt_held wt then None
               else map_option (\<lambda>t. s\<lparr>b_sched := t, b_wait := (b_wait s)(g \<mapsto> wt\<lparr>wt_held := True\<rparr>)\<rparr>)
                      (sched_step (b_sched s) (Worker w UserHold))))"

text \<open>
  The resumed fiber unregisters its event, whatever callback the channel has for it now.
\<close>

definition b_unregister :: "nat \<Rightarrow> bool \<Rightarrow> blocking \<Rightarrow> blocking option" where
  "b_unregister w ok s =
     (case running_fiber w s of
        None \<Rightarrow> None
      | Some g \<Rightarrow>
          (case b_wait s g of
             None \<Rightarrow> None
           | Some wt \<Rightarrow>
               (case chans (b_iom s) (wt_ch wt) of
                  None \<Rightarrow> None
                | Some ch \<Rightarrow>
                    if \<not> wt_held wt then None
                    else case unregisterEvent (wt_ch wt) (wt_ev wt) ok (iom_of s) of
                           None \<Rightarrow> Some (fails s)
                         | Some i \<Rightarrow>
                             let cb = event_callback (wt_ev wt) ch in
                             Some ((lose (if cb = Some (wt_cb wt) then None else cb) (put_iom i s))
                               \<lparr>b_wait := (b_wait s)(g := None)\<rparr>))))"

definition b_close :: "callback \<Rightarrow> nat \<Rightarrow> int \<Rightarrow> bool \<Rightarrow> blocking \<Rightarrow> blocking option" where
  "b_close base w fd ok s =
     (case at_user_code base w s of
        None \<Rightarrow> None
      | Some g \<Rightarrow>
          (case hook_close fd ok (iom_of s) of
             None \<Rightarrow> Some (fails s)
           | Some i \<Rightarrow>
               (case (if 0 \<le> fd \<and> nat fd < length (ctable (b_iom s)) then ctable (b_iom s) ! nat fd else None) of
                  None \<Rightarrow> Some (put_iom i s)
                | Some c \<Rightarrow>
                    (case chans (b_iom s) c of
                       None \<Rightarrow> None
                     | Some ch \<Rightarrow> Some (lose (read_cb ch) (lose (write_cb ch) (put_iom i s)))))))"

section \<open>The steps of the dispatch and of the closure\<close>

text \<open>
  \<^verbatim>\<open>triggerEvent\<close>: copy the callback under the channel's lock, then push its task under the
  queue's lock.
\<close>

definition b_trigger :: "nat \<Rightarrow> nat \<Rightarrow> u32 \<Rightarrow> blocking \<Rightarrow> blocking option" where
  "b_trigger w c e s =
     (case pcs (b_sched s) w of
        IdleEvents evs \<Rightarrow>
          (case chans (b_iom s) c of
             None \<Rightarrow> None
           | Some ch \<Rightarrow>
               if w < n_threads (b_sched s) \<and> b_copy s w = None \<and> ch_queue ch = Some w
               then map_option (\<lambda>k. s\<lparr>b_copy := (b_copy s)(w \<mapsto> (c, k)), b_fired := (b_fired s)(k := True)\<rparr>)
                      (event_callback e ch)
               else None)
      | _ \<Rightarrow> None)"

definition b_deliver :: "nat \<Rightarrow> blocking \<Rightarrow> blocking option" where
  "b_deliver w s =
     (case b_copy s w of
        None \<Rightarrow> None
      | Some (c, k) \<Rightarrow>
          (case chans (b_iom s) c of
             None \<Rightarrow> None
           | Some ch \<Rightarrow>
               (case ch_queue ch of
                  None \<Rightarrow> Some (fails s)
                | Some q \<Rightarrow>
                    Some (s\<lparr>b_copy := (b_copy s)(w := None),
                      b_sched := add_born (task_of_callback k) (push_back q (task_of_callback k) (b_sched s))\<rparr>))))"

definition b_exchange :: "callback \<Rightarrow> nat \<Rightarrow> blocking \<Rightarrow> blocking option" where
  "b_exchange base w s =
     (case running_fiber w s of
        None \<Rightarrow> None
      | Some f \<Rightarrow>
          (case fibers (b_sched s) f of
             None \<Rightarrow> None
           | Some fb \<Rightarrow>
               (case fb_cb fb of
                  None \<Rightarrow> None
                | Some k \<Rightarrow>
                    if k < base \<or> b_stage s f \<noteq> ClFresh then None
                    else if b_trig s k then Some (s\<lparr>b_stage := (b_stage s)(f := ClFinished)\<rparr>)
                    else Some (s\<lparr>b_trig := (b_trig s)(k := True), b_stage := (b_stage s)(f := ClClaimed)\<rparr>))))"

text \<open>
  \<open>alive\<close>: whether \<^verbatim>\<open>weak_fiber.lock()\<close> still finds the fiber. A fiber that has not terminated
  keeps itself alive by the \<^verbatim>\<open>shared_ptr\<close> on its own stack.
\<close>

definition b_wake :: "callback \<Rightarrow> nat \<Rightarrow> bool \<Rightarrow> blocking \<Rightarrow> blocking option" where
  "b_wake base w alive s =
     (case running_fiber w s of
        None \<Rightarrow> None
      | Some f \<Rightarrow>
          (case fibers (b_sched s) f of
             None \<Rightarrow> None
           | Some fb \<Rightarrow>
               (case fb_cb fb of
                  None \<Rightarrow> None
                | Some k \<Rightarrow>
                    let g = b_owner s k; u = s\<lparr>b_stage := (b_stage s)(f := ClFinished)\<rparr> in
                    if k < base \<or> b_stage s f \<noteq> ClClaimed then None
                    else if alive then b_on_sched (Worker w (UserWake g)) u
                    else (case fibers (b_sched s) g of
                            None \<Rightarrow> None
                          | Some fbg \<Rightarrow> if fb_state fbg = kTerm then Some u else None))))"

datatype b_action = BSched action | BBind nat int | BRegister nat nat u32 | BHold nat
  | BUnregister nat bool | BClose nat int bool | BTrigger nat nat u32 | BDeliver nat
  | BExchange nat | BWake nat bool

fun b_act :: "callback \<Rightarrow> callback \<Rightarrow> blocking \<Rightarrow> b_action \<Rightarrow> blocking option" where
  "b_act herr base s (BSched a) = (if ordinary base a s then b_on_sched a s else None)"
| "b_act herr base s (BBind w fd) = b_bind base w fd s"
| "b_act herr base s (BRegister w c e) = b_register herr base w c e s"
| "b_act herr base s (BHold w) = b_hold w s"
| "b_act herr base s (BUnregister w ok) = b_unregister w ok s"
| "b_act herr base s (BClose w fd ok) = b_close base w fd ok s"
| "b_act herr base s (BTrigger w c e) = b_trigger w c e s"
| "b_act herr base s (BDeliver w) = b_deliver w s"
| "b_act herr base s (BExchange w) = b_exchange base w s"
| "b_act herr base s (BWake w alive) = b_wake base w alive s"

definition b_step :: "callback \<Rightarrow> callback \<Rightarrow> blocking \<Rightarrow> b_action \<Rightarrow> blocking option" where
  "b_step herr base s a = (if b_fail s then None else b_act herr base s a)"

section \<open>What the operations on events do to a channel\<close>

definition armed_ch :: "callback \<Rightarrow> u32 \<Rightarrow> channel \<Rightarrow> bool" where
  "armed_ch k e ch \<longleftrightarrow> ch_queue ch \<noteq> None \<and> in_epoll ch \<and> event_callback e ch = Some k \<and> ch_events ch AND e \<noteq> 0"

definition io_event :: "u32 \<Rightarrow> bool" where
  "io_event e \<longleftrightarrow> e = 0x001 \<or> e = 0x004"

lemma event_bits:
  fixes x e e' y :: u32
  assumes "e \<noteq> 0"
  shows "((x OR e) OR y) AND e \<noteq> 0" "x AND e' \<noteq> 0 \<Longrightarrow> ((x OR e) OR y) AND e' \<noteq> 0"
proof -
  have "((x OR e) OR y) AND e = e" by (auto intro!: bit_word_eqI simp: bit_simps)
  with assms show "((x OR e) OR y) AND e \<noteq> 0" by simp
next
  assume "x AND e' \<noteq> 0"
  moreover have "(x AND e') AND (((x OR e) OR y) AND e') = x AND e'"
    by (auto intro!: bit_word_eqI simp: bit_simps)
  ultimately show "((x OR e) OR y) AND e' \<noteq> 0" by auto
qed

lemma registerEvent_effect:
  assumes "registerEvent herr c e k True True s = Some (r, i)" "io_event e" "chans s c = Some ch"
  obtains ch' where "i = (set_chan c ch' s)\<lparr>io_pending := io_pending s + 1\<rparr>" "armed_ch k e ch'"
    "ch_queue ch' = ch_queue ch" "error_cb ch' = Some herr"
    "\<And>e'. io_event e' \<Longrightarrow> e' \<noteq> e \<Longrightarrow> event_callback e' ch' = event_callback e' ch"
    "\<And>k' e'. io_event e' \<Longrightarrow> e' \<noteq> e \<Longrightarrow> armed_ch k' e' ch \<Longrightarrow> armed_ch k' e' ch'"
proof -
  let ?f = "if e = 0x001 then setReadCallback (Some k) ch else setWriteCallback (Some k) ch"
  let ?ch = "useET (setEvents (ch_events ?f OR e) (setErrorCallback (Some herr) ?f))"
  have q: "ch_queue ch \<noteq> None" using assms(1,3) by (auto simp: registerEvent_def split: if_splits)
  with assms have i: "i = (set_chan c (snd (updateChannel True ?ch)) s)\<lparr>io_pending := io_pending s + 1\<rparr>"
    by (auto simp: registerEvent_def Let_def channel_update_def io_event_def case_prod_beta split: if_splits)
  have fr: "ch_queue (snd (updateChannel True ?ch)) = ch_queue ?ch" "error_cb (snd (updateChannel True ?ch)) = error_cb ?ch"
    "read_cb (snd (updateChannel True ?ch)) = read_cb ?ch" "write_cb (snd (updateChannel True ?ch)) = write_cb ?ch"
    "ch_events (snd (updateChannel True ?ch)) = ch_events ?ch" "in_epoll (snd (updateChannel True ?ch))"
    by (auto simp: updateChannel_def)
  have "e \<noteq> 0" using assms(2) by (auto simp: io_event_def)
  note bits = event_bits [OF this]
  show thesis
    by (rule that [OF i])
      (use q fr assms(2) bits in \<open>auto simp: armed_ch_def event_callback_def setEvents_def useET_def io_event_def\<close>)
qed

lemma unregisterEvent_effect:
  assumes "unregisterEvent c e ok s = Some i" "io_event e" "chans s c = Some ch"
  obtains ch' where "i = (set_chan c ch' s)\<lparr>io_pending := io_pending s - 1\<rparr>" "event_callback e ch' = None"
    "ch_queue ch' = ch_queue ch" "error_cb ch' = error_cb ch"
    "\<And>e'. io_event e' \<Longrightarrow> e' \<noteq> e \<Longrightarrow> event_callback e' ch' = event_callback e' ch"
    "\<And>k' e'. io_event e' \<Longrightarrow> e' \<noteq> e \<Longrightarrow> armed_ch k' e' ch \<Longrightarrow> armed_ch k' e' ch'"
proof -
  let ?f = "if e = 0x001 then setReadCallback None (setEvents (ch_events ch AND NOT 0x001) ch)
    else setWriteCallback None (setEvents (ch_events ch AND NOT 0x004) ch)"
  let ?ch = "snd (updateChannel ok ?f)"
  have q: "ch_queue ch \<noteq> None" using assms(1,3) by (auto simp: unregisterEvent_def split: if_splits)
  with assms have i: "i = (set_chan c ?ch s)\<lparr>io_pending := io_pending s - 1\<rparr>"
    by (auto simp: unregisterEvent_def Let_def channel_update_def setEvents_def io_event_def case_prod_beta split: if_splits)
  have fr: "ch_queue ?ch = ch_queue ?f" "error_cb ?ch = error_cb ?f" "read_cb ?ch = read_cb ?f"
    "write_cb ?ch = write_cb ?f" "ch_events ?ch = ch_events ?f" "in_epoll ?f \<Longrightarrow> in_epoll ?ch"
    by (auto simp: updateChannel_def)
  have bits: "(x AND - 2) AND 4 = x AND 4" "(x AND - 5) AND 1 = x AND 1" for x :: u32
    by (simp_all add: and.assoc)
  show thesis
    by (rule that [OF i])
      (use fr assms(2) bits in \<open>auto simp: armed_ch_def event_callback_def setEvents_def io_event_def\<close>)
qed

lemma io_removeChannel_effect:
  assumes "io_removeChannel c ok s = Some i" "chans s c = Some ch"
  shows "ch_queue ch = None \<and> i = s \<or>
    (\<exists>ch' tab. i = (set_chan c ch' s)\<lparr>ctable := tab\<rparr> \<and> read_cb ch' = None \<and> write_cb ch' = None \<and>
      error_cb ch' = None \<and> (ch_queue ch' = None \<or> ch_queue ch' = ch_queue ch))"
proof (cases "ch_queue ch")
  case (Some q)
  let ?i = "nat (ch_fd ch)"
  let ?tab = "if 0 \<le> ch_fd ch \<and> ?i < length (ctable s) \<and> ctable s ! ?i \<noteq> None
    then (ctable s)[?i := None] else ctable s"
  let ?c1 = "ch\<lparr>read_cb := None, write_cb := None, error_cb := None\<rparr>"
  let ?c2 = "(if ok then ?c1\<lparr>ch_events := 0, in_epoll := False\<rparr> else ?c1\<lparr>ch_events := 0\<rparr>)\<lparr>ch_queue := None\<rparr>"
  let ?ch = "if in_epoll ch then ?c2 else ?c1"
  have "i = (set_chan c ?ch s)\<lparr>ctable := ?tab\<rparr>"
    using assms Some
    by (auto simp: io_removeChannel_def Let_def set_chan_def channel_remove_def removeChannel_def setEvents_def
        split: if_splits)
  moreover have "read_cb ?ch = None" "write_cb ?ch = None" "error_cb ?ch = None"
    "ch_queue ?ch = None \<or> ch_queue ?ch = ch_queue ch"
    by simp_all
  ultimately show ?thesis by blast
qed (use assms in \<open>simp add: io_removeChannel_def\<close>)

end
