(* ===== verification/Koro_Blocking_Props.thy ===== *)
theory Koro_Blocking_Props
  imports Koro_Blocking
begin

text \<open>
  The invariant of the machine of \<^verbatim>\<open>Koro_Blocking\<close> and what follows from it: the wake-up of a
  fiber whose event was dispatched is always under way, a fiber whose callback is still on its
  channel can be woken by its event, and one whose callback the channel has dropped cannot.
\<close>

section \<open>The wake-up is under way\<close>

text \<open>A fiber that was made for a closure, and how far its code is.\<close>

definition at_stage :: "blocking \<Rightarrow> callback \<Rightarrow> cl_stage \<Rightarrow> fid \<Rightarrow> bool" where
  "at_stage s k st f \<longleftrightarrow> (\<exists>fb. fibers (b_sched s) f = Some fb \<and> fb_cb fb = Some k) \<and> b_stage s f = st"

definition runs :: "sched \<Rightarrow> fid \<Rightarrow> bool" where
  "runs ss g \<longleftrightarrow> (\<exists>w<n_threads ss. \<exists>u. pcs ss w = RunBody u g)"

text \<open>
  After the \<^verbatim>\<open>exchange\<close>: the closure has yet to push the fiber, the fiber has a free task, or
  it is back from its \<^verbatim>\<open>hold\<close>. Before: a worker has copied the closure from the channel, there is
  a task for it, or a fiber that has yet to run it.
\<close>

definition claimed :: "blocking \<Rightarrow> fid \<Rightarrow> wait \<Rightarrow> bool" where
  "claimed s g wt \<longleftrightarrow>
     (\<exists>f. at_stage s (wt_cb wt) ClClaimed f) \<or> woken g (b_sched s) \<or> wt_held wt \<and> runs (b_sched s) g"

definition task_left :: "sched \<Rightarrow> callback \<Rightarrow> bool" where
  "task_left ss k \<longleftrightarrow> count (retired ss) (task_of_callback k) < count (born ss) (task_of_callback k)"

definition under_way :: "blocking \<Rightarrow> fid \<Rightarrow> wait \<Rightarrow> bool" where
  "under_way s g wt \<longleftrightarrow>
     (\<exists>w c. b_copy s w = Some (c, wt_cb wt)) \<or> task_left (b_sched s) (wt_cb wt) \<or>
     (\<exists>f. at_stage s (wt_cb wt) ClFresh f) \<or> claimed s g wt"

definition chains_ok :: "blocking \<Rightarrow> bool" where
  "chains_ok s \<longleftrightarrow>
     (\<forall>g wt. b_wait s g = Some wt \<longrightarrow>
        (b_fired s (wt_cb wt) \<longrightarrow> under_way s g wt) \<and> (b_trig s (wt_cb wt) \<longrightarrow> claimed s g wt))"

section \<open>The rest of the invariant\<close>

definition waits_ok :: "callback \<Rightarrow> blocking \<Rightarrow> bool" where
  "waits_ok base s \<longleftrightarrow>
     (\<forall>g wt. b_wait s g = Some wt \<longrightarrow>
        base \<le> wt_cb wt \<and> wt_cb wt < b_next s \<and> b_owner s (wt_cb wt) = g \<and>
        b_place s (wt_cb wt) = (wt_ch wt, wt_ev wt) \<and> io_event (wt_ev wt) \<and>
        (\<exists>fb. fibers (b_sched s) g = Some fb \<and> \<not> is_closure base (fb_cb fb)) \<and>
        (wt_held wt \<or> runs (b_sched s) g))"

definition closures_ok :: "callback \<Rightarrow> blocking \<Rightarrow> bool" where
  "closures_ok base s \<longleftrightarrow> base \<le> b_next s \<and>
     (\<forall>k. b_next s \<le> k \<longrightarrow> \<not> b_trig s k \<and> \<not> b_fired s k \<and> \<not> b_lost s k \<and>
        task_of_callback k \<notin># born (b_sched s) \<and> (\<forall>w c. b_copy s w \<noteq> Some (c, k))) \<and>
     (\<forall>f fb k. fibers (b_sched s) f = Some fb \<longrightarrow> fb_cb fb = Some k \<longrightarrow> base \<le> k \<longrightarrow>
        k < b_next s \<and> fb_state fb \<in> {kReady, kRunning}) \<and>
     (\<forall>f. fibers (b_sched s) f = None \<longrightarrow> b_stage s f = ClFresh)"

text \<open>Which callbacks the channels hold.\<close>

definition places_ok :: "callback \<Rightarrow> callback \<Rightarrow> blocking \<Rightarrow> bool" where
  "places_ok herr base s \<longleftrightarrow>
     (\<forall>c ch. chans (b_iom s) c = Some ch \<longrightarrow> c < next_ch (b_iom s) \<and>
        (error_cb ch = None \<or> error_cb ch = Some herr) \<and>
        (ch_queue ch = None \<longrightarrow> read_cb ch = None \<and> write_cb ch = None) \<and>
        (\<forall>e k. io_event e \<longrightarrow> event_callback e ch = Some k \<longrightarrow>
           base \<le> k \<and> k < b_next s \<and> \<not> b_lost s k \<and> b_place s k = (c, e)))"

definition armed_ok :: "blocking \<Rightarrow> bool" where
  "armed_ok s \<longleftrightarrow>
     (\<forall>g wt. b_wait s g = Some wt \<longrightarrow> \<not> b_lost s (wt_cb wt) \<longrightarrow>
        (\<exists>ch. chans (b_iom s) (wt_ch wt) = Some ch \<and> armed_ch (wt_cb wt) (wt_ev wt) ch))"

definition copies_ok :: "blocking \<Rightarrow> bool" where
  "copies_ok s \<longleftrightarrow>
     (\<forall>w c k. b_copy s w = Some (c, k) \<longrightarrow> w < n_threads (b_sched s) \<and>
        (\<exists>evs. pcs (b_sched s) w = IdleEvents evs) \<and>
        (\<exists>ch. chans (b_iom s) c = Some ch \<and> (ch_queue ch = None \<or> ch_queue ch = Some w)))"

definition blocking_ok :: "callback \<Rightarrow> callback \<Rightarrow> nat \<Rightarrow> nat \<Rightarrow> blocking \<Rightarrow> bool" where
  "blocking_ok herr base n m s \<longleftrightarrow> sched_ok True n m (b_sched s) \<and> chains_ok s \<and> waits_ok base s \<and>
     closures_ok base s \<and> places_ok herr base s \<and> armed_ok s \<and> copies_ok s"

lemma blocking_okD:
  assumes "blocking_ok herr base n m s"
  shows "sched_ok True n m (b_sched s)" "chains_ok s" "waits_ok base s" "closures_ok base s"
    "places_ok herr base s" "armed_ok s" "copies_ok s"
    "fibers_ok (fibers (b_sched s)) (fresh (b_sched s)) (pcs (b_sched s))" "n_threads (b_sched s) = n"
  using assms by (auto simp: blocking_ok_def sched_ok_def shape_def)

lemma blocking_ok_init: "0 < n \<Longrightarrow> herr < base \<Longrightarrow> blocking_ok herr base n m (init_blocking base n m)"
  using sched_ok_init [of n True m]
  by (simp add: blocking_ok_def init_blocking_def chains_ok_def waits_ok_def closures_ok_def places_ok_def
      armed_ok_def copies_ok_def init_sched_def init_iom_def)

section \<open>A step of the scheduler\<close>

text \<open>What the composed machine needs of a step of the scheduler that leaves the rest alone.\<close>

definition steady :: "callback \<Rightarrow> action \<Rightarrow> blocking \<Rightarrow> bool" where
  "steady base a s \<longleftrightarrow>
     (\<forall>f. leaves f (b_sched s) a \<longrightarrow> closure_fiber base s f \<longrightarrow>
        b_stage s f = ClFinished \<and> \<not> holding f (b_sched s) a) \<and>
     (\<forall>w c u f wt. a = Worker w c \<longrightarrow> pcs (b_sched s) w = RunBody u f \<longrightarrow> b_wait s f = Some wt \<longrightarrow>
        c = UserHold \<and> \<not> wt_held wt) \<and>
     (\<forall>k. base \<le> k \<longrightarrow> \<not> brings k (b_sched s) a) \<and>
     (\<forall>c cb. a = SpawnSubmit c cb \<longrightarrow> \<not> is_closure base cb) \<and>
     (\<forall>w c. a = Worker w c \<longrightarrow> b_copy s w = None)"

lemma steadyD:
  assumes "steady base a s"
  shows "leaves f (b_sched s) a \<Longrightarrow> closure_fiber base s f \<Longrightarrow>
      b_stage s f = ClFinished \<and> \<not> holding f (b_sched s) a"
    and "a = Worker w c \<Longrightarrow> pcs (b_sched s) w = RunBody u f \<Longrightarrow> b_wait s f = Some wt \<Longrightarrow> c = UserHold \<and> \<not> wt_held wt"
    and "base \<le> k \<Longrightarrow> \<not> brings k (b_sched s) a"
    and "a = SpawnSubmit d cb \<Longrightarrow> \<not> is_closure base cb"
    and "a = Worker w c \<Longrightarrow> b_copy s w = None"
  using assms unfolding steady_def by blast+

lemma at_stage_sched:
  assumes "blocking_ok herr base n m s" "steady base a s" "sched_step (b_sched s) a = Some ss"
    and "at_stage s k st f" "base \<le> k" "st \<noteq> ClFinished"
  shows "at_stage (s\<lparr>b_sched := ss\<rparr>) k st f"
proof -
  obtain fb where fb: "fibers (b_sched s) f = Some fb" "fb_cb fb = Some k" "b_stage s f = st"
    using assms(4) by (auto simp: at_stage_def)
  then have "closure_fiber base s f" using assms(5) by (simp add: closure_fiber_def is_closure_def)
  then have "\<not> leaves f (b_sched s) a" using steadyD(1) [OF assms(2)] fb(3) assms(6) by blast
  from step_fiber [OF assms(3) fb(1) this blocking_okD(8) [OF assms(1)]] fb(2,3)
  show ?thesis by (auto simp: at_stage_def same_work_def)
qed

lemma runs_sched:
  assumes "steady base a s" "sched_step (b_sched s) a = Some ss" "n_threads ss = n_threads (b_sched s)"
    and "runs (b_sched s) g" "b_wait s g = Some wt"
  shows "runs ss g \<or> holding g (b_sched s) a \<and> \<not> wt_held wt"
proof -
  obtain w u where w: "w < n_threads (b_sched s)" "pcs (b_sched s) w = RunBody u g"
    using assms(4) by (auto simp: runs_def)
  show ?thesis
  proof (cases "\<exists>c. a = Worker w c")
    case True
    with steadyD(2) [OF assms(1) _ w(2) assms(5)] w(2) show ?thesis by (auto simp: holding_def)
  next
    case False
    with step_body(1) [OF assms(2) w(2)] w(1) assms(3) show ?thesis by (auto simp: runs_def)
  qed
qed

lemma claimed_sched:
  assumes ok: "blocking_ok herr base n m s" "steady base a s" "sched_step (b_sched s) a = Some ss"
    and wt: "b_wait s g = Some wt" and cl: "claimed s g wt"
  shows "claimed (s\<lparr>b_sched := ss\<rparr>) g wt"
proof -
  note ok' = blocking_okD [OF ok(1)]
  have k: "base \<le> wt_cb wt" and run: "wt_held wt \<or> runs (b_sched s) g"
    using ok'(3) wt by (auto simp: waits_ok_def)
  have sok: "sched_ok True n m ss" by (rule sched_ok_step [OF ok'(1) ok(3)])
  then have n: "n_threads ss = n_threads (b_sched s)" "fibers_ok (fibers ss) (fresh ss) (pcs ss)"
    using ok'(9) by (simp_all add: sched_ok_def shape_def)
  from cl consider (stage) f where "at_stage s (wt_cb wt) ClClaimed f" | (woken) "woken g (b_sched s)"
    | (runs) "wt_held wt" "runs (b_sched s) g"
    unfolding claimed_def by blast
  then show ?thesis
  proof cases
    case stage
    from at_stage_sched [OF ok stage k] show ?thesis unfolding claimed_def by blast
  next
    case woken
    show ?thesis
    proof (cases "resumes g (b_sched s) a")
      case True
      from step_resumes [OF ok(3) True ok'(8) n(2)] n(1) run
      have "wt_held wt" "runs ss g" by (auto simp: runs_def)
      then show ?thesis by (simp add: claimed_def)
    next
      case False
      from woken_step [OF ok(3) this ok'(8) woken] show ?thesis by (simp add: claimed_def)
    qed
  next
    case runs
    with runs_sched [OF ok(2,3) n(1) _ wt] show ?thesis by (auto simp: claimed_def)
  qed
qed

lemma under_way_sched:
  assumes ok: "blocking_ok herr base n m s" "steady base a s" "sched_step (b_sched s) a = Some ss"
    and wt: "b_wait s g = Some wt" and un: "under_way s g wt"
  shows "under_way (s\<lparr>b_sched := ss\<rparr>) g wt"
proof -
  note ok' = blocking_okD [OF ok(1)]
  have k: "base \<le> wt_cb wt" using ok'(3) wt by (auto simp: waits_ok_def)
  from un consider (copied) w c where "b_copy s w = Some (c, wt_cb wt)"
    | (left) "task_left (b_sched s) (wt_cb wt)" | (fresh) f where "at_stage s (wt_cb wt) ClFresh f"
    | (claimed) "claimed s g wt"
    unfolding under_way_def by blast
  then show ?thesis
  proof cases
    case copied
    then show ?thesis by (auto simp: under_way_def)
  next
    case left
    from step_callback_task [OF ok(3) _ ok'(8), of "wt_cb wt"] left
    have "task_left ss (wt_cb wt) \<or> fibers (b_sched s) (fresh (b_sched s)) = None \<and>
        (\<exists>fb. fibers ss (fresh (b_sched s)) = Some fb \<and> fb_cb fb = Some (wt_cb wt))"
      by (simp add: task_left_def)
    then show ?thesis
    proof (elim disjE conjE)
      assume "fibers (b_sched s) (fresh (b_sched s)) = None"
        and fb: "\<exists>fb. fibers ss (fresh (b_sched s)) = Some fb \<and> fb_cb fb = Some (wt_cb wt)"
      then have "b_stage s (fresh (b_sched s)) = ClFresh" using ok'(4) by (simp add: closures_ok_def)
      with fb have "at_stage (s\<lparr>b_sched := ss\<rparr>) (wt_cb wt) ClFresh (fresh (b_sched s))"
        by (simp add: at_stage_def)
      then show ?thesis unfolding under_way_def by blast
    qed (simp add: under_way_def)
  next
    case fresh
    from at_stage_sched [OF ok fresh k] show ?thesis unfolding under_way_def by blast
  next
    case claimed
    from claimed_sched [OF ok wt claimed] show ?thesis by (simp add: under_way_def)
  qed
qed

lemma dispatch_born:
  assumes "blocking_ok herr base n m s" "sched_step (b_sched s) a = Some ss" "a = Worker w c"
    and "pcs (b_sched s) w = RunDispatch u" "st_fiber u = None" "st_cb u = Some k"
  shows "task_of_callback k \<in># born (b_sched s)"
proof -
  have u: "u = task_of_callback k" using assms(5,6) by (simp add: task_of_callback_def)
  have w: "w < n_threads (b_sched s)" using assms(2,3) by (auto split: if_splits)
  have "books (b_sched s)" using blocking_okD(1) [OF assms(1)] by (simp add: sched_ok_def)
  from located_count [OF this located_hand [OF w, of u]] assms(4)
  have "u \<in># born (b_sched s)" by (metis count_eq_zero_iff hand.simps(2) not_less_zero union_single_eq_member)
  with u show ?thesis by simp
qed

text \<open>Where a closure's fiber comes from.\<close>

lemma new_fiber_born:
  assumes ok: "blocking_ok herr base n m s" "steady base a s" "sched_step (b_sched s) a = Some ss"
    and f: "fibers (b_sched s) f = None" "fibers ss f = Some fb" "fb_cb fb = Some k" "base \<le> k"
  shows "fb_state fb = kReady" "task_of_callback k \<in># born (b_sched s)"
proof -
  from step_new_fiber [OF ok(3) f(1,2) blocking_okD(8) [OF ok(1)]] f(3)
  show "fb_state fb = kReady" and cr: "task_of_callback k \<in># born (b_sched s)"
  proof -
    assume a: "f = fresh (b_sched s) \<and> fb_state fb = kReady \<and> creates (fb_cb fb) (b_sched s) a"
    then show "fb_state fb = kReady" by simp
    from a f(3) consider (run) w c u where "a = Worker w c" "pcs (b_sched s) w = RunDispatch u" "st_fiber u = None" "st_cb u = Some k"
      | (spawn) c where "a = SpawnSubmit c (Some k)"
      by (auto simp: creates_def split: action.splits wpc.splits)
    then show "task_of_callback k \<in># born (b_sched s)"
    proof cases
      case run
      from dispatch_born [OF ok(1,3) run] show ?thesis .
    qed (use steadyD(4) [OF ok(2)] f(4) in \<open>auto simp: is_closure_def\<close>)
  qed
qed

lemma closures_ok_sched:
  assumes ok: "blocking_ok herr base n m s" "steady base a s" "sched_step (b_sched s) a = Some ss"
  shows "closures_ok base (s\<lparr>b_sched := ss\<rparr>)"
proof -
  note ok' = blocking_okD [OF ok(1)]
  note cl = ok'(4) [unfolded closures_ok_def]
  have "task_of_callback k \<notin># born ss" if "b_next s \<le> k" for k
    using step_born [OF ok(3), of k] steadyD(3) [OF ok(2), of k] cl that by auto
  moreover have "k < b_next s \<and> fb_state fb' \<in> {kReady, kRunning}"
    if f: "fibers ss f = Some fb'" "fb_cb fb' = Some k" "base \<le> k" for f fb' k
  proof (cases "fibers (b_sched s) f")
    case None
    with new_fiber_born [OF ok None f] cl show ?thesis by (metis insertI1 not_le)
  next
    case (Some fb)
    show ?thesis
    proof (cases "leaves f (b_sched s) a")
      case False
      from step_fiber [OF ok(3) Some False ok'(8)] f(1,2)
      have "same_work fb fb'" by auto
      with cl Some f(2,3) show ?thesis unfolding same_work_def by metis
    next
      case True
      from step_leaves [OF ok(3) True ok'(8)] Some f(1,2)
      have "holding f (b_sched s) a" "fb_cb fb = Some k" by auto
      with steadyD(1) [OF ok(2) True] Some f(3) show ?thesis by (simp add: closure_fiber_def is_closure_def)
    qed
  qed
  moreover have "b_stage s f = ClFresh" if "fibers ss f = None" for f
    using step_keeps_fiber [OF ok(3) _ ok'(8), of f] that cl by blast
  ultimately show ?thesis using cl by (simp add: closures_ok_def)
qed

lemma copies_ok_sched:
  assumes ok: "blocking_ok herr base n m s" "steady base a s" "sched_step (b_sched s) a = Some ss"
  shows "copies_ok (s\<lparr>b_sched := ss\<rparr>)"
proof -
  note ok' = blocking_okD [OF ok(1)]
  have n: "n_threads ss = n_threads (b_sched s)"
    using sched_ok_step [OF ok'(1) ok(3)] ok'(9) by (simp add: sched_ok_def shape_def)
  have "pcs ss w = IdleEvents evs" if "b_copy s w = Some x" "pcs (b_sched s) w = IdleEvents evs" for w x evs
    using step_body(2) [OF ok(3) that(2)] steadyD(5) [OF ok(2), of w] that(1) by auto
  with ok'(7) n show ?thesis unfolding copies_ok_def by (simp, metis)
qed

text \<open>A step of the scheduler other than a \<^verbatim>\<open>hold\<close> of a waiting fiber keeps everything.\<close>

lemma waits_ok_sched:
  assumes ok: "blocking_ok herr base n m s" "steady base a s" "sched_step (b_sched s) a = Some ss"
    and wt: "b_wait s g = Some wt"
  shows "(\<exists>fb. fibers ss g = Some fb \<and> \<not> is_closure base (fb_cb fb)) \<and>
    (wt_held wt \<or> runs ss g \<or> holding g (b_sched s) a)"
proof -
  note ok' = blocking_okD [OF ok(1)]
  have n: "n_threads ss = n_threads (b_sched s)"
    using sched_ok_step [OF ok'(1) ok(3)] ok'(9) by (simp add: sched_ok_def shape_def)
  obtain fb where fb: "fibers (b_sched s) g = Some fb" "\<not> is_closure base (fb_cb fb)"
    and run: "wt_held wt \<or> runs (b_sched s) g"
    using ok'(3) wt unfolding waits_ok_def by blast
  have "\<exists>fb. fibers ss g = Some fb \<and> \<not> is_closure base (fb_cb fb)"
  proof (cases "leaves g (b_sched s) a")
    case True
    from step_leaves [OF ok(3) True ok'(8)] fb show ?thesis by (auto simp: is_closure_def)
  next
    case False
    from step_fiber [OF ok(3) fb(1) False ok'(8)] fb(2) show ?thesis by (auto simp: same_work_def)
  qed
  with run runs_sched [OF ok(2,3) n _ wt] show ?thesis by blast
qed

lemma blocking_ok_sched:
  assumes ok: "blocking_ok herr base n m s" "steady base a s" "sched_step (b_sched s) a = Some ss"
    and no: "\<And>g wt. b_wait s g = Some wt \<Longrightarrow> \<not> holding g (b_sched s) a"
  shows "blocking_ok herr base n m (s\<lparr>b_sched := ss\<rparr>)"
proof -
  note ok' = blocking_okD [OF ok(1)]
  have "chains_ok (s\<lparr>b_sched := ss\<rparr>)"
    using ok'(2) claimed_sched [OF ok] under_way_sched [OF ok] unfolding chains_ok_def by simp
  moreover have "waits_ok base (s\<lparr>b_sched := ss\<rparr>)"
    using ok'(3) waits_ok_sched [OF ok] no unfolding waits_ok_def by auto
  moreover have "places_ok herr base (s\<lparr>b_sched := ss\<rparr>)" "armed_ok (s\<lparr>b_sched := ss\<rparr>)"
    using ok'(5,6) by (simp_all add: places_ok_def armed_ok_def)
  ultimately show ?thesis
    using sched_ok_step [OF ok'(1) ok(3)] closures_ok_sched [OF ok] copies_ok_sched [OF ok]
    by (simp add: blocking_ok_def)
qed

lemma ordinary_steady:
  assumes "blocking_ok herr base n m s" "ordinary base a s"
  shows "steady base a s" "\<And>g wt. b_wait s g = Some wt \<Longrightarrow> \<not> holding g (b_sched s) a"
proof -
  note ok = blocking_okD [OF assms(1)]
  have cl: "\<not> closure_fiber base s g" if "b_wait s g = Some wt" for g wt
    using ok(3) that unfolding waits_ok_def closure_fiber_def by fastforce
  show no: "\<not> holding g (b_sched s) a" if "b_wait s g = Some wt" for g wt
    using assms(2) that cl [OF that] by (auto simp: holding_def may_act_def split: if_splits)
  show "steady base a s"
    unfolding steady_def
  proof (intro conjI allI impI)
    fix f assume "leaves f (b_sched s) a" "closure_fiber base s f"
    with assms(2) show "b_stage s f = ClFinished" "\<not> holding f (b_sched s) a"
      by (auto simp: leaves_def holding_def may_act_def split: action.splits wpc.splits if_splits)
  next
    fix w c u f wt
    assume "a = Worker w c" "pcs (b_sched s) w = RunBody u f" "b_wait s f = Some wt"
    with assms(2) cl [of f wt] show "c = UserHold" "\<not> wt_held wt"
      by (auto simp: may_act_def split: if_splits)
  next
    fix k assume "base \<le> k"
    with assms(2) show "\<not> brings k (b_sched s) a"
      by (auto simp: brings_def may_act_def is_closure_def split: action.splits wpc.splits list.splits event.splits)
  next
    fix c cb assume "a = SpawnSubmit c cb"
    with assms(2) show "\<not> is_closure base cb" by simp
  next
    fix w c assume a: "a = Worker w c"
    show "b_copy s w = None"
    proof (cases "\<exists>evs. pcs (b_sched s) w = IdleEvents evs")
      case True
      with assms(2) a show ?thesis by (auto simp: may_act_def)
    next
      case False
      with ok(7) show ?thesis by (cases "b_copy s w") (auto simp: copies_ok_def)
    qed
  qed
qed

section \<open>Steps on the channels\<close>

lemma pending_frame [simp]:
  "sched_ok b n m (ss\<lparr>pending := p\<rparr>) = sched_ok b n m ss" "woken g (ss\<lparr>pending := p\<rparr>) = woken g ss"
  "runs (ss\<lparr>pending := p\<rparr>) g = runs ss g" "task_left (ss\<lparr>pending := p\<rparr>) k = task_left ss k"
  by (simp_all add: sched_ok_def shape_def books_def located_def born_known_def runnable_kept_def
      exits_ok_def wakeups_ok_def woken_def free_tasks_def runs_def task_left_def)

lemma put_iom_simps [simp]:
  "b_iom (put_iom i s) = i" "b_sched (put_iom i s) = (b_sched s)\<lparr>pending := io_pending i\<rparr>"
  "b_wait (put_iom i s) = b_wait s" "b_trig (put_iom i s) = b_trig s" "b_stage (put_iom i s) = b_stage s"
  "b_copy (put_iom i s) = b_copy s" "b_next (put_iom i s) = b_next s" "b_owner (put_iom i s) = b_owner s"
  "b_place (put_iom i s) = b_place s" "b_fired (put_iom i s) = b_fired s" "b_lost (put_iom i s) = b_lost s"
  by (simp_all add: put_iom_def)

lemma lose_simps [simp]:
  "b_iom (lose cb s) = b_iom s" "b_sched (lose cb s) = b_sched s"
  "b_wait (lose cb s) = b_wait s" "b_trig (lose cb s) = b_trig s" "b_stage (lose cb s) = b_stage s"
  "b_copy (lose cb s) = b_copy s" "b_next (lose cb s) = b_next s" "b_owner (lose cb s) = b_owner s"
  "b_place (lose cb s) = b_place s" "b_fired (lose cb s) = b_fired s"
  "b_lost (lose cb s) k \<longleftrightarrow> b_lost s k \<or> cb = Some k"
  by (auto simp: lose_def split: option.split)

lemma iom_of_simps [simp]:
  "chans (iom_of s) = chans (b_iom s)" "ctable (iom_of s) = ctable (b_iom s)"
  "next_ch (iom_of s) = next_ch (b_iom s)" "io_pending (iom_of s) = pending (b_sched s)"
  by (simp_all add: iom_of_def)

text \<open>A step that changes channels, the count of pending events and the waiting fibers.\<close>

definition same_closures :: "blocking \<Rightarrow> blocking \<Rightarrow> bool" where
  "same_closures s t \<longleftrightarrow> b_trig t = b_trig s \<and> b_stage t = b_stage s \<and> b_copy t = b_copy s \<and>
     b_fired t = b_fired s \<and> (\<exists>p. b_sched t = (b_sched s)\<lparr>pending := p\<rparr>)"

definition channels_kept :: "(nat \<Rightarrow> channel option) \<Rightarrow> (nat \<Rightarrow> channel option) \<Rightarrow> bool" where
  "channels_kept cs cs' \<longleftrightarrow>
     (\<forall>c ch. cs c = Some ch \<longrightarrow> (\<exists>ch'. cs' c = Some ch' \<and> (ch_queue ch' = None \<or> ch_queue ch' = ch_queue ch)))"

lemma same_closures_simps:
  assumes "same_closures s t"
  shows "claimed t g wt = claimed s g wt" "under_way t g wt = under_way s g wt"
    "sched_ok b n m (b_sched t) = sched_ok b n m (b_sched s)" "runs (b_sched t) g = runs (b_sched s) g"
    "fibers (b_sched t) = fibers (b_sched s)" "born (b_sched t) = born (b_sched s)"
    "n_threads (b_sched t) = n_threads (b_sched s)" "pcs (b_sched t) = pcs (b_sched s)"
    "b_trig t = b_trig s" "b_stage t = b_stage s" "b_copy t = b_copy s" "b_fired t = b_fired s"
proof -
  obtain p where t: "b_trig t = b_trig s" "b_stage t = b_stage s" "b_copy t = b_copy s" "b_fired t = b_fired s"
    "b_sched t = (b_sched s)\<lparr>pending := p\<rparr>"
    using assms by (auto simp: same_closures_def)
  then have "at_stage t k st f = at_stage s k st f" for k st f by (simp add: at_stage_def)
  with t show "claimed t g wt = claimed s g wt" "under_way t g wt = under_way s g wt"
    "sched_ok b n m (b_sched t) = sched_ok b n m (b_sched s)" "runs (b_sched t) g = runs (b_sched s) g"
    "fibers (b_sched t) = fibers (b_sched s)" "born (b_sched t) = born (b_sched s)"
    "n_threads (b_sched t) = n_threads (b_sched s)" "pcs (b_sched t) = pcs (b_sched s)"
    "b_trig t = b_trig s" "b_stage t = b_stage s" "b_copy t = b_copy s" "b_fired t = b_fired s"
    by (simp_all add: claimed_def under_way_def)
qed

lemma blocking_ok_channels:
  assumes ok: "blocking_ok herr base n m s" and t: "same_closures s t" "channels_kept (chans (b_iom s)) (chans (b_iom t))"
    and wt: "\<And>g wt. b_wait t g = Some wt \<Longrightarrow> b_wait s g = Some wt \<and> b_owner t (wt_cb wt) = b_owner s (wt_cb wt) \<and>
        b_place t (wt_cb wt) = b_place s (wt_cb wt) \<or>
      \<not> b_trig s (wt_cb wt) \<and> \<not> b_fired s (wt_cb wt) \<and> base \<le> wt_cb wt \<and> wt_cb wt < b_next t \<and> b_owner t (wt_cb wt) = g \<and>
        b_place t (wt_cb wt) = (wt_ch wt, wt_ev wt) \<and> io_event (wt_ev wt) \<and>
        (\<exists>fb. fibers (b_sched s) g = Some fb \<and> \<not> is_closure base (fb_cb fb)) \<and> runs (b_sched s) g"
    and k: "b_next s \<le> b_next t" "\<And>k. b_next t \<le> k \<Longrightarrow> \<not> b_lost t k"
    and ch: "places_ok herr base t" "armed_ok t"
  shows "blocking_ok herr base n m t"
proof -
  note ok' = blocking_okD [OF ok] and fr = same_closures_simps [OF t(1)]
  have "chains_ok t"
    unfolding chains_ok_def fr using ok'(2) wt unfolding chains_ok_def by blast
  moreover have "waits_ok base t"
    unfolding waits_ok_def fr
  proof (intro allI impI)
    fix g wt assume "b_wait t g = Some wt"
    from wt [OF this] show "base \<le> wt_cb wt \<and> wt_cb wt < b_next t \<and> b_owner t (wt_cb wt) = g \<and>
        b_place t (wt_cb wt) = (wt_ch wt, wt_ev wt) \<and> io_event (wt_ev wt) \<and>
        (\<exists>fb. fibers (b_sched s) g = Some fb \<and> \<not> is_closure base (fb_cb fb)) \<and>
        (wt_held wt \<or> runs (b_sched s) g)"
      using ok'(3) k(1) unfolding waits_ok_def by fastforce
  qed
  moreover have "closures_ok base t"
    using ok'(4) k unfolding closures_ok_def fr by (meson le_trans less_le_trans)
  moreover have "copies_ok t"
    unfolding copies_ok_def fr
  proof (intro allI impI)
    fix w c k assume "b_copy s w = Some (c, k)"
    with ok'(7) obtain ch where "w < n_threads (b_sched s)" "\<exists>evs. pcs (b_sched s) w = IdleEvents evs"
      "chans (b_iom s) c = Some ch" "ch_queue ch = None \<or> ch_queue ch = Some w"
      unfolding copies_ok_def by blast
    with t(2) show "w < n_threads (b_sched s) \<and> (\<exists>evs. pcs (b_sched s) w = IdleEvents evs) \<and>
        (\<exists>ch. chans (b_iom t) c = Some ch \<and> (ch_queue ch = None \<or> ch_queue ch = Some w))"
      unfolding channels_kept_def by metis
  qed
  ultimately show ?thesis using ok'(1) ch by (simp add: blocking_ok_def fr)
qed

lemma at_user_code_Some:
  assumes "at_user_code base w s = Some g"
  shows "b_wait s g = None" "\<not> closure_fiber base s g" "\<exists>u. pcs (b_sched s) w = RunBody u g" "w < n_threads (b_sched s)"
  using assms
  by (auto simp: at_user_code_def running_fiber_def split: option.splits if_splits wpc.splits)

lemma blocking_ok_bind:
  assumes ok: "blocking_ok herr base n m s" and t: "b_bind base w fd s = Some t"
  shows "blocking_ok herr base n m t"
proof -
  obtain c i where b: "bindTaskQueue (Some w) fd (iom_of s) = Some (c, i)" "t = put_iom i s"
    using t by (auto simp: b_bind_def split: option.splits)
  note ok' = blocking_okD [OF ok]
  have fresh: "chans (b_iom s) (next_ch (b_iom s)) = None"
    using ok'(5) unfolding places_ok_def by (metis less_irrefl not_None_eq)
  have i: "channels_kept (chans (b_iom s)) (chans i)" "next_ch (b_iom s) \<le> next_ch i"
    "\<And>d ch. chans i d = Some ch \<Longrightarrow> chans (b_iom s) d = Some ch \<or>
      d < next_ch i \<and> error_cb ch = None \<and> read_cb ch = None \<and> write_cb ch = None"
    "\<And>d ch. chans (b_iom s) d = Some ch \<Longrightarrow> chans i d = Some ch"
    using b(1) fresh
    by (cases rule: bindTaskQueue_cases; auto simp: channels_kept_def new_channel_def split: if_splits)+
  show ?thesis
  proof (rule blocking_ok_channels [OF ok])
    show "same_closures s t" by (auto simp: same_closures_def b(2))
    show "places_ok herr base t"
      unfolding places_ok_def b(2) put_iom_simps
    proof (intro allI impI)
      fix d ch assume "chans i d = Some ch"
      from i(3) [OF this] show "d < next_ch i \<and> (error_cb ch = None \<or> error_cb ch = Some herr) \<and>
        (ch_queue ch = None \<longrightarrow> read_cb ch = None \<and> write_cb ch = None) \<and>
        (\<forall>e k. io_event e \<longrightarrow> event_callback e ch = Some k \<longrightarrow>
           base \<le> k \<and> k < b_next s \<and> \<not> b_lost s k \<and> b_place s k = (d, e))"
      proof
        assume "chans (b_iom s) d = Some ch"
        with ok'(5) i(2) show ?thesis unfolding places_ok_def by (meson less_le_trans)
      qed (auto simp: io_event_def event_callback_def)
    qed
    show "armed_ok t"
      using ok'(6) i(4) unfolding armed_ok_def b(2) put_iom_simps by blast
  qed (use i(1) ok'(4) in \<open>auto simp: b(2) closures_ok_def\<close>)
qed

lemma blocking_ok_fails [simp]: "blocking_ok herr base n m (fails s) = blocking_ok herr base n m s"
  by (simp add: blocking_ok_def fails_def chains_ok_def waits_ok_def closures_ok_def places_ok_def
      armed_ok_def copies_ok_def claimed_def under_way_def at_stage_def)

lemma waits_okD:
  assumes "waits_ok base s" "b_wait s g = Some wt"
  shows "base \<le> wt_cb wt" "wt_cb wt < b_next s" "b_owner s (wt_cb wt) = g"
    "b_place s (wt_cb wt) = (wt_ch wt, wt_ev wt)" "io_event (wt_ev wt)"
    "\<exists>fb. fibers (b_sched s) g = Some fb \<and> \<not> is_closure base (fb_cb fb)" "wt_held wt \<or> runs (b_sched s) g"
  using assms unfolding waits_ok_def by blast+

lemma same_closures_put [simp]: "same_closures s (put_iom i s)"
  unfolding same_closures_def put_iom_simps by blast

lemma places_okD:
  assumes "places_ok herr base s" "chans (b_iom s) c = Some ch"
  shows "c < next_ch (b_iom s)" "error_cb ch = None \<or> error_cb ch = Some herr"
    "ch_queue ch = None \<Longrightarrow> read_cb ch = None \<and> write_cb ch = None"
    "io_event e \<Longrightarrow> event_callback e ch = Some k \<Longrightarrow>
       base \<le> k \<and> k < b_next s \<and> \<not> b_lost s k \<and> b_place s k = (c, e)"
  using assms unfolding places_ok_def by blast+

lemma armed_okD:
  assumes "armed_ok s" "b_wait s g = Some wt" "\<not> b_lost s (wt_cb wt)"
  obtains ch where "chans (b_iom s) (wt_ch wt) = Some ch" "armed_ch (wt_cb wt) (wt_ev wt) ch"
  using assms unfolding armed_ok_def by blast

text \<open>One channel changes; the callbacks it drops are lost, or are those of no fiber.\<close>

lemma places_ok_one:
  assumes ok: "places_ok herr base s"
    and t: "chans (b_iom t) = (chans (b_iom s))(c \<mapsto> ch')" "next_ch (b_iom t) = next_ch (b_iom s)" "b_next s \<le> b_next t"
    and c: "chans (b_iom s) c = Some ch"
    and ch: "error_cb ch' = None \<or> error_cb ch' = Some herr"
      "ch_queue ch' = None \<longrightarrow> read_cb ch' = None \<and> write_cb ch' = None"
      "\<And>e k. io_event e \<Longrightarrow> event_callback e ch' = Some k \<Longrightarrow>
        event_callback e ch = Some k \<or> b_next s \<le> k \<and> base \<le> k \<and> k < b_next t \<and> \<not> b_lost t k \<and> b_place t k = (c, e)"
    and lost: "\<And>k. k < b_next s \<Longrightarrow> b_place t k = b_place s k"
      "\<And>k. k < b_next s \<Longrightarrow> b_lost t k \<Longrightarrow>
        b_lost s k \<or> (\<exists>e. io_event e \<and> event_callback e ch = Some k \<and> event_callback e ch' \<noteq> Some k)"
  shows "places_ok herr base t"
  unfolding places_ok_def t
proof (intro allI impI)
  fix d chd assume d: "((chans (b_iom s))(c \<mapsto> ch')) d = Some chd"
  let ?chd = "if d = c then ch else chd"
  have old: "chans (b_iom s) d = Some ?chd" using d c by (auto split: if_splits)
  note pd = places_okD [OF ok old] and pc = places_okD(4) [OF ok c]
  have "base \<le> k \<and> k < b_next t \<and> \<not> b_lost t k \<and> b_place t k = (d, e)"
    if e: "io_event e" "event_callback e chd = Some k" for e k
  proof (cases "event_callback e ?chd = Some k")
    case True
    note k = pd(4) [OF e(1) True]
    have "\<not> b_lost t k"
    proof
      assume "b_lost t k"
      with lost(2) k obtain e' where e': "io_event e'" "event_callback e' ch = Some k" "event_callback e' ch' \<noteq> Some k"
        by blast
      from pc [OF e'(1,2)] k have "e' = e" "d = c" by auto
      with e' e(2) d show False by simp
    qed
    with k lost(1) [of k] t(3) show ?thesis by auto
  next
    case False
    with e d ch(3) [of e k] show ?thesis by (auto split: if_splits)
  qed
  with d pd(1,2,3) ch(1,2) show "d < next_ch (b_iom s) \<and> (error_cb chd = None \<or> error_cb chd = Some herr) \<and>
      (ch_queue chd = None \<longrightarrow> read_cb chd = None \<and> write_cb chd = None) \<and>
      (\<forall>e k. io_event e \<longrightarrow> event_callback e chd = Some k \<longrightarrow>
         base \<le> k \<and> k < b_next t \<and> \<not> b_lost t k \<and> b_place t k = (d, e))"
    by (auto split: if_splits)
qed

lemma channels_kept_one:
  "cs c = Some ch \<Longrightarrow> ch_queue ch' = None \<or> ch_queue ch' = ch_queue ch \<Longrightarrow> channels_kept cs (cs(c \<mapsto> ch'))"
  by (auto simp: channels_kept_def)

lemma armed_ch_event: "armed_ch k e ch \<Longrightarrow> event_callback e ch = Some k"
  by (simp add: armed_ch_def)

lemma blocking_ok_register:
  assumes ok: "blocking_ok herr base n m s" and t: "b_register herr base w c e s = Some t"
  shows "blocking_ok herr base n m t"
proof -
  note ok' = blocking_okD [OF ok]
  obtain g ch where g: "at_user_code base w s = Some g" "chans (b_iom s) c = Some ch" "io_event e"
    using t by (auto simp: b_register_def Let_def io_event_def split: option.splits if_splits)
  let ?k = "b_next s"
  show ?thesis
  proof (cases "registerEvent herr c e ?k True True (iom_of s)")
    case None
    with t g ok show ?thesis
      by (auto simp: b_register_def Let_def io_event_def split: if_splits)
  next
    case (Some ri)
    obtain r i where ri: "ri = (r, i)" by fastforce
    let ?wt = "\<lparr>wt_cb = ?k, wt_ch = c, wt_ev = e, wt_held = False\<rparr>"
    have t': "t = (lose (event_callback e ch) (put_iom i s))\<lparr>b_wait := (b_wait s)(g \<mapsto> ?wt),
        b_next := Suc ?k, b_owner := (b_owner s)(?k := g), b_place := (b_place s)(?k := (c, e))\<rparr>"
      using t g Some ri by (auto simp: b_register_def Let_def io_event_def split: if_splits)
    obtain ch' where i: "i = (set_chan c ch' (iom_of s))\<lparr>io_pending := pending (b_sched s) + 1\<rparr>" and ch':
      "armed_ch ?k e ch'" "ch_queue ch' = ch_queue ch" "error_cb ch' = Some herr"
      "\<And>e'. io_event e' \<Longrightarrow> e' \<noteq> e \<Longrightarrow> event_callback e' ch' = event_callback e' ch"
      "\<And>k' e'. io_event e' \<Longrightarrow> e' \<noteq> e \<Longrightarrow> armed_ch k' e' ch \<Longrightarrow> armed_ch k' e' ch'"
      using registerEvent_effect [of herr c e ?k "iom_of s" r i ch] Some ri g(2,3) by auto
    have cs: "chans (b_iom t) = (chans (b_iom s))(c \<mapsto> ch')" "next_ch (b_iom t) = next_ch (b_iom s)"
      by (simp_all add: t' i set_chan_def)
    have cb: "event_callback e ch' = Some ?k" "ch_queue ch' \<noteq> None" using ch'(1) by (simp_all add: armed_ch_def)
    have "places_ok herr base t"
    proof (rule places_ok_one [OF ok'(5) cs])
      fix e' k assume "io_event e'" "event_callback e' ch' = Some k"
      with ch'(4) [of e'] cb ok'(4)
      show "event_callback e' ch = Some k \<or> ?k \<le> k \<and> base \<le> k \<and> k < b_next t \<and> \<not> b_lost t k \<and> b_place t k = (c, e')"
        using places_okD(4) [OF ok'(5) g(2,3), of ?k]
        by (cases "e' = e") (auto simp: t' closures_ok_def)
    next
      fix k assume "k < ?k" "b_lost t k"
      with cb g(3) show "b_lost s k \<or> (\<exists>e. io_event e \<and> event_callback e ch = Some k \<and> event_callback e ch' \<noteq> Some k)"
        by (auto simp: t')
    qed (use g(2) ch' cb in \<open>auto simp: t'\<close>)
    moreover have "armed_ok t"
      unfolding armed_ok_def
    proof (intro allI impI)
      fix f wt assume f: "b_wait t f = Some wt" "\<not> b_lost t (wt_cb wt)"
      show "\<exists>ch. chans (b_iom t) (wt_ch wt) = Some ch \<and> armed_ch (wt_cb wt) (wt_ev wt) ch"
      proof (cases "f = g")
        case True
        with f ch'(1) show ?thesis by (auto simp: t' i set_chan_def)
      next
        case False
        with f have old: "b_wait s f = Some wt" "\<not> b_lost s (wt_cb wt)" "event_callback e ch \<noteq> Some (wt_cb wt)"
          by (auto simp: t')
        obtain chf where chf: "chans (b_iom s) (wt_ch wt) = Some chf" "armed_ch (wt_cb wt) (wt_ev wt) chf"
          by (rule armed_okD [OF ok'(6) old(1,2)])
        have ev: "io_event (wt_ev wt)" using ok'(3) old(1) by (auto simp: waits_ok_def)
        show ?thesis
        proof (cases "wt_ch wt = c")
          case True
          with chf g(2) old(3) have "wt_ev wt \<noteq> e" by (auto dest: armed_ch_event)
          with True chf g(2) ch'(5) [OF ev] show ?thesis by (auto simp: cs)
        next
          case False
          with chf show ?thesis by (auto simp: cs)
        qed
      qed
    qed
    ultimately show ?thesis
    proof (rule blocking_ok_channels [OF ok, rotated -2])
      show "same_closures s t" by (auto simp: same_closures_def t')
      show "channels_kept (chans (b_iom s)) (chans (b_iom t))"
        unfolding cs using channels_kept_one [of "chans (b_iom s)" c ch ch'] g(2) ch'(2) by simp
      fix f wt assume f: "b_wait t f = Some wt"
      show "b_wait s f = Some wt \<and> b_owner t (wt_cb wt) = b_owner s (wt_cb wt) \<and> b_place t (wt_cb wt) = b_place s (wt_cb wt) \<or>
        \<not> b_trig s (wt_cb wt) \<and> \<not> b_fired s (wt_cb wt) \<and> base \<le> wt_cb wt \<and> wt_cb wt < b_next t \<and> b_owner t (wt_cb wt) = f \<and>
        b_place t (wt_cb wt) = (wt_ch wt, wt_ev wt) \<and> io_event (wt_ev wt) \<and>
        (\<exists>fb. fibers (b_sched s) f = Some fb \<and> \<not> is_closure base (fb_cb fb)) \<and> runs (b_sched s) f"
      proof (cases "f = g")
        case True
        note uc = at_user_code_Some [OF g(1)]
        have "runs (b_sched s) g" using uc(3,4) by (auto simp: runs_def)
        moreover obtain fb where "fibers (b_sched s) g = Some fb"
          using uc(3) fibers_okD(2) [OF ok'(8), of w g] by auto
        ultimately show ?thesis
          using True f ok'(4) g(3) uc(2) by (auto simp: t' closures_ok_def closure_fiber_def)
      next
        case False
        with f have old: "b_wait s f = Some wt" by (simp add: t')
        with waits_okD(2) [OF ok'(3)] have "wt_cb wt \<noteq> ?k" by fastforce
        with old show ?thesis by (simp add: t')
      qed
    next
      fix k assume k: "b_next t \<le> k"
      with places_okD(4) [OF ok'(5) g(2,3), of k] ok'(4) show "\<not> b_lost t k"
        by (auto simp: t' closures_ok_def)
    qed (simp add: t')
  qed
qed

text \<open>
  Unregistering, and closing: the channel drops callbacks. Those of other fibers are lost.
\<close>

lemma blocking_ok_drop:
  assumes ok: "blocking_ok herr base n m s" and t: "same_closures s t"
    and cs: "chans (b_iom t) = (chans (b_iom s))(c \<mapsto> ch')" "next_ch (b_iom t) = next_ch (b_iom s)"
    and c: "chans (b_iom s) c = Some ch"
    and ch: "ch_queue ch' = None \<or> ch_queue ch' = ch_queue ch" "error_cb ch' = None \<or> error_cb ch' = error_cb ch"
      "ch_queue ch' = None \<Longrightarrow> read_cb ch' = None \<and> write_cb ch' = None"
      "\<And>e. io_event e \<Longrightarrow> event_callback e ch' = None \<or>
        event_callback e ch' = event_callback e ch \<and> (\<forall>k. armed_ch k e ch \<longrightarrow> armed_ch k e ch')"
    and fr: "b_next t = b_next s" "b_owner t = b_owner s" "b_place t = b_place s"
    and wt: "\<And>g wt. b_wait t g = Some wt \<Longrightarrow> b_wait s g = Some wt \<and>
      (\<forall>e. io_event e \<longrightarrow> event_callback e ch = Some (wt_cb wt) \<longrightarrow> event_callback e ch' = None \<longrightarrow> b_lost t (wt_cb wt))"
    and lost: "\<And>k. b_lost s k \<Longrightarrow> b_lost t k"
      "\<And>k. b_lost t k \<Longrightarrow> b_lost s k \<or> (\<exists>e. io_event e \<and> event_callback e ch = Some k \<and> event_callback e ch' = None)"
  shows "blocking_ok herr base n m t"
proof (rule blocking_ok_channels [OF ok t])
  note ok' = blocking_okD [OF ok]
  show "channels_kept (chans (b_iom s)) (chans (b_iom t))"
    unfolding cs by (rule channels_kept_one [of "chans (b_iom s)" c ch ch', OF c ch(1)])
  show "places_ok herr base t"
  proof (rule places_ok_one [OF ok'(5) cs _ c])
    fix e k assume "io_event e" "event_callback e ch' = Some k"
    with ch(4) [of e] show "event_callback e ch = Some k \<or>
        b_next s \<le> k \<and> base \<le> k \<and> k < b_next t \<and> \<not> b_lost t k \<and> b_place t k = (c, e)" by auto
  next
    fix k assume "b_lost t k"
    with lost(2) [of k] show "b_lost s k \<or> (\<exists>e. io_event e \<and> event_callback e ch = Some k \<and> event_callback e ch' \<noteq> Some k)"
      by auto
  qed (use places_okD(2) [OF ok'(5) c] ch(2,3) fr in auto)
  show "armed_ok t"
    unfolding armed_ok_def
  proof (intro allI impI)
    fix g wt assume g: "b_wait t g = Some wt" "\<not> b_lost t (wt_cb wt)"
    with wt lost(1) have old: "b_wait s g = Some wt" "\<not> b_lost s (wt_cb wt)" by blast+
    obtain chg where chg: "chans (b_iom s) (wt_ch wt) = Some chg" "armed_ch (wt_cb wt) (wt_ev wt) chg"
      by (rule armed_okD [OF ok'(6) old])
    have ev: "io_event (wt_ev wt)" using ok'(3) old(1) by (auto simp: waits_ok_def)
    show "\<exists>ch. chans (b_iom t) (wt_ch wt) = Some ch \<and> armed_ch (wt_cb wt) (wt_ev wt) ch"
    proof (cases "wt_ch wt = c")
      case True
      with chg c have a: "armed_ch (wt_cb wt) (wt_ev wt) ch" by simp
      from wt [OF g(1)] g(2) ev armed_ch_event [OF a] have "event_callback (wt_ev wt) ch' \<noteq> None" by blast
      with ch(4) [OF ev] a have "armed_ch (wt_cb wt) (wt_ev wt) ch'" by blast
      with True show ?thesis by (simp add: cs)
    qed (use chg in \<open>simp add: cs\<close>)
  qed
  fix k assume "b_next t \<le> k"
  then have k: "b_next s \<le> k" using fr by simp
  show "\<not> b_lost t k"
  proof
    assume "b_lost t k"
    with lost(2) [OF this] ok'(4) k obtain e where "io_event e" "event_callback e ch = Some k"
      by (auto simp: closures_ok_def)
    with places_okD(4) [OF ok'(5) c] k show False by force
  qed
qed (use wt fr in auto)

lemma blocking_ok_unregister:
  assumes ok: "blocking_ok herr base n m s" and t: "b_unregister w b s = Some t"
  shows "blocking_ok herr base n m t"
proof -
  note ok' = blocking_okD [OF ok]
  obtain g wt ch where g: "running_fiber w s = Some g" "b_wait s g = Some wt" "chans (b_iom s) (wt_ch wt) = Some ch" "wt_held wt"
    using t by (auto simp: b_unregister_def split: option.splits if_splits)
  show ?thesis
  proof (cases "unregisterEvent (wt_ch wt) (wt_ev wt) b (iom_of s)")
    case None
    with t g ok show ?thesis by (auto simp: b_unregister_def)
  next
    case (Some i)
    let ?cb = "event_callback (wt_ev wt) ch"
    have t': "t = (lose (if ?cb = Some (wt_cb wt) then None else ?cb) (put_iom i s))\<lparr>b_wait := (b_wait s)(g := None)\<rparr>"
      using t g Some by (simp add: b_unregister_def Let_def)
    have ev: "io_event (wt_ev wt)" using ok'(3) g(2) by (auto simp: waits_ok_def)
    obtain ch' where i: "i = (set_chan (wt_ch wt) ch' (iom_of s))\<lparr>io_pending := pending (b_sched s) - 1\<rparr>" and ch':
      "event_callback (wt_ev wt) ch' = None" "ch_queue ch' = ch_queue ch" "error_cb ch' = error_cb ch"
      "\<And>e'. io_event e' \<Longrightarrow> e' \<noteq> wt_ev wt \<Longrightarrow> event_callback e' ch' = event_callback e' ch"
      "\<And>k' e'. io_event e' \<Longrightarrow> e' \<noteq> wt_ev wt \<Longrightarrow> armed_ch k' e' ch \<Longrightarrow> armed_ch k' e' ch'"
      using unregisterEvent_effect [of "wt_ch wt" "wt_ev wt" b "iom_of s" i ch] Some ev g(3) by auto
    have dropped: "io_event e \<Longrightarrow> event_callback e ch' = None \<or>
        event_callback e ch' = event_callback e ch \<and> (\<forall>k. armed_ch k e ch \<longrightarrow> armed_ch k e ch')" for e
      using ch'(1,4,5) by (cases "e = wt_ev wt") auto
    show ?thesis
    proof (rule blocking_ok_drop [OF ok _ _ _ g(3) _ _ _ dropped])
      show "same_closures s t" by (auto simp: same_closures_def t')
      show "ch_queue ch' = None \<Longrightarrow> read_cb ch' = None \<and> write_cb ch' = None"
      proof -
        assume "ch_queue ch' = None"
        with places_okD(3) [OF ok'(5) g(3)] ch'(2) have "read_cb ch = None \<and> write_cb ch = None" by simp
        then show ?thesis
          using ch'(4) [of 1] ch'(4) [of 4] ch'(1) ev by (auto simp: event_callback_def io_event_def split: if_splits)
      qed
      fix f wtf assume f: "b_wait t f = Some wtf"
      then have old: "b_wait s f = Some wtf" "f \<noteq> g" by (auto simp: t' split: if_splits)
      have "wt_cb wtf \<noteq> wt_cb wt" using ok'(3) old g(2) unfolding waits_ok_def by metis
      moreover have "e = wt_ev wt" if "io_event e" "event_callback e ch = Some (wt_cb wtf)" "event_callback e ch' = None" for e
        using ch'(4) [of e] that by auto
      ultimately show "b_wait s f = Some wtf \<and> (\<forall>e. io_event e \<longrightarrow> event_callback e ch = Some (wt_cb wtf) \<longrightarrow>
          event_callback e ch' = None \<longrightarrow> b_lost t (wt_cb wtf))"
        using old(1) by (auto simp: t')
    next
      fix k assume "b_lost t k"
      then show "b_lost s k \<or> (\<exists>e. io_event e \<and> event_callback e ch = Some k \<and> event_callback e ch' = None)"
        using ch'(1) ev by (auto simp: t' split: if_splits)
    qed (use ch' in \<open>simp_all add: t' i set_chan_def\<close>)
  qed
qed

lemma io_event_ex: "(\<exists>e. io_event e \<and> P e) \<longleftrightarrow> P 0x001 \<or> P 0x004"
  by (auto simp: io_event_def)

lemma hook_close_iom_of:
  "hook_close fd b (iom_of s) =
     (case (if 0 \<le> fd \<and> nat fd < length (ctable (b_iom s)) then ctable (b_iom s) ! nat fd else None) of
        None \<Rightarrow> Some (iom_of s) | Some c \<Rightarrow> io_removeChannel c b (iom_of s))"
  by (cases "0 \<le> fd \<and> nat fd < length (ctable (b_iom s))") (auto simp: hook_close_def)

lemma blocking_ok_close:
  assumes ok: "blocking_ok herr base n m s" and t: "b_close base w fd b s = Some t"
  shows "blocking_ok herr base n m t"
proof (cases "hook_close fd b (iom_of s)")
  case None
  with t ok show ?thesis by (auto simp: b_close_def split: option.splits)
next
  case (Some i)
  note ok' = blocking_okD [OF ok]
  let ?slot = "if 0 \<le> fd \<and> nat fd < length (ctable (b_iom s)) then ctable (b_iom s) ! nat fd else None"
  have same: "blocking_ok herr base n m (put_iom (iom_of s) s)"
    by (rule blocking_ok_channels [OF ok])
      (use ok'(4-6) in \<open>auto simp: channels_kept_def places_ok_def armed_ok_def closures_ok_def\<close>)
  show ?thesis
  proof (cases ?slot)
    case None
    then have "i = iom_of s" using Some by (simp add: hook_close_iom_of)
    with None t Some same show ?thesis by (auto simp: b_close_def split: option.splits simp del: if_split_asm)
  next
    case (Some c)
    with t \<open>hook_close fd b (iom_of s) = Some i\<close> obtain ch where ch: "chans (b_iom s) c = Some ch"
      and t': "t = lose (read_cb ch) (lose (write_cb ch) (put_iom i s))"
      by (auto simp: b_close_def split: option.splits simp del: if_split_asm)
    have "io_removeChannel c b (iom_of s) = Some i"
      using \<open>hook_close fd b (iom_of s) = Some i\<close> Some by (simp add: hook_close_iom_of)
    from io_removeChannel_effect [OF this, of ch] ch
    consider (closed) "ch_queue ch = None" "i = iom_of s"
      | (removed) ch' tab where "i = (set_chan c ch' (iom_of s))\<lparr>ctable := tab\<rparr>" "read_cb ch' = None" "write_cb ch' = None"
        "error_cb ch' = None" "ch_queue ch' = None \<or> ch_queue ch' = ch_queue ch"
      by auto
    then show ?thesis
    proof cases
      case closed
      with places_okD(3) [OF ok'(5) ch] t' same show ?thesis by (simp add: lose_def)
    next
      case (removed ch' tab)
      have none: "event_callback e ch' = None" if "io_event e" for e
        using removed(2,3) that by (auto simp: event_callback_def io_event_def)
      have slots: "(read_cb ch = Some k \<or> write_cb ch = Some k) = (\<exists>e. io_event e \<and> event_callback e ch = Some k)" for k
        unfolding io_event_ex by (auto simp: event_callback_def)
      show ?thesis
      proof (rule blocking_ok_drop [OF ok _ _ _ ch])
        show "same_closures s t" by (auto simp: same_closures_def t' removed(1))
        fix f wt assume "b_wait t f = Some wt"
        then show "b_wait s f = Some wt \<and> (\<forall>e. io_event e \<longrightarrow> event_callback e ch = Some (wt_cb wt) \<longrightarrow>
            event_callback e ch' = None \<longrightarrow> b_lost t (wt_cb wt))"
          using slots [of "wt_cb wt"] by (auto simp: t')
      next
        fix k assume "b_lost t k"
        with slots [of k] none show "b_lost s k \<or> (\<exists>e. io_event e \<and> event_callback e ch = Some k \<and> event_callback e ch' = None)"
          by (auto simp: t')
      qed (use none removed in \<open>auto simp: t' set_chan_def\<close>)
    qed
  qed
qed

section \<open>Steps of the dispatch, of the closure and of \<^verbatim>\<open>hold\<close>\<close>

text \<open>A step that moves the wake-up of closures on, in a scheduler that has only got more tasks.\<close>

definition more_tasks :: "sched \<Rightarrow> sched \<Rightarrow> bool" where
  "more_tasks ss tt \<longleftrightarrow> fibers tt = fibers ss \<and> pcs tt = pcs ss \<and> n_threads tt = n_threads ss \<and>
     retired tt = retired ss \<and> born ss \<subseteq># born tt"

lemma more_tasks_push [simp]: "more_tasks ss (add_born x (push_back i x ss))"
  by (simp add: more_tasks_def machine_simps)

lemma more_tasks_refl [simp]: "more_tasks ss ss"
  by (simp add: more_tasks_def)

lemma more_tasks_keeps:
  assumes "more_tasks ss tt"
  shows "woken g ss \<Longrightarrow> woken g tt" "runs tt g = runs ss g" "task_left ss k \<Longrightarrow> task_left tt k"
proof -
  have b: "count (born ss) u \<le> count (born tt) u" for u
    using assms by (simp add: more_tasks_def mset_subset_eq_count)
  show "woken g ss \<Longrightarrow> woken g tt"
    using assms b by (elim wokenI) (auto simp: more_tasks_def free_tasks_def)
  show "runs tt g = runs ss g" using assms by (simp add: more_tasks_def runs_def)
  show "task_left ss k \<Longrightarrow> task_left tt k"
    using assms b [of "task_of_callback k"] by (auto simp: more_tasks_def task_left_def)
qed

text \<open>The parts of the invariant that such a step leaves alone.\<close>

lemma blocking_ok_progress:
  assumes ok: "blocking_ok herr base n m s" and s: "sched_ok True n m (b_sched t)" "more_tasks (b_sched s) (b_sched t)"
    and same: "b_iom t = b_iom s" "b_wait t = b_wait s" "b_next t = b_next s" "b_owner t = b_owner s"
      "b_place t = b_place s" "b_lost t = b_lost s"
    and k: "\<And>k. b_next s \<le> k \<Longrightarrow> \<not> b_trig t k \<and> \<not> b_fired t k \<and> task_of_callback k \<notin># born (b_sched t) \<and>
      (\<forall>w c. b_copy t w \<noteq> Some (c, k))"
    and st: "\<And>f. fibers (b_sched s) f = None \<Longrightarrow> b_stage t f = ClFresh"
    and ch: "chains_ok t" "copies_ok t"
  shows "blocking_ok herr base n m t"
proof -
  note ok' = blocking_okD [OF ok]
  have fr: "fibers (b_sched t) = fibers (b_sched s)" "runs (b_sched t) g = runs (b_sched s) g" for g
    using s(2) more_tasks_keeps(2) [OF s(2)] by (simp_all add: more_tasks_def)
  have "waits_ok base t" using ok'(3) by (simp add: waits_ok_def same fr)
  moreover have "closures_ok base t" using ok'(4) k st by (auto simp: closures_ok_def same fr)
  moreover have "places_ok herr base t" "armed_ok t"
    using ok'(5,6) by (simp_all add: places_ok_def armed_ok_def same)
  ultimately show ?thesis using s(1) ch by (simp add: blocking_ok_def)
qed

lemma closures_okD:
  assumes "closures_ok base s" "b_next s \<le> k"
  shows "\<not> b_trig s k" "\<not> b_fired s k" "task_of_callback k \<notin># born (b_sched s)" "b_copy s w \<noteq> Some (c, k)"
  using assms unfolding closures_ok_def by blast+

lemma copies_okD:
  assumes "copies_ok s" "b_copy s w = Some (c, k)"
  shows "w < n_threads (b_sched s)" "\<exists>evs. pcs (b_sched s) w = IdleEvents evs"
    "\<exists>ch. chans (b_iom s) c = Some ch \<and> (ch_queue ch = None \<or> ch_queue ch = Some w)"
  using assms unfolding copies_ok_def by blast+

lemma closure_runs:
  assumes "running_fiber w s = Some f"
  shows "\<exists>u. pcs (b_sched s) w = RunBody u f" "w < n_threads (b_sched s)"
  using assms by (auto simp: running_fiber_def split: wpc.splits if_splits)

lemma hold_steady:
  assumes ok: "blocking_ok herr base n m s" and g: "running_fiber w s = Some g" "b_wait s g = Some wt" "\<not> wt_held wt"
  shows "steady base (Worker w UserHold) s"
proof -
  note ok' = blocking_okD [OF ok]
  obtain u where pc: "pcs (b_sched s) w = RunBody u g" using closure_runs(1) [OF g(1)] by blast
  have "\<not> closure_fiber base s g"
    using waits_okD(6) [OF ok'(3) g(2)] by (auto simp: closure_fiber_def)
  moreover have "b_copy s w = None" using copies_okD(2) [OF ok'(7), of w] pc by (cases "b_copy s w") auto
  ultimately show ?thesis using pc g(2,3) by (auto simp: steady_def leaves_def brings_def)
qed

lemma blocking_ok_hold:
  assumes ok: "blocking_ok herr base n m s" and t: "b_hold w s = Some t"
  shows "blocking_ok herr base n m t"
proof -
  note ok' = blocking_okD [OF ok]
  obtain g wt ss where g: "running_fiber w s = Some g" "b_wait s g = Some wt" "\<not> wt_held wt"
      "sched_step (b_sched s) (Worker w UserHold) = Some ss"
    and t': "t = s\<lparr>b_sched := ss, b_wait := (b_wait s)(g \<mapsto> wt\<lparr>wt_held := True\<rparr>)\<rparr>"
    using t by (auto simp: b_hold_def simp del: sched_step.simps split: option.splits if_splits)
  obtain u where pc: "pcs (b_sched s) w = RunBody u g" using closure_runs(1) [OF g(1)] by blast
  note st = hold_steady [OF ok g(1-3)]
  note step = ok st g(4)
  let ?s = "s\<lparr>b_sched := ss\<rparr>"
  have "chains_ok t"
    unfolding chains_ok_def
  proof (intro allI impI)
    fix f wtf assume "b_wait t f = Some wtf"
    then obtain wt0 where w0: "b_wait s f = Some wt0" "wt_cb wtf = wt_cb wt0" "wt_held wt0 \<Longrightarrow> wt_held wtf"
      using g(2) by (auto simp: t' split: if_splits)
    have "claimed ?s f wt0 \<Longrightarrow> claimed t f wtf" "under_way ?s f wt0 \<Longrightarrow> under_way t f wtf"
      using w0(2,3) by (auto simp: claimed_def under_way_def at_stage_def t')
    with ok'(2) w0(1,2) claimed_sched [OF step w0(1)] under_way_sched [OF step w0(1)]
    show "(b_fired t (wt_cb wtf) \<longrightarrow> under_way t f wtf) \<and> (b_trig t (wt_cb wtf) \<longrightarrow> claimed t f wtf)"
      unfolding chains_ok_def by (simp add: t')
  qed
  moreover have "waits_ok base t"
    unfolding waits_ok_def
  proof (intro allI impI)
    fix f wtf assume f: "b_wait t f = Some wtf"
    then obtain wt0 where w0: "b_wait s f = Some wt0" "wt_cb wtf = wt_cb wt0" "wt_ch wtf = wt_ch wt0" "wt_ev wtf = wt_ev wt0"
      "wt_held wtf \<or> f \<noteq> g \<and> wt0 = wtf"
      using g(2) by (auto simp: t' split: if_splits)
    note old = waits_okD [OF ok'(3) w0(1)]
    have "\<not> holding f (b_sched s) (Worker w UserHold) \<or> f = g" using pc by (auto simp: holding_def)
    with waits_ok_sched [OF step w0(1)] w0(5)
    have "(\<exists>fb. fibers ss f = Some fb \<and> \<not> is_closure base (fb_cb fb)) \<and> (wt_held wtf \<or> runs ss f)" by auto
    with old(1-5) w0(2-4) show "base \<le> wt_cb wtf \<and> wt_cb wtf < b_next t \<and> b_owner t (wt_cb wtf) = f \<and>
        b_place t (wt_cb wtf) = (wt_ch wtf, wt_ev wtf) \<and> io_event (wt_ev wtf) \<and>
        (\<exists>fb. fibers (b_sched t) f = Some fb \<and> \<not> is_closure base (fb_cb fb)) \<and>
        (wt_held wtf \<or> runs (b_sched t) f)"
      by (simp add: t')
  qed
  moreover have "closures_ok base t" "copies_ok t"
    using closures_ok_sched [OF step] copies_ok_sched [OF step] by (simp_all add: closures_ok_def copies_ok_def t')
  moreover have "places_ok herr base t" using ok'(5) by (simp add: places_ok_def t')
  moreover have "armed_ok t"
    using ok'(6) g(2) unfolding armed_ok_def t' by simp
  ultimately show ?thesis using sched_ok_step [OF ok'(1) g(4)] by (simp add: blocking_ok_def t')
qed

lemma blocking_ok_trigger:
  assumes ok: "blocking_ok herr base n m s" and h: "herr < base" and t: "b_trigger w c e s = Some t"
  shows "blocking_ok herr base n m t"
proof -
  note ok' = blocking_okD [OF ok]
  obtain evs ch k where e: "pcs (b_sched s) w = IdleEvents evs" "chans (b_iom s) c = Some ch" "w < n_threads (b_sched s)"
      "ch_queue ch = Some w" "event_callback e ch = Some k" "b_copy s w = None"
    and t': "t = s\<lparr>b_copy := (b_copy s)(w \<mapsto> (c, k)), b_fired := (b_fired s)(k := True)\<rparr>"
    using t by (auto simp: b_trigger_def split: wpc.splits option.splits if_splits)
  have k: "k < b_next s"
  proof (cases "io_event e")
    case True
    with places_okD(4) [OF ok'(5) e(2)] e(5) show ?thesis by blast
  next
    case False
    with e(5) have "error_cb ch = Some k" by (auto simp: event_callback_def io_event_def split: if_splits)
    with places_okD(2) [OF ok'(5) e(2)] h ok'(4) show ?thesis by (auto simp: closures_ok_def)
  qed
  show ?thesis
  proof (rule blocking_ok_progress [OF ok])
    show "chains_ok t"
      unfolding chains_ok_def
    proof (intro allI impI)
      fix g wt assume "b_wait t g = Some wt"
      then have w: "b_wait s g = Some wt" by (simp add: t')
      have cl: "claimed t g wt = claimed s g wt" by (simp add: claimed_def at_stage_def t')
      have "under_way t g wt" if "under_way s g wt \<or> wt_cb wt = k"
      proof -
        have "\<exists>v d. b_copy t v = Some (d, wt_cb wt)" if "b_copy s v = Some (d, wt_cb wt)" for v d
          using that e(6) by (intro exI [of _ v] exI [of _ d]) (auto simp: t')
        moreover have "\<exists>v d. b_copy t v = Some (d, wt_cb wt)" if "wt_cb wt = k"
          using that by (intro exI [of _ w] exI [of _ c]) (simp add: t')
        moreover have "at_stage t k' x f = at_stage s k' x f" "b_sched t = b_sched s" for k' x f
          by (simp_all add: at_stage_def t')
        ultimately show ?thesis using that cl unfolding under_way_def by metis
      qed
      with ok'(2) w cl show "(b_fired t (wt_cb wt) \<longrightarrow> under_way t g wt) \<and> (b_trig t (wt_cb wt) \<longrightarrow> claimed t g wt)"
        unfolding chains_ok_def by (auto simp: t')
    qed
    show "copies_ok t"
      using ok'(7) e unfolding copies_ok_def by (simp add: t')
  qed (use closures_okD [OF ok'(4)] k ok'(1,4) in \<open>auto simp: t' closures_ok_def\<close>)
qed

lemma blocking_ok_deliver:
  assumes ok: "blocking_ok herr base n m s" and t: "b_deliver w s = Some t"
  shows "blocking_ok herr base n m t"
proof -
  note ok' = blocking_okD [OF ok]
  obtain c k where c: "b_copy s w = Some (c, k)" using t by (auto simp: b_deliver_def split: option.splits)
  note cp = copies_okD [OF ok'(7) c]
  then obtain ch evs where ch: "chans (b_iom s) c = Some ch" "ch_queue ch = None \<or> ch_queue ch = Some w"
    "pcs (b_sched s) w = IdleEvents evs" by blast
  show ?thesis
  proof (cases "ch_queue ch")
    case None
    with t c ch ok show ?thesis by (auto simp: b_deliver_def)
  next
    case (Some q)
    let ?k = "task_of_callback k"
    let ?ss = "add_born ?k (push_back w ?k (b_sched s))"
    have t': "t = s\<lparr>b_copy := (b_copy s)(w := None), b_sched := ?ss\<rparr>"
      using t c ch Some by (auto simp: b_deliver_def)
    have left: "task_left ?ss k"
    proof -
      have "books (b_sched s)" using ok'(1) by (simp add: sched_ok_def)
      from retired_le_born [OF this, of ?k] show ?thesis by (simp add: task_left_def machine_simps)
    qed
    note more = more_tasks_keeps [OF more_tasks_push [of "b_sched s" ?k w]]
    show ?thesis
    proof (rule blocking_ok_progress [OF ok])
      show "sched_ok True n m (b_sched t)"
        using sched_ok_push [OF ok'(1) _ ch(3)] cp(1) ok'(9) by (simp add: t')
      show "chains_ok t"
        unfolding chains_ok_def
      proof (intro allI impI)
        fix g wt assume "b_wait t g = Some wt"
        then have w: "b_wait s g = Some wt" by (simp add: t')
        have st: "at_stage t k' x f = at_stage s k' x f" for k' x f by (simp add: at_stage_def t' machine_simps)
        have cl: "claimed s g wt \<Longrightarrow> claimed t g wt"
          using more(1,2) by (auto simp: claimed_def st) (auto simp: t')
        have "under_way t g wt" if "under_way s g wt"
        proof (cases "wt_cb wt = k")
          case True
          with left show ?thesis by (simp add: under_way_def t')
        next
          case False
          have "b_copy t v = Some (d, wt_cb wt)" if "b_copy s v = Some (d, wt_cb wt)" for v d
            using that False c by (auto simp: t')
          moreover have "task_left (b_sched s) (wt_cb wt) \<Longrightarrow> task_left (b_sched t) (wt_cb wt)"
            using more(3) by (simp add: t')
          ultimately show ?thesis using that cl unfolding under_way_def st by blast
        qed
        with ok'(2) w cl show "(b_fired t (wt_cb wt) \<longrightarrow> under_way t g wt) \<and> (b_trig t (wt_cb wt) \<longrightarrow> claimed t g wt)"
          unfolding chains_ok_def by (auto simp: t')
      qed
      show "copies_ok t"
        using ok'(7) unfolding copies_ok_def by (simp add: t' machine_simps)
      fix k' assume k': "b_next s \<le> k'"
      with closures_okD(4) [OF ok'(4), of k' w c] c have "k' \<noteq> k" by auto
      then have "task_of_callback k' \<noteq> ?k" by (simp add: task_of_callback_def)
      with closures_okD [OF ok'(4) k'] show "\<not> b_trig t k' \<and> \<not> b_fired t k' \<and>
          task_of_callback k' \<notin># born (b_sched t) \<and> (\<forall>w c. b_copy t w \<noteq> Some (c, k'))"
        by (simp add: t' machine_simps)
    qed (use ok'(4) in \<open>simp_all add: t' closures_ok_def\<close>)
  qed
qed

text \<open>The code of a closure.\<close>

lemma chains_stage:
  assumes ok: "chains_ok s" and f: "b_stage t = (b_stage s)(f := st)" "st \<noteq> ClFresh" "at_stage s k st0 f"
    and t: "b_wait t = b_wait s" "b_fired t = b_fired s" "b_copy t = b_copy s" "more_tasks (b_sched s) (b_sched t)"
      "\<And>k'. k' \<noteq> k \<Longrightarrow> b_trig t k' = b_trig s k'"
    and k: "\<And>g wt. b_wait s g = Some wt \<Longrightarrow> wt_cb wt = k \<Longrightarrow> b_fired s k \<or> b_trig t k \<Longrightarrow> claimed t g wt"
  shows "chains_ok t"
  unfolding chains_ok_def
proof (intro allI impI)
  fix g wt assume "b_wait t g = Some wt"
  then have w: "b_wait s g = Some wt" by (simp add: t)
  note more = more_tasks_keeps [OF t(4)]
  show "(b_fired t (wt_cb wt) \<longrightarrow> under_way t g wt) \<and> (b_trig t (wt_cb wt) \<longrightarrow> claimed t g wt)"
  proof (cases "wt_cb wt = k")
    case True
    with k [OF w] t(2) show ?thesis by (auto simp: under_way_def)
  next
    case False
    have st: "at_stage t (wt_cb wt) x h" if "at_stage s (wt_cb wt) x h" for x h
    proof -
      have "h \<noteq> f" using that f(3) False by (auto simp: at_stage_def)
      with that t(4) f(1) show ?thesis by (auto simp: at_stage_def more_tasks_def)
    qed
    have "claimed s g wt \<Longrightarrow> claimed t g wt"
      using st more(1,2) unfolding claimed_def by blast
    moreover have "under_way s g wt \<Longrightarrow> under_way t g wt"
      using calculation st more(3) t(3) unfolding under_way_def by metis
    ultimately show ?thesis using ok w t(2,5) False unfolding chains_ok_def by auto
  qed
qed

lemma blocking_ok_exchange:
  assumes ok: "blocking_ok herr base n m s" and t: "b_exchange base w s = Some t"
  shows "blocking_ok herr base n m t"
proof -
  note ok' = blocking_okD [OF ok]
  obtain f fb k where f: "fibers (b_sched s) f = Some fb" "fb_cb fb = Some k" "base \<le> k" "b_stage s f = ClFresh"
    and t': "t = (if b_trig s k then s\<lparr>b_stage := (b_stage s)(f := ClFinished)\<rparr>
      else s\<lparr>b_trig := (b_trig s)(k := True), b_stage := (b_stage s)(f := ClClaimed)\<rparr>)"
    using t by (auto simp: b_exchange_def split: option.splits if_splits)
  have k: "k < b_next s" using ok'(4) f unfolding closures_ok_def by blast
  have f0: "at_stage s k ClFresh f" using f by (auto simp: at_stage_def)
  have cl: "claimed t g wt" if w: "b_wait s g = Some wt" "wt_cb wt = k" for g wt
  proof (cases "b_trig s k")
    case True
    with ok'(2) w have "claimed s g wt" unfolding chains_ok_def by blast
    moreover have "at_stage t k ClClaimed h" if "at_stage s k ClClaimed h" for h
      using that f(4) True by (auto simp: at_stage_def t')
    ultimately show ?thesis using True w(2) unfolding claimed_def by (auto simp: t')
  next
    case False
    then have "at_stage t k ClClaimed f" using f by (simp add: at_stage_def t')
    with w(2) show ?thesis unfolding claimed_def by blast
  qed
  show ?thesis
  proof (rule blocking_ok_progress [OF ok])
    show "chains_ok t"
      by (rule chains_stage [OF ok'(2) _ _ f0, where st = "if b_trig s k then ClFinished else ClClaimed"])
        (use cl in \<open>auto simp: t'\<close>)
    show "copies_ok t" using ok'(7) by (simp add: copies_ok_def t')
  qed (use closures_okD [OF ok'(4)] ok'(1,4) k [folded not_le] f in \<open>auto simp: t' closures_ok_def\<close>)
qed

lemma wake_effect:
  assumes ok: "blocking_ok herr base n m s" and t: "b_wake base w alive s = Some t"
  obtains f fb k ss where "fibers (b_sched s) f = Some fb" "fb_cb fb = Some k" "base \<le> k" "b_stage s f = ClClaimed"
    "t = s\<lparr>b_stage := (b_stage s)(f := ClFinished), b_sched := ss\<rparr>" "sched_ok True n m ss" "more_tasks (b_sched s) ss"
    "woken (b_owner s k) ss" "\<forall>k. task_of_callback k \<in># born ss \<longrightarrow> task_of_callback k \<in># born (b_sched s)"
proof -
  note ok' = blocking_okD [OF ok]
  obtain f fb k where f: "running_fiber w s = Some f" "fibers (b_sched s) f = Some fb" "fb_cb fb = Some k" "base \<le> k"
      "b_stage s f = ClClaimed"
    and tt: "if alive then b_on_sched (Worker w (UserWake (b_owner s k))) (s\<lparr>b_stage := (b_stage s)(f := ClFinished)\<rparr>) = Some t
      else t = s\<lparr>b_stage := (b_stage s)(f := ClFinished)\<rparr> \<and>
        (\<exists>fbg. fibers (b_sched s) (b_owner s k) = Some fbg \<and> fb_state fbg = kTerm)"
    using t by (auto simp: b_wake_def Let_def split: option.splits if_splits)
  let ?g = "b_owner s k"
  obtain u where pc: "pcs (b_sched s) w = RunBody u f" "w < n_threads (b_sched s)" using closure_runs [OF f(1)] by blast
  have "\<exists>ss. t = s\<lparr>b_stage := (b_stage s)(f := ClFinished), b_sched := ss\<rparr> \<and> sched_ok True n m ss \<and>
    more_tasks (b_sched s) ss \<and> woken ?g ss \<and>
    (\<forall>k. task_of_callback k \<in># born ss \<longrightarrow> task_of_callback k \<in># born (b_sched s))"
  proof (cases alive)
    case True
    with tt obtain ss where ss: "sched_step (b_sched s) (Worker w (UserWake ?g)) = Some ss"
      "t = s\<lparr>b_stage := (b_stage s)(f := ClFinished), b_sched := ss\<rparr>"
      by (auto simp: b_on_sched_def simp del: sched_step.simps)
    then have run: "run_wake_fiber w ?g (b_sched s) = Some ss"
      using pc by (auto simp: run_worker_def user_step_def split: if_splits)
    then have "ss = add_born (task_of_fiber ?g) (push_back w (task_of_fiber ?g) (b_sched s))"
      by (simp add: run_wake_fiber_def split: if_splits)
    then have "more_tasks (b_sched s) ss"
      "\<And>k. task_of_callback k \<in># born ss \<Longrightarrow> task_of_callback k \<in># born (b_sched s)"
      by (auto simp: machine_simps task_of_callback_def task_of_fiber_def more_tasks_def)
    moreover have "books (b_sched s)" using ok'(1) by (simp add: sched_ok_def)
    ultimately show ?thesis
      using ss(2) sched_ok_step [OF ok'(1) ss(1)] wake_makes_woken [OF run] by blast
  next
    case False
    with tt have "woken ?g (b_sched s)" "t = s\<lparr>b_stage := (b_stage s)(f := ClFinished), b_sched := b_sched s\<rparr>"
      by (auto simp: woken_def)
    with ok'(1) show ?thesis by (intro exI [of _ "b_sched s"]) simp
  qed
  with that f(2-5) show thesis by blast
qed

lemma blocking_ok_wake:
  assumes ok: "blocking_ok herr base n m s" and t: "b_wake base w alive s = Some t"
  shows "blocking_ok herr base n m t"
proof -
  note ok' = blocking_okD [OF ok]
  obtain f fb k ss where f: "fibers (b_sched s) f = Some fb" "fb_cb fb = Some k" "base \<le> k" "b_stage s f = ClClaimed"
    and t': "t = s\<lparr>b_stage := (b_stage s)(f := ClFinished), b_sched := ss\<rparr>" and sok: "sched_ok True n m ss"
    and more: "more_tasks (b_sched s) ss" and wk: "woken (b_owner s k) ss"
    and born: "\<forall>k. task_of_callback k \<in># born ss \<longrightarrow> task_of_callback k \<in># born (b_sched s)"
    by (rule wake_effect [OF ok t])
  have k: "k < b_next s" using ok'(4) f unfolding closures_ok_def by blast
  have f0: "at_stage s k ClClaimed f" using f by (auto simp: at_stage_def)
  show ?thesis
  proof (rule blocking_ok_progress [OF ok])
    show "chains_ok t"
    proof (rule chains_stage [OF ok'(2) _ _ f0, where st = ClFinished])
      fix g wt assume "b_wait s g = Some wt" "wt_cb wt = k"
      with waits_okD(3) [OF ok'(3)] have "g = b_owner s k" by auto
      with wk show "claimed t g wt" by (simp add: claimed_def t')
    qed (use more in \<open>simp_all add: t'\<close>)
    show "copies_ok t" using ok'(7) more by (simp add: copies_ok_def more_tasks_def t')
    fix k assume "b_next s \<le> k"
    from closures_okD [OF ok'(4) this] born
    show "\<not> b_trig t k \<and> \<not> b_fired t k \<and> task_of_callback k \<notin># born (b_sched t) \<and> (\<forall>w c. b_copy t w \<noteq> Some (c, k))"
      by (auto simp: t')
  qed (use ok'(4) sok more f in \<open>auto simp: t' closures_ok_def\<close>)
qed

lemma blocking_ok_step:
  assumes ok: "blocking_ok herr base n m s" and h: "herr < base" and step: "b_step herr base s a = Some t"
  shows "blocking_ok herr base n m t"
proof (cases a)
  case (BSched x)
  with step obtain ss where "ordinary base x s" "sched_step (b_sched s) x = Some ss" "t = s\<lparr>b_sched := ss\<rparr>"
    by (auto simp: b_step_def b_on_sched_def simp del: sched_step.simps split: if_splits)
  with blocking_ok_sched [OF ok] ordinary_steady [OF ok] show ?thesis by blast
qed (use step h blocking_ok_bind [OF ok] blocking_ok_register [OF ok] blocking_ok_hold [OF ok] blocking_ok_unregister [OF ok]
    blocking_ok_close [OF ok] blocking_ok_trigger [OF ok h] blocking_ok_deliver [OF ok] blocking_ok_exchange [OF ok]
    blocking_ok_wake [OF ok] in \<open>auto simp: b_step_def split: if_splits\<close>)

section \<open>What has not fired has left no trace\<close>

text \<open>A closure is known outside of its channel only after its event was dispatched.\<close>

definition known_closure :: "blocking \<Rightarrow> callback \<Rightarrow> bool" where
  "known_closure s k \<longleftrightarrow> b_trig s k \<or> (\<exists>w c. b_copy s w = Some (c, k)) \<or> task_of_callback k \<in># born (b_sched s) \<or>
     (\<exists>f fb. fibers (b_sched s) f = Some fb \<and> fb_cb fb = Some k)"

definition fired_first :: "callback \<Rightarrow> blocking \<Rightarrow> bool" where
  "fired_first base s \<longleftrightarrow> (\<forall>k. base \<le> k \<longrightarrow> known_closure s k \<longrightarrow> b_fired s k)"

lemma step_known:
  assumes ok: "blocking_ok herr base n m s" and st: "steady base a s" "sched_step (b_sched s) a = Some ss"
    and k: "base \<le> k" "known_closure (s\<lparr>b_sched := ss\<rparr>) k"
  shows "known_closure s k"
proof -
  note ok' = blocking_okD [OF ok]
  from k(2) consider (old) "b_trig s k \<or> (\<exists>w c. b_copy s w = Some (c, k))" | (born) "task_of_callback k \<in># born ss"
    | (fiber) f fb where "fibers ss f = Some fb" "fb_cb fb = Some k"
    unfolding known_closure_def by auto
  then show ?thesis
  proof cases
    case born
    from step_born [OF st(2) born steadyD(3) [OF st(1) k(1)]] show ?thesis by (simp add: known_closure_def)
  next
    case fiber
    show ?thesis
    proof (cases "fibers (b_sched s) f")
      case None
      from new_fiber_born(2) [OF ok st None fiber k(1)] show ?thesis by (simp add: known_closure_def)
    next
      case (Some fb0)
      have "fb_cb fb0 = Some k"
      proof (cases "leaves f (b_sched s) a")
        case True
        from step_leaves [OF st(2) True ok'(8)] Some fiber show ?thesis by auto
      next
        case False
        from step_fiber [OF st(2) Some False ok'(8)] fiber show ?thesis by (auto simp: same_work_def)
      qed
      with Some show ?thesis unfolding known_closure_def by blast
    qed
  qed (auto simp: known_closure_def)
qed

lemma channel_step:
  assumes "b_act herr base s a = Some t"
    and "(\<exists>w fd. a = BBind w fd) \<or> (\<exists>w c e. a = BRegister w c e) \<or> (\<exists>w b. a = BUnregister w b) \<or> (\<exists>w fd b. a = BClose w fd b)"
  shows "b_trig t = b_trig s" "b_copy t = b_copy s" "b_fired t = b_fired s" "b_lost s k \<Longrightarrow> b_lost t k"
    "born (b_sched t) = born (b_sched s)" "fibers (b_sched t) = fibers (b_sched s)"
  using assms
  by (auto simp: b_bind_def b_register_def b_unregister_def b_close_def Let_def fails_def
      split: option.splits if_splits simp del: if_split_asm)

text \<open>No step but \<^verbatim>\<open>triggerEvent\<close> makes a closure known, and it needs the callback on the channel.\<close>

lemma b_step_known:
  assumes ok: "blocking_ok herr base n m s" and h: "herr < base" and step: "b_step herr base s a = Some t"
    and ff: "fired_first base s" and k: "base \<le> k"
  shows "(known_closure t k \<longrightarrow> b_fired t k) \<and> (b_lost s k \<longrightarrow> b_lost t k \<and> b_fired t k = b_fired s k)"
proof -
  note ok' = blocking_okD [OF ok]
  have act: "b_act herr base s a = Some t" using step by (simp add: b_step_def split: if_splits)
  have old: "known_closure s k \<Longrightarrow> b_fired s k" using ff k by (simp add: fired_first_def)
  show ?thesis
  proof (cases a)
    case (BSched x)
    with act obtain ss where ss: "ordinary base x s" "sched_step (b_sched s) x = Some ss" "t = s\<lparr>b_sched := ss\<rparr>"
      by (auto simp: b_on_sched_def simp del: sched_step.simps split: if_splits)
    from step_known [OF ok ordinary_steady(1) [OF ok ss(1)] ss(2) k] old ss(3) show ?thesis by auto
  next
    case (BTrigger w c e)
    with act obtain ch k' where c: "chans (b_iom s) c = Some ch" "event_callback e ch = Some k'"
      and t: "t = s\<lparr>b_copy := (b_copy s)(w \<mapsto> (c, k')), b_fired := (b_fired s)(k' := True)\<rparr>"
      by (auto simp: b_trigger_def split: wpc.splits option.splits if_splits)
    have "\<not> b_lost s k" if "k' = k"
    proof (cases "io_event e")
      case True
      with places_okD(4) [OF ok'(5) c(1)] c(2) that show ?thesis by blast
    next
      case False
      with c(2) have "error_cb ch = Some k'" by (auto simp: event_callback_def io_event_def split: if_splits)
      with places_okD(2) [OF ok'(5) c(1)] h k that show ?thesis by auto
    qed
    then show ?thesis using old by (auto simp: t known_closure_def)
  next
    case (BDeliver w)
    with act obtain c k' where c: "b_copy s w = Some (c, k')" by (auto simp: b_deliver_def split: option.splits)
    have "known_closure t k \<Longrightarrow> known_closure s k" "b_lost t = b_lost s" "b_fired t = b_fired s"
      using act c BDeliver
      by (auto simp: b_deliver_def known_closure_def fails_def machine_simps task_of_callback_def split: option.splits if_splits)
    with old show ?thesis by auto
  next
    case (BHold w)
    with act obtain g wt ss where g: "running_fiber w s = Some g" "b_wait s g = Some wt" "\<not> wt_held wt"
      "sched_step (b_sched s) (Worker w UserHold) = Some ss" "t = s\<lparr>b_sched := ss, b_wait := (b_wait s)(g \<mapsto> wt\<lparr>wt_held := True\<rparr>)\<rparr>"
      by (auto simp: b_hold_def simp del: sched_step.simps split: option.splits if_splits)
    have "known_closure t k = known_closure (s\<lparr>b_sched := ss\<rparr>) k" by (simp add: known_closure_def g(5))
    with step_known [OF ok hold_steady [OF ok g(1-3)] g(4) k] old g(5) show ?thesis by auto
  next
    case (BWake w alive)
    with act have "b_wake base w alive s = Some t" by simp
    from wake_effect [OF ok this] obtain f ss where "t = s\<lparr>b_stage := (b_stage s)(f := ClFinished), b_sched := ss\<rparr>"
      "more_tasks (b_sched s) ss" "\<forall>k. task_of_callback k \<in># born ss \<longrightarrow> task_of_callback k \<in># born (b_sched s)"
      by metis
    with old show ?thesis by (auto simp: known_closure_def more_tasks_def)
  next
    case (BExchange w)
    with act have "known_closure t k \<Longrightarrow> known_closure s k" "b_lost t = b_lost s" "b_fired t = b_fired s"
      by (auto simp: b_exchange_def known_closure_def split: option.splits if_splits)
    with old show ?thesis by auto
  qed (use act channel_step [of herr base s a t] old in \<open>auto simp: known_closure_def\<close>)
qed

definition linked :: "callback \<Rightarrow> callback \<Rightarrow> nat \<Rightarrow> nat \<Rightarrow> blocking \<Rightarrow> bool" where
  "linked herr base n m s \<longleftrightarrow> herr < base \<and> blocking_ok herr base n m s \<and> fired_first base s"

lemma linked_step:
  assumes "linked herr base n m s" "b_step herr base s a = Some t"
  shows "linked herr base n m t"
  using assms blocking_ok_step [of herr base n m s a t] b_step_known [of herr base n m s a t]
  by (auto simp: linked_def fired_first_def)

interpretation waiting: machine "b_step herr base" "linked herr base n m" for herr base n m
  by unfold_locales (rule linked_step)

lemma linked_init: "0 < n \<Longrightarrow> herr < base \<Longrightarrow> linked herr base n m (init_blocking base n m)"
  using blocking_ok_init [of n herr base m]
  by (simp add: linked_def fired_first_def known_closure_def init_blocking_def init_sched_def)

lemma linked_run:
  "0 < n \<Longrightarrow> herr < base \<Longrightarrow> exec_all (b_step herr base) (init_blocking base n m) acts = Some s \<Longrightarrow> linked herr base n m s"
  by (rule waiting.run_good [OF linked_init])

text \<open>A closure that its channel has dropped stays as it is.\<close>

definition dropped :: "callback \<Rightarrow> callback \<Rightarrow> nat \<Rightarrow> nat \<Rightarrow> callback \<Rightarrow> blocking \<Rightarrow> bool" where
  "dropped herr base n m k s \<longleftrightarrow> linked herr base n m s \<and> base \<le> k \<and> b_lost s k \<and> \<not> b_fired s k"

interpretation stranded: machine "b_step herr base" "dropped herr base n m k" for herr base n m k
proof unfold_locales
  fix s a t
  assume s: "dropped herr base n m k s" "b_step herr base s a = Some t"
  then have "linked herr base n m s" "base \<le> k" by (simp_all add: dropped_def)
  with b_step_known [of herr base n m s a t k] linked_step [of herr base n m s a t] s
  show "dropped herr base n m k t" by (auto simp: dropped_def linked_def)
qed

text \<open>As long as no descriptor is closed, every channel has a queue.\<close>

fun closes :: "b_action \<Rightarrow> bool" where
  "closes (BClose w fd b) = True"
| "closes a = False"

definition b_step_open :: "callback \<Rightarrow> callback \<Rightarrow> blocking \<Rightarrow> b_action \<Rightarrow> blocking option" where
  "b_step_open herr base s a = (if closes a then None else b_step herr base s a)"

definition all_open :: "callback \<Rightarrow> callback \<Rightarrow> nat \<Rightarrow> nat \<Rightarrow> blocking \<Rightarrow> bool" where
  "all_open herr base n m s \<longleftrightarrow> linked herr base n m s \<and> \<not> b_fail s \<and>
     (\<forall>c ch. chans (b_iom s) c = Some ch \<longrightarrow> ch_queue ch \<noteq> None)"

lemma all_open_step:
  assumes s: "all_open herr base n m s" and step: "b_step_open herr base s a = Some t"
  shows "all_open herr base n m t"
proof -
  have st: "b_step herr base s a = Some t" "\<not> closes a" using step by (auto simp: b_step_open_def split: if_splits)
  have lt: "linked herr base n m t" using linked_step [OF _ st(1)] s by (simp add: all_open_def)
  have act: "b_act herr base s a = Some t" using st(1) by (simp add: b_step_def split: if_splits)
  have nf: "\<not> b_fail s" and q: "\<And>c ch. chans (b_iom s) c = Some ch \<Longrightarrow> ch_queue ch \<noteq> None"
    and ok: "blocking_ok herr base n m s"
    using s by (auto simp: all_open_def linked_def)
  have same: "all_open herr base n m t" if "b_iom t = b_iom s" "b_fail t = b_fail s"
    using lt nf q that by (simp add: all_open_def)
  show ?thesis
  proof (cases a)
    case (BSched x)
    with act show ?thesis by (intro same) (auto simp: b_on_sched_def simp del: sched_step.simps split: if_splits)
  next
    case (BBind w fd)
    with act obtain c i where b: "bindTaskQueue (Some w) fd (iom_of s) = Some (c, i)" "t = put_iom i s"
      by (auto simp: b_bind_def split: option.splits)
    have "ch_queue ch \<noteq> None" if "chans i d = Some ch" for d ch
      using b(1) that q by (cases rule: bindTaskQueue_cases) (auto simp: new_channel_def split: if_splits)
    with lt nf show ?thesis by (auto simp: all_open_def b(2) put_iom_def)
  next
    case (BRegister w c e)
    with act obtain g ch where g: "chans (b_iom s) c = Some ch" "io_event e" "at_user_code base w s = Some g"
      by (auto simp: b_register_def Let_def io_event_def split: option.splits if_splits)
    have "registerEvent herr c e (b_next s) True True (iom_of s) \<noteq> None"
      using g(1,2) q [OF g(1)]
      by (auto simp: registerEvent_def Let_def io_event_def channel_update_def setEvents_def useET_def)
    then obtain r i where i: "registerEvent herr c e (b_next s) True True (iom_of s) = Some (r, i)" by auto
    obtain ch' where ch': "i = (set_chan c ch' (iom_of s))\<lparr>io_pending := io_pending (iom_of s) + 1\<rparr>" "ch_queue ch' = ch_queue ch"
      by (rule registerEvent_effect [OF i g(2), of ch]) (use g(1) in simp_all)
    have "b_iom t = i" "b_fail t = b_fail s"
      using act BRegister g i by (auto simp: b_register_def Let_def io_event_def lose_def put_iom_def split: option.splits)
    with lt nf q g(1) ch' show ?thesis by (auto simp: all_open_def set_chan_def split: if_splits)
  next
    case (BUnregister w b)
    with act obtain g wt ch where g: "running_fiber w s = Some g" "b_wait s g = Some wt" "wt_held wt"
      "chans (b_iom s) (wt_ch wt) = Some ch"
      by (auto simp: b_unregister_def split: option.splits if_splits)
    have ev: "io_event (wt_ev wt)" using waits_okD(5) [OF blocking_okD(3) [OF ok] g(2)] .
    have "unregisterEvent (wt_ch wt) (wt_ev wt) b (iom_of s) \<noteq> None"
      using g(4) ev q [OF g(4)]
      by (auto simp: unregisterEvent_def Let_def io_event_def channel_update_def setEvents_def)
    then obtain i where i: "unregisterEvent (wt_ch wt) (wt_ev wt) b (iom_of s) = Some i" by auto
    obtain ch' where ch': "i = (set_chan (wt_ch wt) ch' (iom_of s))\<lparr>io_pending := io_pending (iom_of s) - 1\<rparr>"
      "ch_queue ch' = ch_queue ch"
      by (rule unregisterEvent_effect [OF i ev, of ch]) (use g(4) in simp_all)
    have "b_iom t = i" "b_fail t = b_fail s"
      using act BUnregister g i by (auto simp: b_unregister_def Let_def lose_def put_iom_def split: option.splits)
    with lt nf q g(4) ch' show ?thesis by (auto simp: all_open_def set_chan_def split: if_splits)
  next
    case (BDeliver w)
    with act show ?thesis by (intro same) (auto simp: b_deliver_def dest: q split: option.splits)
  next
    case (BWake w alive)
    with act show ?thesis
      by (intro same) (auto simp: b_wake_def Let_def b_on_sched_def simp del: sched_step.simps split: option.splits if_splits)
  qed (use act st(2) in \<open>intro same; auto simp: b_hold_def b_trigger_def b_exchange_def simp del: sched_step.simps
      split: option.splits if_splits wpc.splits\<close>)+
qed

interpretation open_channels: machine "b_step_open herr base" "all_open herr base n m" for herr base n m
  by unfold_locales (rule all_open_step)

section \<open>Properties\<close>


text \<open>
  One worker and two fibers. Each binds descriptor 5, registers to read and is held; then the
  worker polls and dispatches the event.
\<close>

definition go_on :: "nat \<Rightarrow> nat \<Rightarrow> b_action list" where
  "go_on w k = replicate k (BSched (Worker w Go))"

definition readers_trace :: "b_action list" where
  "readers_trace =
     [BSched (SpawnSubmit 1 (Some 1)), BSched (Submit 1), BSched (Submit 1), BSched (Submit 1),
      BSched (SpawnSubmit 1 (Some 2)), BSched (Submit 1), BSched (Submit 1)] @
     go_on 0 5 @ [BBind 0 5, BRegister 0 0 1, BHold 0] @ go_on 0 8 @ [BBind 0 5, BRegister 0 0 1, BHold 0]"

definition dispatch_trace :: "b_action list" where
  "dispatch_trace = go_on 0 4 @ [BSched (Worker 0 (Try True))] @ go_on 0 4 @ [BSched (Worker 0 (Poll []))] @
     go_on 0 1 @ [BTrigger 0 0 1]"

definition b_demo :: "nat \<Rightarrow> b_action list \<Rightarrow> blocking" where
  "b_demo n acts =
     (case exec_all (b_step 99 100) (init_blocking 100 n 1) acts of Some s \<Rightarrow> s | None \<Rightarrow> init_blocking 100 n 1)"

lemma readers_state:
  "map_option (\<lambda>s. (b_wait s 0, b_lost s 100, b_fired s 100))
     (exec_all (b_step 99 100) (init_blocking 100 1 1) readers_trace) =
   Some (Some \<lparr>wt_cb = 100, wt_ch = 0, wt_ev = 1, wt_held = True\<rparr>, True, False)"
  "map_option (\<lambda>s. (b_wait s 1, b_fired s 101, b_wait s 0, b_fired s 100))
     (exec_all (b_step 99 100) (init_blocking 100 1 1) (readers_trace @ dispatch_trace)) =
   Some (Some \<lparr>wt_cb = 101, wt_ch = 0, wt_ev = 1, wt_held = True\<rparr>, True,
     Some \<lparr>wt_cb = 100, wt_ch = 0, wt_ev = 1, wt_held = True\<rparr>, False)"
  by code_simp+

lemma b_demo_run:
  "map_option f (exec_all (b_step 99 100) (init_blocking 100 n 1) acts) = Some x \<Longrightarrow>
   exec_all (b_step 99 100) (init_blocking 100 n 1) acts = Some (b_demo n acts) \<and> f (b_demo n acts) = x"
  by (auto simp: b_demo_def)


text \<open>
  C8: a callback that its channel has dropped never wakes its fiber. If another fiber's call of
  \<^verbatim>\<open>registerEvent\<close>, \<^verbatim>\<open>unregisterEvent\<close> or \<^verbatim>\<open>close\<close> made the channel drop the callback
  of a waiting fiber before the event was dispatched, then whatever happens afterwards the event is
  never dispatched to it, and the closure never gets a task or a fiber, and its flag stays
  false. In the witness two fibers read from one descriptor, and the first one is left waiting.\<close>

theorem dropped_callback_never_fires:
  assumes "0 < n" "herr < base" "exec_all (b_step herr base) (init_blocking base n m) acts = Some s"
    and "b_wait s g = Some wt" "b_lost s (wt_cb wt)" "\<not> b_fired s (wt_cb wt)"
    and "exec_all (b_step herr base) s acts' = Some t"
  shows "\<not> b_fired t (wt_cb wt) \<and> \<not> b_trig t (wt_cb wt) \<and> task_of_callback (wt_cb wt) \<notin># born (b_sched t) \<and>
    \<not> (\<exists>f fb. fibers (b_sched t) f = Some fb \<and> fb_cb fb = Some (wt_cb wt))"
proof -
  have s: "linked herr base n m s" by (rule linked_run [OF assms(1-3)])
  then have "base \<le> wt_cb wt"
    using waits_okD(1) [OF blocking_okD(3) assms(4)] by (auto simp: linked_def)
  with s assms(5,6) have "dropped herr base n m (wt_cb wt) s" by (simp add: dropped_def)
  from stranded.run_good [OF this assms(7)]
  have t: "fired_first base t" "base \<le> wt_cb wt" "\<not> b_fired t (wt_cb wt)"
    by (simp_all add: dropped_def linked_def)
  then have "\<not> known_closure t (wt_cb wt)" unfolding fired_first_def by blast
  with t(3) show ?thesis unfolding known_closure_def by blast
qed

theorem dropped_callback_never_fires_witness:
  "\<exists>s t. exec_all (b_step 99 100) (init_blocking 100 1 1) readers_trace = Some s \<and>
     exec_all (b_step 99 100) s dispatch_trace = Some t \<and> b_fired t 101 \<and>
     b_wait t 0 = Some \<lparr>wt_cb = 100, wt_ch = 0, wt_ev = 1, wt_held = True\<rparr> \<and>
     \<not> b_fired t 100 \<and> task_of_callback 100 \<notin># born (b_sched t)"
proof -
  note run = b_demo_run [OF readers_state(1)] and run2 = b_demo_run [OF readers_state(2)]
  let ?s = "b_demo 1 readers_trace" and ?t = "b_demo 1 (readers_trace @ dispatch_trace)"
  have s: "exec_all (b_step 99 100) (init_blocking 100 1 1) readers_trace = Some ?s"
    "b_wait ?s 0 = Some \<lparr>wt_cb = 100, wt_ch = 0, wt_ev = 1, wt_held = True\<rparr>" "b_lost ?s 100" "\<not> b_fired ?s 100"
    using run by auto
  have t: "exec_all (b_step 99 100) ?s dispatch_trace = Some ?t" using run2 s(1) by (simp add: exec_all_append)
  have o: "b_fired ?t 101" "b_wait ?t 0 = Some \<lparr>wt_cb = 100, wt_ch = 0, wt_ev = 1, wt_held = True\<rparr>"
    using run2 by auto
  from dropped_callback_never_fires [OF _ _ s(1,2) _ _ t] s t o show ?thesis
    by (intro exI [of _ ?s] exI [of _ ?t]) simp
qed

text \<open>
  Waiting is safe while nobody closes. As long as no descriptor is closed, no assertion of
  \<^verbatim>\<open>registerEvent\<close> and \<^verbatim>\<open>unregisterEvent\<close> fails and \<^verbatim>\<open>triggerEvent\<close> finds the queue of its
  channel, whatever fibers share channels, register, wait and are woken.\<close>

theorem no_failure_without_close:
  assumes "0 < n" "herr < base" "exec_all (b_step_open herr base) (init_blocking base n m) acts = Some s"
  shows "\<not> b_fail s"
proof -
  have "all_open herr base n m (init_blocking base n m)"
    using linked_init [OF assms(1,2), of m] by (simp add: all_open_def init_blocking_def init_iom_def)
  from open_channels.run_good [OF this assms(3)] show ?thesis by (simp add: all_open_def)
qed

lemma open_readers:
  "map_option (\<lambda>s. b_fired s 101)
     (exec_all (b_step_open 99 100) (init_blocking 100 1 1) (readers_trace @ dispatch_trace)) = Some True"
  by code_simp

theorem no_failure_without_close_witness:
  "\<exists>s. exec_all (b_step_open 99 100) (init_blocking 100 1 1) (readers_trace @ dispatch_trace) = Some s \<and>
     b_fired s 101 \<and> \<not> b_fail s"
proof -
  obtain s where s: "exec_all (b_step_open 99 100) (init_blocking 100 1 1) (readers_trace @ dispatch_trace) = Some s"
    "b_fired s 101"
    using open_readers by auto
  from no_failure_without_close [OF _ _ s(1)] s show ?thesis by (intro exI [of _ s]) simp
qed

text \<open>
  Two workers. A fiber that worker 0 has bound is stolen by worker 1 and waits; its event is
  dispatched, its closure runs on worker 0 and wakes it, and worker 1 resumes it. Worker 0 polls
  again and copies the callback once more, and worker 1 unregisters and closes the descriptor.
\<close>

definition poll_again :: "b_action list" where
  "poll_again = [BSched (Worker 0 (Try True)), BSched (Worker 0 (Try True))] @ go_on 0 4 @
     [BSched (Worker 0 (Poll []))] @ go_on 0 1 @ [BTrigger 0 0 1]"

definition race_trace :: "b_action list" where
  "race_trace =
     [BSched (SpawnSubmit 2 (Some 1)), BSched (Submit 2), BSched (Submit 2), BSched (Submit 2)] @
     go_on 0 5 @ [BBind 0 5, BSched (Worker 0 UserYield)] @ go_on 0 1 @
     [BSched (Worker 1 Go), BSched (Worker 1 (Try True))] @ go_on 0 2 @ go_on 1 4 @
     [BRegister 1 0 1, BHold 1] @ go_on 1 2 @ go_on 0 1 @ poll_again @ [BDeliver 0] @
     go_on 0 6 @ [BExchange 0, BWake 0 True, BSched (Worker 0 UserReturn)] @ go_on 0 2 @
     go_on 1 2 @ [BSched (Worker 1 (Try True))] @ go_on 1 4 @
     go_on 0 2 @ poll_again @ [BUnregister 1 True, BClose 1 5 True]"

text \<open>
  The dispatch of an event can race with \<^verbatim>\<open>close\<close>. There is a run in which a fiber closes a
  descriptor after its own wait has ended, and a worker that has copied the callback in
  \<^verbatim>\<open>triggerEvent\<close> then uses the channel's queue, which \<^verbatim>\<open>Channel::remove\<close> has set to
  null.\<close>

theorem dispatch_races_close:
  "\<exists>s. exec_all (b_step 99 100) (init_blocking 100 2 1) race_trace = Some s \<and> \<not> b_fail s \<and>
     b_step 99 100 s (BDeliver 0) = Some (fails s)"
proof -
  have "map_option (\<lambda>s. (b_fail s, b_copy s 0, map_option ch_queue (chans (b_iom s) 0)))
      (exec_all (b_step 99 100) (init_blocking 100 2 1) race_trace) = Some (False, Some (0, 100), Some None)"
    by code_simp
  then obtain s where s: "exec_all (b_step 99 100) (init_blocking 100 2 1) race_trace = Some s"
    "\<not> b_fail s" "b_copy s 0 = Some (0, 100)" "map_option ch_queue (chans (b_iom s) 0) = Some None"
    by auto
  then have "b_step 99 100 s (BDeliver 0) = Some (fails s)"
    by (auto simp: b_step_def b_deliver_def)
  with s(1,2) show ?thesis by blast
qed

end
