(* ===== verification/Koro_Waiting_Shutdown.thy ===== *)
theory Koro_Waiting_Shutdown
  imports Koro_Blocking_Props Koro_Stop_Loop
begin

text \<open>
  \<^verbatim>\<open>stop\<close> of the I/O manager while fibers wait in \<^verbatim>\<open>do_io\<close>. The count of pending
  events is the number of waiting fibers, so \<^verbatim>\<open>stopping\<close> says no while one waits: \<^verbatim>\<open>stop\<close>
  stays in its loop and the workers go on polling. Once the last wait is over and nothing else is
  left, \<^verbatim>\<open>stop\<close> returns, by the results of \<^verbatim>\<open>Koro_Shutdown\<close>.
\<close>

section \<open>The count of pending events\<close>

text \<open>
  The count is changed by timers too, and by user code that registers events without waiting. Here
  it is not.
\<close>

fun other_pending :: "b_action \<Rightarrow> bool" where
  "other_pending (BSched (Worker w (UserPending d))) = True"
| "other_pending a = False"

definition b_step_events :: "callback \<Rightarrow> callback \<Rightarrow> blocking \<Rightarrow> b_action \<Rightarrow> blocking option" where
  "b_step_events herr base s a = (if other_pending a then None else b_step herr base s a)"

definition waiters :: "blocking \<Rightarrow> fid set" where
  "waiters s = dom (b_wait s)"

lemma sched_step_pending:
  assumes "sched_step s a = Some t" "\<And>w d. a \<noteq> Worker w (UserPending d)"
  shows "pending t = pending s"
proof (cases a)
  case (Worker w c)
  with assms(1) have st: "run_worker w c s = Some t" by (auto split: if_splits)
  show ?thesis
  proof (cases "\<exists>u f. pcs s w = RunBody u f")
    case True
    with st Worker assms(2) show ?thesis
      by (cases c) (auto simp: run_worker_def user_step_def machine_simps split: case_splits)
  next
    case False
    with st show ?thesis
      by (cases rule: run_worker_cases) (auto simp: machine_simps Let_def split: case_splits)
  qed
next
  case (Submit c)
  with assms(1) have "submit_step c s = Some t" by (auto split: if_splits)
  then show ?thesis by (cases rule: submit_step_cases) (auto simp: machine_simps Let_def)
next
  case (BeginSubmit c u)
  with assms submit_begin_Some [of c u s t] show ?thesis by auto
next
  case (SpawnSubmit c cb)
  with assms submit_spawn_Some [of c cb s t] show ?thesis by auto
next
  case Stop
  with assms(1) have "stop_step s = Some t" by simp
  then show ?thesis by (cases rule: stop_step_cases) auto
qed

lemma bind_pending: "bindTaskQueue tq fd s = Some (c, t) \<Longrightarrow> io_pending t = io_pending s"
  by (auto simp: bindTaskQueue_def Let_def set_chan_def split: option.splits if_splits)

lemma close_pending: "hook_close fd ok s = Some t \<Longrightarrow> io_pending t = io_pending s"
  by (auto simp: hook_close_def io_removeChannel_def Let_def set_chan_def split: option.splits if_splits)

lemma put_iom_pending [simp]: "pending (b_sched (put_iom i s)) = io_pending i"
  by (simp add: put_iom_def)

lemma iom_of_pending [simp]: "io_pending (iom_of s) = pending (b_sched s)"
  by (simp add: iom_of_def)

text \<open>
  A step that is not a step of the scheduler touches neither the positions of the threads nor the
  flags of \<^verbatim>\<open>stop\<close>.
\<close>

definition same_position :: "sched \<Rightarrow> sched \<Rightarrow> bool" where
  "same_position s t \<longleftrightarrow> pcs t = pcs s \<and> idle_term t = idle_term s \<and> stopper t = stopper s \<and>
     stop_flag t = stop_flag s \<and> n_threads t = n_threads s \<and> fresh t = fresh s"

lemma lose_sched [simp]: "b_sched (lose cb s) = b_sched s" "b_wait (lose cb s) = b_wait s"
  by (simp_all add: lose_def split: option.split)

lemma put_iom_position [simp]: "same_position (b_sched s) (b_sched (put_iom i s))" "b_wait (put_iom i s) = b_wait s"
  by (simp_all add: put_iom_def same_position_def)

text \<open>The three ways in which a step changes the count and the waiting fibers.\<close>

definition counts_step :: "blocking \<Rightarrow> blocking \<Rightarrow> bool" where
  "counts_step s t \<longleftrightarrow>
     pending (b_sched t) = pending (b_sched s) \<and> waiters t = waiters s \<or>
     (\<exists>g. g \<notin> waiters s \<and> waiters t = insert g (waiters s) \<and> pending (b_sched t) = pending (b_sched s) + 1) \<or>
     (\<exists>g. g \<in> waiters s \<and> waiters t = waiters s - {g} \<and> pending (b_sched t) = pending (b_sched s) - 1)"

definition moves_like :: "blocking \<Rightarrow> blocking \<Rightarrow> bool" where
  "moves_like s t \<longleftrightarrow> (\<exists>a. sched_step (b_sched s) a = Some (b_sched t)) \<or> same_position (b_sched s) (b_sched t)"

lemma register_counts:
  assumes "b_register herr base w c e s = Some t"
  shows "counts_step s t \<and> same_position (b_sched s) (b_sched t)"
proof -
  obtain g ch where g: "at_user_code base w s = Some g" "chans (b_iom s) c = Some ch" "io_event e"
    using assms by (auto simp: b_register_def Let_def io_event_def split: option.splits if_splits)
  then have free: "b_wait s g = None" by (auto simp: at_user_code_def split: option.splits if_splits)
  show ?thesis
  proof (cases "registerEvent herr c e (b_next s) True True (iom_of s)")
    case None
    with assms g show ?thesis
      by (auto simp: b_register_def Let_def io_event_def fails_def counts_step_def waiters_def same_position_def)
  next
    case (Some x)
    then obtain r i where x: "registerEvent herr c e (b_next s) True True (iom_of s) = Some (r, i)" by (cases x) auto
    obtain ch' where i: "i = (set_chan c ch' (iom_of s))\<lparr>io_pending := io_pending (iom_of s) + 1\<rparr>"
      by (rule registerEvent_effect [OF x g(3), of ch]) (use g(2) in simp_all)
    have t: "b_sched t = (b_sched s)\<lparr>pending := io_pending i\<rparr>" "dom (b_wait t) = insert g (dom (b_wait s))"
      using assms g x by (auto simp: b_register_def Let_def io_event_def put_iom_def)
    with free show ?thesis
      unfolding counts_step_def waiters_def same_position_def by (auto simp: i)
  qed
qed

lemma unregister_counts:
  assumes "b_unregister w ok s = Some t" "waits_ok base s"
  shows "counts_step s t \<and> same_position (b_sched s) (b_sched t)"
proof -
  obtain g wt ch where g: "running_fiber w s = Some g" "b_wait s g = Some wt" "chans (b_iom s) (wt_ch wt) = Some ch"
      "wt_held wt"
    using assms(1) by (auto simp: b_unregister_def split: option.splits if_splits)
  have ev: "io_event (wt_ev wt)" using assms(2) g(2) by (auto simp: waits_ok_def)
  show ?thesis
  proof (cases "unregisterEvent (wt_ch wt) (wt_ev wt) ok (iom_of s)")
    case None
    with assms(1) g show ?thesis
      by (auto simp: b_unregister_def fails_def counts_step_def waiters_def same_position_def)
  next
    case (Some i)
    obtain ch' where i: "i = (set_chan (wt_ch wt) ch' (iom_of s))\<lparr>io_pending := io_pending (iom_of s) - 1\<rparr>"
      by (rule unregisterEvent_effect [OF Some ev, of ch]) (use g(3) in simp_all)
    have t: "b_sched t = (b_sched s)\<lparr>pending := io_pending i\<rparr>" "b_wait t = (b_wait s)(g := None)"
      using assms(1) g Some by (auto simp: b_unregister_def Let_def put_iom_def lose_def split: option.splits)
    with g(2) show ?thesis
      unfolding counts_step_def waiters_def same_position_def by (auto simp: i)
  qed
qed

lemma b_step_counts:
  assumes step: "b_step_events herr base s a = Some t" and ok: "blocking_ok herr base n m s"
  shows "counts_step s t \<and> moves_like s t"
proof -
  have act: "b_act herr base s a = Some t" "\<not> other_pending a"
    using step by (auto simp: b_step_events_def b_step_def split: if_splits)
  have sched: "counts_step s t \<and> moves_like s t"
    if "sched_step (b_sched s) x = Some (b_sched t)" "waiters t = waiters s" "\<And>w d. x \<noteq> Worker w (UserPending d)" for x
    using that(1,2) sched_step_pending [OF that(1,3)] unfolding counts_step_def moves_like_def by blast
  have still: "counts_step s t \<and> moves_like s t"
    if "same_position (b_sched s) (b_sched t)" "waiters t = waiters s" "pending (b_sched t) = pending (b_sched s)"
    using that by (simp add: counts_step_def moves_like_def)
  show ?thesis
  proof (cases a)
    case (BSched x)
    with act have "sched_step (b_sched s) x = Some (b_sched t) \<and> waiters t = waiters s"
      by (auto simp: b_on_sched_def waiters_def simp del: sched_step.simps split: if_splits)
    moreover have "x \<noteq> Worker w (UserPending d)" for w d using act(2) BSched by auto
    ultimately show ?thesis by (intro sched) auto
  next
    case (BBind w fd)
    with act show ?thesis
      by (intro still) (auto simp: b_bind_def waiters_def same_position_def put_iom_def dest: bind_pending split: option.splits)
  next
    case (BRegister w c e)
    with act register_counts [of herr base w c e s t] show ?thesis by (simp add: moves_like_def)
  next
    case (BHold w)
    with act obtain ss g wt where "sched_step (b_sched s) (Worker w UserHold) = Some ss" "b_wait s g = Some wt"
      "t = s\<lparr>b_sched := ss, b_wait := (b_wait s)(g \<mapsto> wt\<lparr>wt_held := True\<rparr>)\<rparr>"
      by (auto simp: b_hold_def simp del: sched_step.simps split: option.splits if_splits)
    then show ?thesis by (intro sched [of "Worker w UserHold"]) (auto simp: waiters_def simp del: sched_step.simps)
  next
    case (BUnregister w b)
    with act unregister_counts [of w b s t] blocking_okD(3) [OF ok] show ?thesis by (auto simp: moves_like_def)
  next
    case (BClose w fd b)
    with act show ?thesis
      by (intro still)
        (auto simp: b_close_def waiters_def fails_def same_position_def put_iom_def dest: close_pending
          split: option.splits)
  next
    case (BTrigger w c e)
    with act show ?thesis
      by (intro still) (auto simp: b_trigger_def waiters_def same_position_def split: option.splits wpc.splits if_splits)
  next
    case (BDeliver w)
    with act show ?thesis
      by (intro still) (auto simp: b_deliver_def waiters_def same_position_def fails_def machine_simps split: option.splits)
  next
    case (BExchange w)
    with act show ?thesis
      by (intro still) (auto simp: b_exchange_def waiters_def same_position_def split: option.splits if_splits)
  next
    case (BWake w alive)
    show ?thesis
    proof (cases alive)
      case True
      with act BWake obtain g where "sched_step (b_sched s) (Worker w (UserWake g)) = Some (b_sched t)" "waiters t = waiters s"
        by (auto simp: b_wake_def Let_def b_on_sched_def waiters_def simp del: sched_step.simps split: option.splits if_splits)
      then show ?thesis by (intro sched [of "Worker w (UserWake g)"]) auto
    next
      case False
      with act BWake show ?thesis
        by (intro still) (auto simp: b_wake_def Let_def waiters_def same_position_def split: option.splits if_splits)
    qed
  qed
qed

definition counted :: "callback \<Rightarrow> callback \<Rightarrow> nat \<Rightarrow> nat \<Rightarrow> blocking \<Rightarrow> bool" where
  "counted herr base n m s \<longleftrightarrow> linked herr base n m s \<and> unset_first (b_sched s) \<and>
     pending (b_sched s) = of_nat (card (waiters s))"

text \<open>Every waiting fiber exists, so there are finitely many.\<close>

lemma waiters_bound:
  assumes "linked herr base n m s"
  shows "waiters s \<subseteq> {..<fresh (b_sched s)}" "finite (waiters s)" "card (waiters s) \<le> fresh (b_sched s)"
proof -
  have ok: "blocking_ok herr base n m s" using assms by (simp add: linked_def)
  show sub: "waiters s \<subseteq> {..<fresh (b_sched s)}"
  proof
    fix g assume "g \<in> waiters s"
    then obtain wt where "b_wait s g = Some wt" by (auto simp: waiters_def)
    from waits_okD(6) [OF blocking_okD(3) [OF ok] this] show "g \<in> {..<fresh (b_sched s)}"
      using fibers_okD(1) [OF blocking_okD(8) [OF ok], of g] by (force simp: not_less)
  qed
  show "finite (waiters s)" by (rule finite_subset [OF sub]) simp
  show "card (waiters s) \<le> fresh (b_sched s)" using card_mono [OF _ sub] by simp
qed

lemma counted_step:
  assumes "counted herr base n m s" "b_step_events herr base s a = Some t"
  shows "counted herr base n m t"
proof -
  have ok: "linked herr base n m s" "pending (b_sched s) = of_nat (card (waiters s))" "unset_first (b_sched s)"
    using assms(1) by (simp_all add: counted_def)
  have "b_step herr base s a = Some t" using assms(2) by (simp add: b_step_events_def split: if_splits)
  then have lt: "linked herr base n m t" by (rule linked_step [OF ok(1)])
  have "blocking_ok herr base n m s" using ok(1) by (simp add: linked_def)
  note c = b_step_counts [OF assms(2) this]
  note fin = waiters_bound(2) [OF ok(1)]
  have "unset_first (b_sched t)"
    using c ok(3) unset_first_step by (auto simp: moves_like_def same_position_def unset_first_def)
  moreover have "pending (b_sched t) = of_nat (card (waiters t))"
    using conjunct1 [OF c] unfolding counts_step_def
  proof (elim disjE exE conjE)
    fix g assume g: "g \<in> waiters s" "waiters t = waiters s - {g}" "pending (b_sched t) = pending (b_sched s) - 1"
    then have "card (waiters s) = Suc (card (waiters t))" using fin by (metis card.remove)
    with g(3) ok(2) show ?thesis by simp
  qed (use ok(2) fin in simp_all)
  ultimately show ?thesis using lt by (simp add: counted_def)
qed

interpretation counting: machine "b_step_events herr base" "counted herr base n m" for herr base n m
  by unfold_locales (rule counted_step)

lemma counted_run:
  assumes "0 < n" "herr < base" "exec_all (b_step_events herr base) (init_blocking base n m) acts = Some s"
  shows "counted herr base n m s"
proof -
  have "counted herr base n m (init_blocking base n m)"
    using linked_init [OF assms(1,2), of m]
    by (simp add: counted_def init_blocking_def init_sched_def waiters_def unset_first_def)
  from counting.run_good [OF this assms(3)] show ?thesis .
qed

section \<open>While a fiber waits\<close>

text \<open>With a pending event, \<^verbatim>\<open>stopping\<close> ends at its third look.\<close>

fun past_pending :: "chk \<Rightarrow> bool" where
  "past_pending (ChkQueue i) = True"
| "past_pending c = False"

lemma pending_says_no: "pending s \<noteq> 0 \<Longrightarrow> says_no past_pending s"
  by (auto simp: says_no_def stopping_step_def split: if_splits chk.splits)

text \<open>
  The runs during which some fiber waits. Fibers are numbered in the order of their creation;
  the count would wrap at \<open>2 ^ 64\<close> of them.
\<close>

definition someone_waits :: "blocking \<Rightarrow> bool" where
  "someone_waits s \<longleftrightarrow> list_ex (\<lambda>g. b_wait s g \<noteq> None) [0..<fresh (b_sched s)] \<and> fresh (b_sched s) < 2 ^ 64"

definition b_step_waited :: "callback \<Rightarrow> callback \<Rightarrow> blocking \<Rightarrow> b_action \<Rightarrow> blocking option" where
  "b_step_waited herr base s a =
     (if someone_waits s then b_step_events herr base s a else None)"

lemma waited_pending:
  assumes "counted herr base n m s" "someone_waits s"
  shows "pending (b_sched s) \<noteq> 0"
proof -
  have ok: "linked herr base n m s" "pending (b_sched s) = of_nat (card (waiters s))"
    using assms(1) by (simp_all add: counted_def)
  note b = waiters_bound [OF ok(1)]
  obtain g where "b_wait s g \<noteq> None" using assms(2) by (auto simp: someone_waits_def list_ex_iff)
  then have "waiters s \<noteq> {}" by (auto simp: waiters_def)
  then have "0 < card (waiters s)" using b(2) by (simp add: card_gt_0_iff)
  moreover have "card (waiters s) < 2 ^ 64" using b(3) assms(2) by (simp add: someone_waits_def)
  ultimately have "(of_nat (card (waiters s)) :: u64) \<noteq> 0" by (simp add: word_of_nat_eq_0_iff nat_dvd_not_less)
  with ok(2) show ?thesis by simp
qed

definition patient :: "callback \<Rightarrow> callback \<Rightarrow> nat \<Rightarrow> nat \<Rightarrow> (nat \<Rightarrow> bool) \<Rightarrow> blocking \<Rightarrow> bool" where
  "patient herr base n m q s \<longleftrightarrow> counted herr base n m s \<and> watchful past_pending (b_sched s) \<and> idle_term (b_sched s) = q"

lemma patient_step:
  assumes "patient herr base n m q s" "b_step_waited herr base s a = Some t"
  shows "patient herr base n m q t"
proof -
  have s: "counted herr base n m s" "watchful past_pending (b_sched s)" "idle_term (b_sched s) = q"
    using assms(1) by (simp_all add: patient_def)
  have st: "b_step_events herr base s a = Some t" "someone_waits s"
    using assms(2) by (auto simp: b_step_waited_def split: if_splits)
  note pos = waited_pending [OF s(1) st(2)]
  have ok: "blocking_ok herr base n m s" "unset_first (b_sched s)" using s(1) by (simp_all add: counted_def linked_def)
  have "moves_like s t" using b_step_counts [OF st(1) ok(1)] by blast
  then have "watchful past_pending (b_sched t) \<and> idle_term (b_sched t) = idle_term (b_sched s)"
    unfolding moves_like_def
  proof (elim disjE exE)
    fix x assume "sched_step (b_sched s) x = Some (b_sched t)"
    from watchful_step [OF this pending_says_no [OF pos] s(2) ok(2)] show ?thesis by simp
  qed (use s(2) in \<open>simp add: same_position_def watchful_def\<close>)
  with s(3) counted_step [OF s(1) st(1)] show ?thesis by (simp add: patient_def)
qed

interpretation patience: machine "b_step_waited herr base" "patient herr base n m q" for herr base n m q
  by unfold_locales (rule patient_step)

section \<open>When a worker has left\<close>

text \<open>
  A callback that is bound to the queue of a worker that has left \<^verbatim>\<open>run\<close> is not dispatched any
  more, since only that worker polls for it.
\<close>

definition abandoned :: "callback \<Rightarrow> callback \<Rightarrow> nat \<Rightarrow> nat \<Rightarrow> callback \<Rightarrow> nat \<Rightarrow> blocking \<Rightarrow> bool" where
  "abandoned herr base n m k q s \<longleftrightarrow> linked herr base n m s \<and> base \<le> k \<and> k < b_next s \<and> \<not> b_fired s k \<and>
     pcs (b_sched s) q = RunExit \<and>
     (\<exists>ch. chans (b_iom s) (fst (b_place s k)) = Some ch \<and> (ch_queue ch = None \<or> ch_queue ch = Some q))"

lemma exit_stays:
  assumes "sched_step s a = Some t" "pcs s q = RunExit"
  shows "pcs t q = RunExit"
proof -
  have "a \<noteq> Worker q c" for c using assms by (auto simp: run_worker_def split: if_splits)
  with step_position [OF assms(1), of q] assms(2) show ?thesis by simp
qed

lemma moves_exit:
  assumes "moves_like s t" "pcs (b_sched s) q = RunExit"
  shows "pcs (b_sched t) q = RunExit"
  using assms(1) unfolding moves_like_def
  by (elim disjE exE) (use exit_stays [OF _ assms(2)] assms(2) in \<open>auto simp: same_position_def\<close>)

text \<open>No operation moves a channel to another queue.\<close>

definition queues_kept :: "iom \<Rightarrow> iom \<Rightarrow> bool" where
  "queues_kept i j \<longleftrightarrow> (\<forall>c ch. chans i c = Some ch \<longrightarrow>
     (\<exists>ch'. chans j c = Some ch' \<and> (ch_queue ch' = None \<or> ch_queue ch' = ch_queue ch)))"

lemma queues_kept_refl [simp]: "queues_kept i i"
  by (simp add: queues_kept_def)

lemma iom_of_chans [simp]: "chans (iom_of s) = chans (b_iom s)" "queues_kept (iom_of s) i = queues_kept (b_iom s) i"
  by (simp_all add: iom_of_def queues_kept_def)

lemma queues_kept_set:
  "chans i c = Some ch \<Longrightarrow> ch_queue ch' = None \<or> ch_queue ch' = ch_queue ch \<Longrightarrow>
   chans j = (chans i)(c \<mapsto> ch') \<Longrightarrow> queues_kept i j"
  by (auto simp: queues_kept_def)

lemma bind_queues:
  assumes "bindTaskQueue tq fd i = Some (c, j)" "\<forall>c ch. chans i c = Some ch \<longrightarrow> c < next_ch i"
  shows "queues_kept i j"
  using assms by (cases rule: bindTaskQueue_cases) (auto simp: queues_kept_def)

lemma remove_queues:
  assumes "io_removeChannel c ok i = Some j"
  shows "queues_kept i j"
proof -
  obtain ch where ch: "chans i c = Some ch" using assms by (auto simp: io_removeChannel_def split: option.splits)
  from io_removeChannel_effect [OF assms ch] show ?thesis
  proof (elim disjE exE conjE)
    fix ch' tab
    assume "j = (set_chan c ch' i)\<lparr>ctable := tab\<rparr>" and q: "ch_queue ch' = None"
    then show ?thesis using ch by (intro queues_kept_set [of i c ch ch']) (simp_all add: set_chan_def)
  next
    fix ch' tab
    assume "j = (set_chan c ch' i)\<lparr>ctable := tab\<rparr>" and q: "ch_queue ch' = ch_queue ch"
    then show ?thesis using ch by (intro queues_kept_set [of i c ch ch']) (simp_all add: set_chan_def)
  qed simp
qed

lemma close_queues: "hook_close fd ok i = Some j \<Longrightarrow> queues_kept i j"
  by (auto simp: hook_close_def dest: remove_queues split: option.splits)

lemma b_iom_step:
  assumes act: "b_act herr base s a = Some t" and ok: "blocking_ok herr base n m s"
  shows "queues_kept (b_iom s) (b_iom t)"
proof (cases a)
  case (BSched x)
  with act show ?thesis by (auto simp: b_on_sched_def simp del: sched_step.simps split: if_splits)
next
  case (BBind w fd)
  with act obtain c i where "bindTaskQueue (Some w) fd (iom_of s) = Some (c, i)" "t = put_iom i s"
    by (auto simp: b_bind_def split: option.splits)
  moreover have "\<forall>c ch. chans (iom_of s) c = Some ch \<longrightarrow> c < next_ch (iom_of s)"
    using blocking_okD(5) [OF ok] by (auto simp: places_ok_def iom_of_def)
  ultimately show ?thesis using bind_queues [of "Some w" fd "iom_of s" c i] by (simp add: put_iom_def)
next
  case (BRegister w c e)
  with act obtain g ch where g: "chans (b_iom s) c = Some ch" "io_event e" "at_user_code base w s = Some g"
    by (auto simp: b_register_def Let_def io_event_def split: option.splits if_splits)
  show ?thesis
  proof (cases "registerEvent herr c e (b_next s) True True (iom_of s)")
    case None
    with act BRegister g show ?thesis by (auto simp: b_register_def Let_def io_event_def fails_def)
  next
    case (Some x)
    then obtain r i where x: "registerEvent herr c e (b_next s) True True (iom_of s) = Some (r, i)" by (cases x) auto
    obtain ch' where "i = (set_chan c ch' (iom_of s))\<lparr>io_pending := io_pending (iom_of s) + 1\<rparr>" "ch_queue ch' = ch_queue ch"
      by (rule registerEvent_effect [OF x g(2), of ch]) (use g(1) in simp_all)
    moreover have "b_iom t = i"
      using act BRegister g x by (auto simp: b_register_def Let_def io_event_def lose_def put_iom_def split: option.splits)
    ultimately show ?thesis using g(1) by (intro queues_kept_set [of _ c ch ch']) (auto simp: set_chan_def)
  qed
next
  case (BUnregister w b)
  with act obtain g wt ch where g: "running_fiber w s = Some g" "b_wait s g = Some wt" "wt_held wt"
    "chans (b_iom s) (wt_ch wt) = Some ch"
    by (auto simp: b_unregister_def split: option.splits if_splits)
  have ev: "io_event (wt_ev wt)" using waits_okD(5) [OF blocking_okD(3) [OF ok] g(2)] .
  show ?thesis
  proof (cases "unregisterEvent (wt_ch wt) (wt_ev wt) b (iom_of s)")
    case None
    with act BUnregister g show ?thesis by (auto simp: b_unregister_def fails_def)
  next
    case (Some i)
    obtain ch' where "i = (set_chan (wt_ch wt) ch' (iom_of s))\<lparr>io_pending := io_pending (iom_of s) - 1\<rparr>"
      "ch_queue ch' = ch_queue ch"
      by (rule unregisterEvent_effect [OF Some ev, of ch]) (use g(4) in simp_all)
    moreover have "b_iom t = i"
      using act BUnregister g Some by (auto simp: b_unregister_def Let_def lose_def put_iom_def split: option.splits)
    ultimately show ?thesis using g(4) by (intro queues_kept_set [of _ "wt_ch wt" ch ch']) (auto simp: set_chan_def)
  qed
next
  case (BClose w fd b)
  show ?thesis
  proof (cases "hook_close fd b (iom_of s)")
    case None
    with act BClose show ?thesis by (auto simp: b_close_def fails_def split: option.splits)
  next
    case (Some i)
    have "queues_kept (b_iom s) i" using close_queues [OF Some] by simp
    moreover have "b_iom t = i"
      using act BClose Some by (auto simp: b_close_def lose_def put_iom_def split: option.splits)
    ultimately show ?thesis by simp
  qed
next
  case (BWake w alive)
  with act show ?thesis
    by (auto simp: b_wake_def Let_def b_on_sched_def simp del: sched_step.simps split: option.splits if_splits)
qed (use act in \<open>auto simp: b_hold_def b_trigger_def b_deliver_def b_exchange_def fails_def simp del: sched_step.simps
    split: option.splits wpc.splits if_splits\<close>)

lemma b_step_moves:
  assumes "b_step herr base s a = Some t" "blocking_ok herr base n m s"
  shows "moves_like s t"
proof (cases "other_pending a")
  case True
  then obtain x where "a = BSched x" by (cases a) auto
  with assms(1) show ?thesis
    by (auto simp: b_step_def moves_like_def b_on_sched_def simp del: sched_step.simps split: if_splits)
next
  case False
  with assms b_step_counts [of herr base s a t n m] show ?thesis by (simp add: b_step_events_def)
qed

text \<open>The place of a closure is fixed when it is registered, and only its dispatch marks it.\<close>

lemma b_step_places:
  assumes act: "b_act herr base s a = Some t" and k: "k < b_next s"
  shows "b_place t k = b_place s k \<and> b_next s \<le> b_next t \<and>
    (b_fired t k \<longrightarrow> b_fired s k \<or>
      (\<exists>w c e evs ch. pcs (b_sched s) w = IdleEvents evs \<and> chans (b_iom s) c = Some ch \<and> ch_queue ch = Some w \<and>
        event_callback e ch = Some k))"
proof (cases a)
  case (BTrigger w c e)
  with act show ?thesis
    by (auto simp: b_trigger_def split: wpc.splits option.splits if_splits) blast+
next
  case (BRegister w c e)
  with act k show ?thesis
    by (auto simp: b_register_def Let_def lose_def put_iom_def fails_def split: option.splits if_splits)
next
  case (BSched x)
  with act show ?thesis by (auto simp: b_on_sched_def simp del: sched_step.simps split: if_splits)
next
  case (BWake w alive)
  with act show ?thesis
    by (auto simp: b_wake_def Let_def b_on_sched_def simp del: sched_step.simps split: option.splits if_splits)
next
  case (BHold w)
  with act show ?thesis
    by (auto simp: b_hold_def simp del: sched_step.simps split: option.splits if_splits)
qed (use act in \<open>auto simp: b_bind_def b_unregister_def b_close_def b_deliver_def b_exchange_def Let_def lose_def
    put_iom_def fails_def split: option.splits if_splits\<close>)

lemma abandoned_step:
  assumes ab: "abandoned herr base n m k q s" and st: "b_step herr base s a = Some t"
  shows "abandoned herr base n m k q t"
proof -
  have act: "b_act herr base s a = Some t" using st by (simp add: b_step_def split: if_splits)
  have ok: "blocking_ok herr base n m s" and lk: "linked herr base n m s" and h: "herr < base"
    and k: "base \<le> k" "k < b_next s" "\<not> b_fired s k" and q: "pcs (b_sched s) q = RunExit"
    using ab by (auto simp: abandoned_def linked_def)
  let ?c = "fst (b_place s k)"
  obtain ch where ch: "chans (b_iom s) ?c = Some ch" "ch_queue ch = None \<or> ch_queue ch = Some q"
    using ab by (auto simp: abandoned_def)
  note pl = b_step_places [OF act k(2)]
  have "\<not> b_fired t k"
  proof
    assume "b_fired t k"
    with pl k(3) obtain w c e evs ch' where w: "pcs (b_sched s) w = IdleEvents evs" "chans (b_iom s) c = Some ch'"
      "ch_queue ch' = Some w" "event_callback e ch' = Some k" by blast
    have "io_event e"
    proof (rule ccontr)
      assume "\<not> io_event e"
      then have "error_cb ch' = Some k" using w(4) by (auto simp: event_callback_def io_event_def split: if_splits)
      with places_okD(2) [OF blocking_okD(5) [OF ok] w(2)] h k(1) show False by auto
    qed
    then have "b_place s k = (c, e)" using places_okD(4) [OF blocking_okD(5) [OF ok] w(2)] w(4) by blast
    with ch w q show False by auto
  qed
  moreover obtain ch' where "chans (b_iom t) ?c = Some ch'" "ch_queue ch' = None \<or> ch_queue ch' = ch_queue ch"
    using b_iom_step [OF act ok] ch(1) unfolding queues_kept_def by blast
  ultimately show ?thesis
    using linked_step [OF lk st] k(1,2) pl moves_exit [OF b_step_moves [OF st ok] q] ch(2)
    by (auto simp: abandoned_def)
qed

interpretation abandonment: machine "b_step herr base" "abandoned herr base n m k q" for herr base n m k q
  by unfold_locales (rule abandoned_step)

section \<open>Properties\<close>

text \<open>
  The count of pending events is the number of waiting fibers. However fibers register, wait,
  are woken, unregister, share and close descriptors, as long as nothing but \<^verbatim>\<open>do_io\<close> counts
  events, \<^verbatim>\<open>pending_event_count_\<close> is the number of fibers that wait, modulo \<open>2 ^ 64\<close>.\<close>

theorem pending_counts_waiters:
  assumes "0 < n" "herr < base" "exec_all (b_step_events herr base) (init_blocking base n m) acts = Some s"
  shows "finite {g. b_wait s g \<noteq> None} \<and> pending (b_sched s) = of_nat (card {g. b_wait s g \<noteq> None})"
proof -
  have c: "counted herr base n m s" by (rule counted_run [OF assms])
  then have "linked herr base n m s" by (simp add: counted_def)
  from c waiters_bound(2) [OF this] show ?thesis by (simp add: counted_def waiters_def dom_def)
qed

text \<open>
  One worker. A fiber binds descriptor 5, registers to read and is held; the worker finds no
  other task and goes to its idle fiber, and \<^verbatim>\<open>stop\<close> is called.
\<close>

definition reader_trace :: "b_action list" where
  "reader_trace =
     [BSched (SpawnSubmit 1 (Some 1)), BSched (Submit 1), BSched (Submit 1), BSched (Submit 1)] @
     go_on 0 5 @ [BBind 0 5, BRegister 0 0 1, BHold 0] @ go_on 0 4 @ [BSched (Worker 0 (Try True))] @
     go_on 0 2 @ [BSched Stop]"

text \<open>\<^verbatim>\<open>stop\<close> makes a round of its loop meanwhile, and wakes the worker.\<close>

definition round_trace :: "b_action list" where
  "round_trace = go_on 0 4 @ replicate 6 (BSched Stop) @ [BSched (Worker 0 (Poll [EvWakeup]))] @ go_on 0 1"

text \<open>The event is dispatched, the closure runs and wakes the fiber, which ends its wait and returns.\<close>

definition served_trace :: "b_action list" where
  "served_trace = [BTrigger 0 0 1, BDeliver 0] @ go_on 0 9 @
     [BExchange 0, BWake 0 True, BSched (Worker 0 UserReturn)] @ go_on 0 8 @
     [BUnregister 0 True, BSched (Worker 0 UserReturn)] @ go_on 0 3"

definition reader_state :: blocking where
  "reader_state = b_demo 1 reader_trace"

lemma reader_runs:
  "map_option (\<lambda>s. (n_threads (b_sched s), stopper (b_sched s), pcs (b_sched s) 0, idle_term (b_sched s) 0, pending (b_sched s)))
     (exec_all (b_step_events 99 100) (init_blocking 100 1 1) reader_trace) =
   Some (1, StSweep 0, IdleStop ChkStop, False, 1)"
  "map_option (\<lambda>s. (stopper (b_sched s), pcs (b_sched s) 0, b_wait s 0, b_fired s 100, b_lost s 100))
     (exec_all (b_step_waited 99 100) reader_state round_trace) =
   Some (StSweep 0, IdleEvents [EvWakeup], Some \<lparr>wt_cb = 100, wt_ch = 0, wt_ev = 1, wt_held = True\<rparr>, False, False)"
  by code_simp+

lemma events_run: "exec_all (b_step_events herr base) s acts = Some t \<Longrightarrow> exec_all (b_step herr base) s acts = Some t"
  by (induction acts arbitrary: s) (auto simp: b_step_events_def split: option.splits if_splits)

lemma reader_state:
  "exec_all (b_step_events 99 100) (init_blocking 100 1 1) reader_trace = Some reader_state"
  "watchful past_pending (b_sched reader_state)" "\<not> idle_term (b_sched reader_state) 0" "pending (b_sched reader_state) = 1"
proof -
  obtain s where s: "exec_all (b_step_events 99 100) (init_blocking 100 1 1) reader_trace = Some s"
    "n_threads (b_sched s) = 1" "stopper (b_sched s) = StSweep 0" "pcs (b_sched s) 0 = IdleStop ChkStop"
    "\<not> idle_term (b_sched s) 0" "pending (b_sched s) = 1"
    using reader_runs(1) by auto
  then have "watchful past_pending (b_sched s)" by (simp add: watchful_def)
  have "reader_state = s" using events_run [OF s(1)] by (simp add: reader_state_def b_demo_def)
  with s \<open>watchful past_pending (b_sched s)\<close>
  show "exec_all (b_step_events 99 100) (init_blocking 100 1 1) reader_trace = Some reader_state"
    "watchful past_pending (b_sched reader_state)" "\<not> idle_term (b_sched reader_state) 0" "pending (b_sched reader_state) = 1"
    by simp_all
qed

theorem pending_counts_waiters_witness:
  "pending (b_sched reader_state) = of_nat (card {g. b_wait reader_state g \<noteq> None}) \<and> pending (b_sched reader_state) = 1"
  using pending_counts_waiters [OF _ _ reader_state(1)] reader_state(4) by simp



text \<open>
  \<^verbatim>\<open>stop\<close> returns after the last wait. When no fiber waits any more, no task is queued,
  submitted or in a worker's hands, and the last pass of \<^verbatim>\<open>stop\<close> lies ahead, then every
  run of the shutdown has a bounded number of steps and can go on until all workers are joined.\<close>

theorem stop_returns_after_last_wait:
  assumes "0 < n" "herr < base" "exec_all (b_step_events herr base) (init_blocking base n m) acts = Some s"
    and "\<forall>g. b_wait s g = None" "stop_flag (b_sched s)" "last_pass_ahead (stopper (b_sched s))"
    and "\<forall>w<n. tasks (b_sched s) w = [] \<and> drained_pc (pcs (b_sched s) w)" "\<forall>c<n + m. subs (b_sched s) c = SubNone"
    and "exec_all sched_step (b_sched s) acts' = Some t" "\<forall>a \<in> set acts'. shutdown_act a"
  shows "length acts' \<le> shutdown_work (b_sched s) \<and>
    (stopper t = StDone \<and> (\<forall>w<n. pcs t w = RunExit) \<or> (\<exists>a. certain_act a \<and> sched_step t a \<noteq> None))"
proof -
  have c: "counted herr base n m s" by (rule counted_run [OF assms(1-3)])
  then have ok: "sched_ok True n m (b_sched s)" by (simp add: counted_def linked_def blocking_ok_def)
  have "waiters s = {}" using assms(4) by (simp add: waiters_def dom_def)
  with c have "pending (b_sched s) = 0" by (simp add: counted_def)
  moreover have "n_threads (b_sched s) = n" "n_all (b_sched s) = n + m" using ok by (simp_all add: sched_ok_def shape_def)
  ultimately have "drained (b_sched s)" using assms(5,7,8) by (simp add: drained_def workless_def)
  from shutdown_rests [OF last_pass_ok [OF ok this assms(6)] assms(9,10)] show ?thesis .
qed

definition served_state :: blocking where
  "served_state = b_demo 1 (reader_trace @ round_trace @ served_trace)"

definition last_steps :: "action list" where
  "last_steps = replicate 8 Stop @ [Worker 0 Go]"

lemma served_runs:
  "map_option (\<lambda>s. (map (b_wait s) [0, 1], fresh (b_sched s), stop_flag (b_sched s), stopper (b_sched s), pcs (b_sched s) 0,
       tasks (b_sched s) 0, map (subs (b_sched s)) [0, 1], shutdown_work (b_sched s)))
     (exec_all (b_step_events 99 100) (init_blocking 100 1 1) (reader_trace @ round_trace @ served_trace)) =
   Some ([None, None], 2, True, StSweep 0, RunTop, [], [SubNone, SubNone], 28)"
  "map_option (\<lambda>s. (stopper s, pcs s 0)) (exec_all sched_step (b_sched served_state) last_steps) =
   Some (StFinal 1, RunSteal 1)"
  by code_simp+

theorem stop_returns_after_last_wait_witness:
  "\<exists>t. exec_all sched_step (b_sched served_state) last_steps = Some t \<and> length last_steps \<le> 28 \<and>
     (\<exists>a. certain_act a \<and> sched_step t a \<noteq> None)"
proof -
  obtain s where s: "exec_all (b_step_events 99 100) (init_blocking 100 1 1) (reader_trace @ round_trace @ served_trace) = Some s"
    and v: "b_wait s 0 = None \<and> b_wait s 1 = None" "fresh (b_sched s) = 2" "stop_flag (b_sched s)" "stopper (b_sched s) = StSweep 0"
      "pcs (b_sched s) 0 = RunTop" "tasks (b_sched s) 0 = []" "subs (b_sched s) 0 = SubNone" "subs (b_sched s) 1 = SubNone"
      "shutdown_work (b_sched s) = 28"
    using served_runs(1) by auto
  have e: "served_state = s" using events_run [OF s] by (simp add: served_state_def b_demo_def)
  obtain t where t: "exec_all sched_step (b_sched s) last_steps = Some t" "stopper t = StFinal 1"
    using served_runs(2) e by auto
  have l: "linked 99 100 1 1 s" using counted_run [OF _ _ s] by (simp add: counted_def)
  have "b_wait s g = None" for g
  proof (cases "g < 2")
    case True
    then have "g = 0 \<or> g = 1" by linarith
    with v(1) show ?thesis by auto
  next
    case False
    with waiters_bound(1) [OF l] v(2) show ?thesis by (auto simp: waiters_def dom_def)
  qed
  moreover have "\<forall>a \<in> set last_steps. shutdown_act a" "length last_steps \<le> 28" by (auto simp: last_steps_def)
  ultimately have "\<exists>a. certain_act a \<and> sched_step t a \<noteq> None"
    using stop_returns_after_last_wait [OF _ _ s _ v(3) _ _ _ t(1)] v t(2) by (auto simp: less_Suc_eq)
  with t(1) e \<open>length last_steps \<le> 28\<close> show ?thesis by blast
qed


definition leave_trace :: "b_action list" where
  "leave_trace =
     [BSched (SpawnSubmit 2 (Some 1)), BSched (Submit 2), BSched (Submit 2), BSched (Submit 2)] @
     go_on 0 5 @ [BBind 0 5, BSched (Worker 0 UserYield)] @ go_on 0 3 @
     [BSched (Worker 1 Go), BSched (Worker 1 (Try True)), BSched Stop] @
     go_on 0 1 @ replicate 2 (BSched (Worker 0 (Try True))) @ go_on 0 10 @
     replicate 2 (BSched (Worker 0 (Try True))) @ go_on 0 1 @
     go_on 1 4 @ [BRegister 1 0 1, BHold 1]"

definition leave_state :: blocking where
  "leave_state = b_demo 2 leave_trace"

text \<open>Worker 1 goes on to poll, and \<^verbatim>\<open>stop\<close> to go round.\<close>

definition wait_on_trace :: "b_action list" where
  "wait_on_trace = go_on 1 4 @ replicate 2 (BSched (Worker 1 (Try True))) @ go_on 1 6 @ replicate 7 (BSched Stop)"

lemma leave_runs:
  "map_option (\<lambda>s. (b_wait s 0, b_fired s 100, pcs (b_sched s) 0, map_option ch_queue (chans (b_iom s) 0)))
     (exec_all (b_step 99 100) (init_blocking 100 2 1) leave_trace) =
   Some (Some \<lparr>wt_cb = 100, wt_ch = 0, wt_ev = 1, wt_held = True\<rparr>, False, RunExit, Some (Some 0))"
  "map_option (\<lambda>s. (pcs (b_sched s) 1, stopper (b_sched s), pending (b_sched s), b_wait s 0))
     (exec_all (b_step 99 100) leave_state wait_on_trace) =
   Some (IdlePoll, StSweep 0, 1, Some \<lparr>wt_cb = 100, wt_ch = 0, wt_ev = 1, wt_held = True\<rparr>)"
  by code_simp+


end
