(* ===== verification/Koro_Context.thy ===== *)
theory Koro_Context
  imports Koro_Io
begin

text \<open>
  \<^verbatim>\<open>Context\<close> (\<^verbatim>\<open>koro/context.h\<close>): the table of channels and the I/O manager of the process, a
  static variable of a function that the first call constructs. \<^verbatim>\<open>koro/hook.cpp\<close> binds two
  references to its members when its translation unit is initialised, and looks up the real
  system calls once. The theory follows the process from the initialisation of the translation
  units to the destructors that run at exit, beside the pointer to the asynchronous logger
  (\<^verbatim>\<open>elog/logger.cpp\<close>), which is a static object of another translation unit.
\<close>

section \<open>The real system calls\<close>

text \<open>
  \<open>dlsym\<close> is the look-up of the next definition of a name; its result is a number, or
  \<^const>\<open>None\<close> for a null pointer.
\<close>

record hooks =
  sys_close :: "nat option"
  sys_read :: "nat option"
  sys_write :: "nat option"
  sys_accept :: "nat option"

definition null_hooks :: hooks where
  "null_hooks = \<lparr>sys_close = None, sys_read = None, sys_write = None, sys_accept = None\<rparr>"

definition init_hooks :: "(string \<Rightarrow> nat option) \<Rightarrow> hooks \<Rightarrow> hooks" where
  "init_hooks dlsym h = h\<lparr>sys_close := dlsym ''close'', sys_read := dlsym ''read'',
     sys_write := dlsym ''write'', sys_accept := dlsym ''accept''\<rparr>"

text \<open>\<^verbatim>\<open>std::call_once(flag, init_hooks)\<close>, with which every hooked function begins.\<close>

definition hooked_call :: "(string \<Rightarrow> nat option) \<Rightarrow> bool \<times> hooks \<Rightarrow> bool \<times> hooks" where
  "hooked_call dlsym fh = (let (flag, h) = fh in if flag then (flag, h) else (True, init_hooks dlsym h))"

lemma hooked_call_resolves:
  assumes "\<And>name. name \<in> {''close'', ''read'', ''write'', ''accept''} \<Longrightarrow> dlsym name \<noteq> None"
    and "hooked_call dlsym (False, null_hooks) = (flag, h)"
  shows "flag" "sys_close h \<noteq> None" "sys_read h \<noteq> None" "sys_write h \<noteq> None" "sys_accept h \<noteq> None"
    "hooked_call dlsym (flag, h) = (flag, h)"
  using assms by (auto simp: hooked_call_def init_hooks_def)

section \<open>The life of the static objects\<close>

text \<open>
  \<open>l_exit\<close> are the objects whose destructors run at exit, the last one constructed first.
  \<open>l_bound\<close>: the references of \<^verbatim>\<open>koro/hook.cpp\<close> are bound. \<open>l_bad\<close>: code used an unbound
  reference or an object outside its life. The switch \<^verbatim>\<open>async_enabled_\<close> has no destructor.
\<close>

datatype static_obj = ContextObj | LoggerPtr

datatype phase = StartUp | MainRuns | Exiting | StoppingIom | DestroyingTable

record life =
  l_phase :: phase
  l_instance :: "sched_instance option"
  l_table :: bool
  l_bound :: bool
  l_workers :: nat
  l_proc :: process
  l_logger :: bool
  l_async :: bool
  l_exit :: "static_obj list"
  l_bad :: bool

definition init_life :: life where
  "init_life = \<lparr>l_phase = StartUp, l_instance = None, l_table = False, l_bound = False, l_workers = 0,
     l_proc = \<lparr>initialized = False, started = {}\<rparr>, l_logger = False, l_async = False, l_exit = [], l_bad = False\<rparr>"

text \<open>
  \<^verbatim>\<open>Context::context()\<close>: the members are constructed in the order of their declaration, the
  table, then the manager with eight threads.
\<close>

definition context_threads :: nat where
  "context_threads = 8"

definition get_context :: "life \<Rightarrow> life option" where
  "get_context s =
     (case l_instance s of
        Some i \<Rightarrow> Some s
      | None \<Rightarrow>
          map_option (\<lambda>i. s\<lparr>l_table := True, l_instance := Some i, l_exit := ContextObj # l_exit s\<rparr>)
            (new_instance True context_threads))"

text \<open>The initialisers of the two translation units; their order is not specified.\<close>

definition init_hook_unit :: "life \<Rightarrow> life option" where
  "init_hook_unit s =
     (if l_phase s \<noteq> StartUp \<or> l_bound s then None
      else map_option (\<lambda>t. t\<lparr>l_bound := True\<rparr>) (get_context s))"

definition init_logger_unit :: "life \<Rightarrow> life option" where
  "init_logger_unit s =
     (if l_phase s \<noteq> StartUp \<or> LoggerPtr \<in> set (l_exit s) then None
      else Some (s\<lparr>l_logger := True, l_exit := LoggerPtr # l_exit s\<rparr>))"

definition begin_main :: "life \<Rightarrow> life option" where
  "begin_main s =
     (if l_phase s = StartUp \<and> l_bound s \<and> LoggerPtr \<in> set (l_exit s) then Some (s\<lparr>l_phase := MainRuns\<rparr>) else None)"

text \<open>\<^verbatim>\<open>init\<close> starts the workers, once in the process.\<close>

definition start_workers :: "life \<Rightarrow> life option" where
  "start_workers s =
     (case l_instance s of
        None \<Rightarrow> None
      | Some i \<Rightarrow>
          if l_phase s \<noteq> MainRuns then None
          else let (p, j) = init_instance 0 (l_proc s, i) in
               Some (s\<lparr>l_proc := p, l_instance := Some j,
                 l_workers := if initialized (l_proc s) then l_workers s else i_threads i\<rparr>))"

definition enable_async :: "life \<Rightarrow> life option" where
  "enable_async s = (if l_phase s = MainRuns then Some (s\<lparr>l_async := True\<rparr>) else None)"

text \<open>A thread logs: it dereferences \<^verbatim>\<open>async_logging_\<close> if the switch is on.\<close>

definition log_line :: "life \<Rightarrow> life" where
  "log_line s = (if l_async s \<and> \<not> l_logger s then s\<lparr>l_bad := True\<rparr> else s)"

text \<open>A worker uses the manager and the table through the references.\<close>

definition worker_access :: "life \<Rightarrow> life option" where
  "worker_access s =
     (if l_workers s = 0 then None
      else Some (if l_bound s \<and> l_table s \<and> l_instance s \<noteq> None then s else s\<lparr>l_bad := True\<rparr>))"

text \<open>The hooked \<^verbatim>\<open>close\<close>, from any code of the process at any time, locks the table.\<close>

definition any_close :: "life \<Rightarrow> life" where
  "any_close s = (if l_bound s \<and> l_table s then s else s\<lparr>l_bad := True\<rparr>)"

definition begin_exit :: "life \<Rightarrow> life option" where
  "begin_exit s = (if l_phase s = MainRuns then Some (s\<lparr>l_phase := Exiting\<rparr>) else None)"

text \<open>
  The destructors at exit. That of the manager stops it, and each worker logs before it ends; the
  table is destroyed after the manager.
\<close>

definition run_destructor :: "life \<Rightarrow> life option" where
  "run_destructor s =
     (case l_phase s of
        Exiting \<Rightarrow>
          (case l_exit s of
             [] \<Rightarrow> None
           | LoggerPtr # xs \<Rightarrow> Some (s\<lparr>l_logger := False, l_exit := xs\<rparr>)
           | ContextObj # xs \<Rightarrow>
               Some (s\<lparr>l_phase := StoppingIom, l_instance := map_option stop_instance (l_instance s), l_exit := xs\<rparr>))
      | StoppingIom \<Rightarrow>
          if l_workers s = 0
          then (case l_instance s of
                  None \<Rightarrow> None
                | Some i \<Rightarrow>
                    Some (case end_iomanager i of
                        None \<Rightarrow> s\<lparr>l_bad := True\<rparr>
                      | Some j \<Rightarrow> s\<lparr>l_phase := DestroyingTable, l_instance := None\<rparr>))
          else None
      | DestroyingTable \<Rightarrow> Some (s\<lparr>l_phase := Exiting, l_table := False\<rparr>)
      | _ \<Rightarrow> None)"

definition worker_quits :: "life \<Rightarrow> life option" where
  "worker_quits s =
     (if l_phase s = StoppingIom \<and> 0 < l_workers s then Some (log_line (s\<lparr>l_workers := l_workers s - 1\<rparr>)) else None)"

datatype life_act = InitHookUnit | InitLoggerUnit | BeginMain | StartWorkers | EnableAsync | LogLine
  | WorkerAccess | AnyClose | BeginExit | RunDestructor | WorkerQuits

fun life_step :: "life \<Rightarrow> life_act \<Rightarrow> life option" where
  "life_step s InitHookUnit = init_hook_unit s"
| "life_step s InitLoggerUnit = init_logger_unit s"
| "life_step s BeginMain = begin_main s"
| "life_step s StartWorkers = start_workers s"
| "life_step s EnableAsync = enable_async s"
| "life_step s LogLine = (if 0 < l_workers s then Some (log_line s) else None)"
| "life_step s WorkerAccess = worker_access s"
| "life_step s AnyClose = Some (any_close s)"
| "life_step s BeginExit = begin_exit s"
| "life_step s RunDestructor = run_destructor s"
| "life_step s WorkerQuits = worker_quits s"

section \<open>The workers' objects outlive the workers\<close>

definition life_ok :: "life \<Rightarrow> bool" where
  "life_ok s \<longleftrightarrow>
     (case l_phase s of
        StartUp \<Rightarrow> l_workers s = 0 \<and> \<not> l_async s \<and> (l_bound s \<longrightarrow> l_instance s \<noteq> None) \<and>
          (l_instance s \<noteq> None \<longrightarrow> l_table s) \<and> (LoggerPtr \<in> set (l_exit s) \<longrightarrow> l_logger s)
      | MainRuns \<Rightarrow> l_bound s \<and> l_instance s \<noteq> None \<and> l_table s \<and> l_logger s
      | DestroyingTable \<Rightarrow> l_workers s = 0
      | _ \<Rightarrow> 0 < l_workers s \<longrightarrow> l_bound s \<and> l_instance s \<noteq> None \<and> l_table s)"

lemmas life_defs = init_hook_unit_def init_logger_unit_def begin_main_def
  enable_async_def log_line_def worker_access_def any_close_def begin_exit_def worker_quits_def

lemma get_context_Some:
  "get_context s = Some t \<Longrightarrow> l_phase t = l_phase s \<and> l_instance t \<noteq> None \<and> (l_instance s = None \<longrightarrow> l_table t) \<and>
     (l_instance s \<noteq> None \<longrightarrow> t = s) \<and> l_workers t = l_workers s \<and> l_async t = l_async s \<and> l_logger t = l_logger s \<and>
     (LoggerPtr \<in> set (l_exit t)) = (LoggerPtr \<in> set (l_exit s))"
  by (auto simp: get_context_def split: option.splits)

lemma life_ok_destructor: "life_ok s \<Longrightarrow> run_destructor s = Some t \<Longrightarrow> life_ok t"
  by (cases "l_phase s")
    (auto simp: life_ok_def run_destructor_def split: if_splits option.splits list.splits static_obj.splits)

lemma life_ok_start: "life_ok s \<Longrightarrow> start_workers s = Some t \<Longrightarrow> life_ok t"
  by (auto simp: life_ok_def start_workers_def split: option.splits if_splits prod.splits)

lemma life_ok_hook_unit: "life_ok s \<Longrightarrow> init_hook_unit s = Some t \<Longrightarrow> life_ok t"
  by (auto simp: life_ok_def init_hook_unit_def split: if_splits dest!: get_context_Some)

lemma life_ok_step:
  assumes "life_ok s" "life_step s a = Some t"
  shows "life_ok t"
proof (cases a)
  case InitHookUnit
  with assms life_ok_hook_unit show ?thesis by simp
next
  case StartWorkers
  with assms life_ok_start show ?thesis by simp
next
  case RunDestructor
  with assms life_ok_destructor show ?thesis by simp
qed (use assms in \<open>cases "l_phase s"; auto simp: life_ok_def life_defs split: if_splits\<close>)+

interpretation process_life: machine life_step life_ok
  by unfold_locales (rule life_ok_step)

lemma life_run: "exec_all life_step init_life acts = Some s \<Longrightarrow> life_ok s"
proof -
  assume run: "exec_all life_step init_life acts = Some s"
  have "life_ok init_life" by (simp add: life_ok_def init_life_def)
  from process_life.run_good [OF this run] show ?thesis .
qed

lemma life_alive:
  "life_ok s \<Longrightarrow> 0 < l_workers s \<Longrightarrow> l_bound s \<and> l_instance s \<noteq> None \<and> l_table s"
  by (cases "l_phase s") (auto simp: life_ok_def)


definition exit_trace :: "life_act list \<Rightarrow> life_act list" where
  "exit_trace units = units @ [BeginMain, StartWorkers, EnableAsync, LogLine, BeginExit, RunDestructor]"


section \<open>Logging at exit\<close>

text \<open>
  The unit of the logger is initialised before that of the hooks: its pointer is destroyed after
  the context, so after the workers have ended.
\<close>

definition order_kept :: "life \<Rightarrow> bool" where
  "order_kept s \<longleftrightarrow>
     (case l_phase s of
        StartUp \<Rightarrow> l_workers s = 0 \<and> l_exit s = [ContextObj, LoggerPtr] \<and> l_logger s \<and> l_bound s \<and> l_instance s \<noteq> None
      | MainRuns \<Rightarrow> l_exit s = [ContextObj, LoggerPtr] \<and> l_logger s
      | Exiting \<Rightarrow> l_exit s = [ContextObj, LoggerPtr] \<and> l_logger s \<or>
          (l_exit s = [LoggerPtr] \<or> l_exit s = []) \<and> l_workers s = 0
      | StoppingIom \<Rightarrow> l_exit s = [LoggerPtr] \<and> l_logger s
      | DestroyingTable \<Rightarrow> l_exit s = [LoggerPtr] \<and> l_workers s = 0)"

lemma order_kept_destructor: "order_kept s \<Longrightarrow> run_destructor s = Some t \<Longrightarrow> order_kept t"
  by (cases "l_phase s")
    (auto simp: order_kept_def run_destructor_def split: if_splits option.splits)

lemma order_kept_start: "order_kept s \<Longrightarrow> start_workers s = Some t \<Longrightarrow> order_kept t"
  by (auto simp: order_kept_def start_workers_def split: option.splits if_splits prod.splits)

lemma order_kept_step:
  assumes "order_kept s" "life_step s a = Some t"
  shows "order_kept t"
proof (cases a)
  case InitHookUnit
  with assms show ?thesis by (auto simp: order_kept_def init_hook_unit_def split: if_splits)
next
  case StartWorkers
  with assms order_kept_start show ?thesis by simp
next
  case RunDestructor
  with assms order_kept_destructor show ?thesis by simp
qed (use assms in \<open>cases "l_phase s"; auto simp: order_kept_def life_defs split: if_splits\<close>)+

interpretation ordered_life: machine life_step order_kept
  by unfold_locales (rule order_kept_step)

text \<open>
  No worker logs through a destroyed logger, if the logger's translation unit was
  initialised before that of the hooks. Whenever a worker runs, also while the destructors run at
  exit, logging a line is safe whether asynchronous logging is enabled or not.\<close>

theorem exit_logs_safely:
  assumes "exec_all life_step init_life (InitLoggerUnit # InitHookUnit # acts) = Some s" "0 < l_workers s"
  shows "log_line s = s"
proof -
  obtain u where u: "exec_all life_step init_life [InitLoggerUnit, InitHookUnit] = Some u"
    "exec_all life_step u acts = Some s"
    using assms(1) by (auto split: option.splits)
  have "order_kept u"
    using u(1) by (auto simp: order_kept_def init_life_def life_defs get_context_def new_instance_def context_threads_def)
  from ordered_life.run_good [OF this u(2)] assms(2) show ?thesis
    by (cases "l_phase s") (auto simp: order_kept_def log_line_def)
qed

theorem exit_logs_safely_witness:
  "\<exists>s. exec_all life_step init_life (exit_trace [InitLoggerUnit, InitHookUnit]) = Some s \<and> l_async s \<and>
     l_phase s = StoppingIom \<and> log_line s = s"
proof -
  have "map_option (\<lambda>s. (l_phase s, l_workers s, l_async s))
      (exec_all life_step init_life (exit_trace [InitLoggerUnit, InitHookUnit])) = Some (StoppingIom, 8, True)"
    by code_simp
  then obtain s where s: "exec_all life_step init_life (exit_trace [InitLoggerUnit, InitHookUnit]) = Some s"
    "l_phase s = StoppingIom" "l_workers s = 8" "l_async s" by auto
  from exit_logs_safely [of "[BeginMain, StartWorkers, EnableAsync, LogLine, BeginExit, RunDestructor]" s] s
  show ?thesis by (intro exI [of _ s]) (simp add: exit_trace_def del: life_step.simps)
qed

text \<open>
  In the other order the pointer is destroyed first while the switch stays on, and the line that a
  worker logs before it ends is pushed through the destroyed pointer.\<close>

theorem exit_order_matters:
  "map_option l_bad (exec_all life_step init_life
     (exit_trace [InitHookUnit, InitLoggerUnit] @ [RunDestructor, WorkerQuits])) = Some True"
  by code_simp

text \<open>A \<^verbatim>\<open>close\<close> before the references are bound, by the initialiser of another unit, is bad.\<close>

theorem close_before_bound: "map_option l_bad (exec_all life_step init_life [AnyClose]) = Some True"
  by code_simp

end
