(* ===== verification/Elog_Text.thy ===== *)
theory Elog_Text
  imports Prelude
begin

text \<open>
  What a log line looks like: levels and source names (\<^verbatim>\<open>elog/logger.h\<close>), flags
  (\<^verbatim>\<open>elog/flags.h\<close>), time stamps (\<^verbatim>\<open>elog/timestamp.cpp\<close>), the record of one
  message (\<^verbatim>\<open>elog/context.h\<close>) and the formatter (\<^verbatim>\<open>elog/formatter.h\<close>). The
  conversion to local time is a parameter.
\<close>

section \<open>Levels\<close>

datatype LogLevel = TRACE | DEBUG | INFO | WARN | ERROR | FATAL | OFF

fun level_value :: "LogLevel \<Rightarrow> u8" where
  "level_value TRACE = 0"
| "level_value DEBUG = 1"
| "level_value INFO = 2"
| "level_value WARN = 3"
| "level_value ERROR = 4"
| "level_value FATAL = 5"
| "level_value OFF = 6"

lemma level_value_inj: "level_value a = level_value b \<Longrightarrow> a = b"
  by (cases a; cases b) simp_all

instantiation LogLevel :: linorder
begin

definition less_eq_LogLevel :: "LogLevel \<Rightarrow> LogLevel \<Rightarrow> bool" where
  "less_eq_LogLevel a b \<longleftrightarrow> level_value a \<le> level_value b"

definition less_LogLevel :: "LogLevel \<Rightarrow> LogLevel \<Rightarrow> bool" where
  "less_LogLevel a b \<longleftrightarrow> level_value a < level_value b"

instance
proof
  fix a b :: LogLevel
  show "a \<le> b \<Longrightarrow> b \<le> a \<Longrightarrow> a = b"
    by (rule level_value_inj) (simp add: less_eq_LogLevel_def)
qed (auto simp: less_eq_LogLevel_def less_LogLevel_def)

end

definition logLevel2String :: "LogLevel \<Rightarrow> string" where
  "logLevel2String level =
     (case level of TRACE \<Rightarrow> ''TRACE'' | DEBUG \<Rightarrow> ''DEBUG'' | INFO \<Rightarrow> ''INFO'' | WARN \<Rightarrow> ''WARN''
      | ERROR \<Rightarrow> ''ERROR'' | FATAL \<Rightarrow> ''FATAL'' | _ \<Rightarrow> ''UNKNOWN'')"

text \<open>The escape character is \<^verbatim>\<open>\033\<close>, 27.\<close>

definition logLevel2Color :: "LogLevel \<Rightarrow> string" where
  "logLevel2Color level = CHR 0x1B #
     (case level of TRACE \<Rightarrow> ''[90m'' | DEBUG \<Rightarrow> ''[36m'' | INFO \<Rightarrow> ''[32m'' | WARN \<Rightarrow> ''[33m''
      | ERROR \<Rightarrow> ''[31m'' | FATAL \<Rightarrow> ''[35m'' | _ \<Rightarrow> ''[0m'')"

text \<open>\<^verbatim>\<open>SelectedLogStream\<close>: whether a level is compiled in.\<close>

definition log_selected :: "LogLevel \<Rightarrow> LogLevel \<Rightarrow> bool" where
  "log_selected global_min level \<longleftrightarrow> global_min \<le> level"

text \<open>The formatter has its own table, on the numeric level.\<close>

definition formatter_level :: "u8 \<Rightarrow> string" where
  "formatter_level level =
     (if level = 0 then ''TRACE'' else if level = 1 then ''DEBUG'' else if level = 2 then ''INFO''
      else if level = 3 then ''WARN'' else if level = 4 then ''ERROR'' else if level = 5 then ''FATAL''
      else ''UNKNOWN'')"

lemma formatter_level_agrees: "formatter_level (level_value l) = logLevel2String l"
  by (cases l) (simp_all add: formatter_level_def logLevel2String_def)

section \<open>Source names\<close>

text \<open>\<^verbatim>\<open>strrchr(file, '/')\<close>: what follows the last slash, if there is one.\<close>

fun after_last_slash :: "string \<Rightarrow> string option" where
  "after_last_slash [] = None"
| "after_last_slash (c # cs) =
     (case after_last_slash cs of
        Some r \<Rightarrow> Some r
      | None \<Rightarrow> if c = CHR ''/'' then Some cs else None)"

definition getShortName :: "string \<Rightarrow> string" where
  "getShortName file = (case after_last_slash file of Some r \<Rightarrow> r | None \<Rightarrow> file)"

lemma after_last_slash_None: "after_last_slash s = None \<longleftrightarrow> CHR ''/'' \<notin> set s"
  by (induction s) (auto split: option.splits)

lemma after_last_slash_Some:
  "after_last_slash s = Some r \<Longrightarrow> CHR ''/'' \<notin> set r \<and> (\<exists>p. s = p @ CHR ''/'' # r)"
proof (induction s)
  case (Cons c cs)
  show ?case
  proof (cases "after_last_slash cs")
    case None
    with Cons.prems after_last_slash_None [of cs] show ?thesis by (auto split: if_splits)
  next
    case (Some r')
    with Cons have "r' = r" "CHR ''/'' \<notin> set r" "\<exists>p. cs = p @ CHR ''/'' # r" by auto
    then show ?thesis by (metis append_Cons)
  qed
qed simp

section \<open>Flags\<close>

definition kDate :: u8 where "kDate = push_bit 0 1"
definition kTime :: u8 where "kTime = push_bit 1 1"
definition kFullName :: u8 where "kFullName = push_bit 2 1"
definition kShortName :: u8 where "kShortName = push_bit 3 1"
definition kLine :: u8 where "kLine = push_bit 4 1"
definition kFuncName :: u8 where "kFuncName = push_bit 5 1"
definition kThreadId :: u8 where "kThreadId = push_bit 6 1"

definition kStdFlags :: u8 where
  "kStdFlags = kDate OR kTime OR kThreadId OR kShortName OR kLine OR kFuncName"

definition flags_or :: "u8 \<Rightarrow> u8 \<Rightarrow> u8" where "flags_or a b = a OR b"
definition flags_and :: "u8 \<Rightarrow> u8 \<Rightarrow> u8" where "flags_and a b = a AND b"
definition flags_xor :: "u8 \<Rightarrow> u8 \<Rightarrow> u8" where "flags_xor a b = a XOR b"
definition flags_not :: "u8 \<Rightarrow> u8" where "flags_not a = NOT a"
definition flags_bool :: "u8 \<Rightarrow> bool" where "flags_bool a \<longleftrightarrow> a \<noteq> 0"

text \<open>The operators with assignment: the new value of the left operand.\<close>

definition flags_or_assign :: "u8 \<Rightarrow> u8 \<Rightarrow> u8" where "flags_or_assign a b = a OR b"
definition flags_and_assign :: "u8 \<Rightarrow> u8 \<Rightarrow> u8" where "flags_and_assign a b = a AND b"
definition flags_xor_assign :: "u8 \<Rightarrow> u8 \<Rightarrow> u8" where "flags_xor_assign a b = a XOR b"

definition has_flag :: "u8 \<Rightarrow> u8 \<Rightarrow> bool" where
  "has_flag fl f \<longleftrightarrow> flags_bool (flags_and fl f)"

lemmas flag_defs = kDate_def kTime_def kFullName_def kShortName_def kLine_def kFuncName_def
  kThreadId_def kStdFlags_def flags_or_def flags_and_def flags_xor_def flags_not_def flags_bool_def
  has_flag_def flags_or_assign_def flags_and_assign_def flags_xor_assign_def

text \<open>Setting, clearing and toggling a flag leaves the flags that do not overlap with it alone.\<close>

lemma flags_disjoint:
  assumes "f AND g = 0"
  shows "has_flag (flags_or_assign fl f) g = has_flag fl g"
    and "has_flag (flags_and_assign fl (flags_not f)) g = has_flag fl g"
    and "has_flag (flags_xor_assign fl f) g = has_flag fl g"
proof -
  have bit: "bit g i \<Longrightarrow> \<not> bit f i" for i
    using assms by (metis bit_and_iff bit_0_eq bot_apply bot_bool_def)
  have "(fl OR f) AND g = fl AND g" "(fl AND NOT f) AND g = fl AND g" "(fl XOR f) AND g = fl AND g"
    by (rule bit_word_eqI; auto simp: bit_simps dest: bit)+
  then show "has_flag (flags_or_assign fl f) g = has_flag fl g"
    "has_flag (flags_and_assign fl (flags_not f)) g = has_flag fl g"
    "has_flag (flags_xor_assign fl f) g = has_flag fl g"
    by (simp_all add: flag_defs)
qed

lemma flags_set_clear:
  "f \<noteq> 0 \<Longrightarrow> has_flag (flags_or_assign fl f) f" "\<not> has_flag (flags_and_assign fl (flags_not f)) f"
  "flags_xor_assign (flags_xor_assign fl f) f = fl"
proof -
  have "(fl OR f) AND f = f" "(fl AND NOT f) AND f = 0" "(fl XOR f) XOR f = fl"
    by (rule bit_word_eqI; auto simp: bit_simps)+
  then show "f \<noteq> 0 \<Longrightarrow> has_flag (flags_or_assign fl f) f" "\<not> has_flag (flags_and_assign fl (flags_not f)) f"
    "flags_xor_assign (flags_xor_assign fl f) f = fl"
    by (simp_all add: flag_defs)
qed

section \<open>Numbers\<close>

text \<open>The decimal digits of a number, and \<^verbatim>\<open>{:0wd}\<close>.\<close>

definition digit_char :: "nat \<Rightarrow> char" where
  "digit_char d = char_of (48 + d)"

fun show_nat :: "nat \<Rightarrow> string" where
  "show_nat n = (if n < 10 then [digit_char n] else show_nat (n div 10) @ [digit_char (n mod 10)])"

declare show_nat.simps [simp del]

definition show_int :: "int \<Rightarrow> string" where
  "show_int i = (if i < 0 then CHR ''-'' # show_nat (nat (- i)) else show_nat (nat i))"

definition zero_pad :: "nat \<Rightarrow> int \<Rightarrow> string" where
  "zero_pad w i =
     (if i < 0 then CHR ''-'' # (let ds = show_nat (nat (- i)) in replicate (w - 1 - length ds) (CHR ''0'') @ ds)
      else let ds = show_nat (nat i) in replicate (w - length ds) (CHR ''0'') @ ds)"

definition digit_val :: "char \<Rightarrow> nat" where
  "digit_val c = of_char c - 48"

definition read_nat :: "string \<Rightarrow> nat" where
  "read_nat ds = foldl (\<lambda>n c. 10 * n + digit_val c) 0 ds"

lemma digit_val_char: "d < 10 \<Longrightarrow> digit_val (digit_char d) = d"
  by (simp add: digit_val_def digit_char_def)

lemma read_nat_append: "read_nat (xs @ [c]) = 10 * read_nat xs + digit_val c"
  by (simp add: read_nat_def)

lemma read_show_nat: "read_nat (show_nat n) = n"
proof (induction n rule: show_nat.induct)
  case (1 n)
  show ?case
  proof (cases "n < 10")
    case True
    then show ?thesis by (subst show_nat.simps) (simp add: read_nat_def digit_val_char)
  next
    case False
    then show ?thesis using 1 by (subst show_nat.simps) (simp add: read_nat_append digit_val_char)
  qed
qed

lemma read_nat_zeros: "read_nat (replicate k (CHR ''0'') @ ds) = read_nat ds"
proof -
  have "foldl (\<lambda>n c. 10 * n + digit_val c) 0 (replicate k (CHR ''0'')) = 0"
    by (induction k) (auto simp: digit_val_def)
  then show ?thesis by (simp add: read_nat_def)
qed

lemma length_show_nat: "0 < w \<Longrightarrow> n < 10 ^ w \<Longrightarrow> length (show_nat n) \<le> w"
proof (induction n arbitrary: w rule: show_nat.induct)
  case (1 n)
  show ?case
  proof (cases "n < 10")
    case True
    then show ?thesis using 1 by (subst show_nat.simps) simp
  next
    case False
    obtain v where v: "w = Suc v" using 1(2) by (cases w) auto
    have "0 < v" using 1(3) False v by (cases v) auto
    have "n div 10 < 10 ^ v" using 1(3) v by (simp add: less_mult_imp_div_less mult.commute)
    then show ?thesis using False v \<open>0 < v\<close> 1(1) [of v] by (subst show_nat.simps) simp
  qed
qed

lemma zero_pad_length: "0 < w \<Longrightarrow> 0 \<le> i \<Longrightarrow> nat i < 10 ^ w \<Longrightarrow> length (zero_pad w i) = w"
  using length_show_nat [of w "nat i"] by (simp add: zero_pad_def Let_def)

lemma read_zero_pad: "0 \<le> i \<Longrightarrow> int (read_nat (zero_pad w i)) = i"
  by (simp add: zero_pad_def Let_def read_nat_zeros read_show_nat)

section \<open>Time stamps\<close>

record tm =
  tm_year :: int
  tm_mon :: int
  tm_mday :: int
  tm_hour :: int
  tm_min :: int
  tm_sec :: int

text \<open>
  A time point is its number of microseconds; \<open>lt\<close> is \<^verbatim>\<open>localtime_r\<close>. Division and
  remainder are those of C++, which truncate towards zero.
\<close>

definition show_date :: "tm \<Rightarrow> string" where
  "show_date t = zero_pad 4 (tm_year t + 1900) @ ''-'' @ zero_pad 2 (tm_mon t + 1) @ ''-'' @
     zero_pad 2 (tm_mday t)"

definition show_time :: "tm \<Rightarrow> int \<Rightarrow> string" where
  "show_time t micros = zero_pad 2 (tm_hour t) @ '':'' @ zero_pad 2 (tm_min t) @ '':'' @
     zero_pad 2 (tm_sec t) @ ''.'' @ zero_pad 6 micros"

definition toFormattedString :: "(int \<Rightarrow> tm) \<Rightarrow> bool \<Rightarrow> bool \<Rightarrow> int \<Rightarrow> string" where
  "toFormattedString lt date time us =
     (if \<not> date \<and> \<not> time then []
      else let secs = us sdiv 1000000; micros = us smod 1000000; t = lt secs in
           if date \<and> time then show_date t @ '' '' @ show_time t micros
           else if date then show_date t
           else show_time t micros)"

text \<open>What a reader of a full time stamp takes from its fixed columns.\<close>

definition column :: "nat \<Rightarrow> nat \<Rightarrow> string \<Rightarrow> int" where
  "column i w s = int (read_nat (take w (drop i s)))"

definition parse_stamp :: "string \<Rightarrow> tm \<times> int" where
  "parse_stamp s =
     (\<lparr>tm_year = column 0 4 s - 1900, tm_mon = column 5 2 s - 1, tm_mday = column 8 2 s,
       tm_hour = column 11 2 s, tm_min = column 14 2 s, tm_sec = column 17 2 s\<rparr>, column 20 6 s)"

definition tm_valid :: "tm \<Rightarrow> bool" where
  "tm_valid t \<longleftrightarrow> 0 \<le> tm_year t + 1900 \<and> tm_year t + 1900 < 10000 \<and> 0 \<le> tm_mon t \<and> tm_mon t < 12 \<and>
     1 \<le> tm_mday t \<and> tm_mday t \<le> 31 \<and> 0 \<le> tm_hour t \<and> tm_hour t < 24 \<and> 0 \<le> tm_min t \<and>
     tm_min t < 60 \<and> 0 \<le> tm_sec t \<and> tm_sec t \<le> 60"

lemma pad_len:
  "0 \<le> i \<Longrightarrow> i < 100 \<Longrightarrow> length (zero_pad 2 i) = 2"
  "0 \<le> i \<Longrightarrow> i < 10000 \<Longrightarrow> length (zero_pad 4 i) = 4"
  "0 \<le> i \<Longrightarrow> i < 1000000 \<Longrightarrow> length (zero_pad 6 i) = 6"
  by (rule zero_pad_length; simp)+

text \<open>
  C39: a time stamp can be read back. For every instant after 1970 in a year of four digits,
  the full stamp is 26 characters long, and its columns give back the local date, the local time
  and the microseconds.\<close>

theorem timestamp_roundtrip:
  assumes "0 \<le> us" "tm_valid (lt (us div 1000000))"
  shows "length (toFormattedString lt True True us) = 26 \<and>
    parse_stamp (toFormattedString lt True True us) = (lt (us div 1000000), us mod 1000000)"
proof -
  have c: "us sdiv 1000000 = us div 1000000" "us smod 1000000 = us mod 1000000"
    using assms(1) by (simp_all add: signed_divide_int_def signed_modulo_int_def sgn_if)
  define t where "t = lt (us div 1000000)"
  define m where "m = us mod 1000000"
  have m: "0 \<le> m" "m < 1000000" by (simp_all add: m_def)
  have v: "tm_valid t" using assms(2) by (simp add: t_def)
  have s: "toFormattedString lt True True us = show_date t @ '' '' @ show_time t m"
    by (simp add: toFormattedString_def Let_def c t_def m_def)
  have len: "length (zero_pad 4 (tm_year t + 1900)) = 4" "length (zero_pad 2 (tm_mon t + 1)) = 2"
    "length (zero_pad 2 (tm_mday t)) = 2" "length (zero_pad 2 (tm_hour t)) = 2"
    "length (zero_pad 2 (tm_min t)) = 2" "length (zero_pad 2 (tm_sec t)) = 2" "length (zero_pad 6 m) = 6"
    using v m by (auto intro!: pad_len simp: tm_valid_def)
  have rd: "int (read_nat (zero_pad 4 (tm_year t + 1900))) = tm_year t + 1900"
    "int (read_nat (zero_pad 2 (tm_mon t + 1))) = tm_mon t + 1"
    "int (read_nat (zero_pad 2 (tm_mday t))) = tm_mday t"
    "int (read_nat (zero_pad 2 (tm_hour t))) = tm_hour t"
    "int (read_nat (zero_pad 2 (tm_min t))) = tm_min t"
    "int (read_nat (zero_pad 2 (tm_sec t))) = tm_sec t" "int (read_nat (zero_pad 6 m)) = m"
    using v m by (auto intro!: read_zero_pad simp: tm_valid_def)
  have "parse_stamp (show_date t @ '' '' @ show_time t m) = (t, m)"
    by (simp add: parse_stamp_def column_def show_date_def show_time_def len rd)
  moreover have "length (show_date t @ '' '' @ show_time t m) = 26"
    by (simp add: show_date_def show_time_def len)
  ultimately show ?thesis by (simp add: s flip: t_def m_def)
qed

definition sample_tm :: tm where
  "sample_tm = \<lparr>tm_year = 126, tm_mon = 0, tm_mday = 9, tm_hour = 7, tm_min = 5, tm_sec = 3\<rparr>"

theorem timestamp_roundtrip_witness:
  "length (toFormattedString (\<lambda>_. sample_tm) True True 42) = 26 \<and>
   parse_stamp (toFormattedString (\<lambda>_. sample_tm) True True 42) = (sample_tm, 42)"
  using timestamp_roundtrip [of 42 "\<lambda>_. sample_tm"] by (simp add: tm_valid_def sample_tm_def)

section \<open>Messages\<close>

record ctx_data =
  cd_line :: int
  cd_full :: string
  cd_short :: string
  cd_func :: string

record log_ctx =
  lc_time :: int
  lc_tid :: u64
  lc_level :: u8
  lc_data :: ctx_data
  lc_text :: string

definition new_ctx :: "u64 \<Rightarrow> int \<Rightarrow> log_ctx" where
  "new_ctx tid now = \<lparr>lc_time = now, lc_tid = tid, lc_level = 2,
     lc_data = \<lparr>cd_line = 0, cd_full = [], cd_short = [], cd_func = []\<rparr>, lc_text = []\<rparr>"

text \<open>
  The setters that can be chained, and the context that \<^verbatim>\<open>Logger::appendAsyncLog\<close> fills in
  with them.
\<close>

definition withText :: "string \<Rightarrow> log_ctx \<Rightarrow> log_ctx" where
  "withText msg c = c\<lparr>lc_text := msg\<rparr>"

definition withTimestamp :: "int \<Rightarrow> log_ctx \<Rightarrow> log_ctx" where
  "withTimestamp now c = c\<lparr>lc_time := now\<rparr>"

definition withTid :: "u64 \<Rightarrow> log_ctx \<Rightarrow> log_ctx" where
  "withTid tid c = c\<lparr>lc_tid := tid\<rparr>"

definition withLevel :: "u8 \<Rightarrow> log_ctx \<Rightarrow> log_ctx" where
  "withLevel level c = c\<lparr>lc_level := level\<rparr>"

definition WithData :: "ctx_data \<Rightarrow> log_ctx \<Rightarrow> log_ctx" where
  "WithData d c = c\<lparr>lc_data := d\<rparr>"

lemmas with_defs = withText_def withTimestamp_def withTid_def withLevel_def WithData_def

definition make_ctx :: "int \<Rightarrow> LogLevel \<Rightarrow> string \<Rightarrow> string \<Rightarrow> string \<Rightarrow> int \<Rightarrow> log_ctx \<Rightarrow> log_ctx" where
  "make_ctx now level message file func line c =
     withText message
       (WithData \<lparr>cd_line = line, cd_full = file, cd_short = getShortName file, cd_func = func\<rparr>
         (withLevel (level_value level) (withTimestamp now c)))"

definition format_ctx :: "(int \<Rightarrow> tm) \<Rightarrow> u8 \<Rightarrow> log_ctx \<Rightarrow> string" where
  "format_ctx lt fl c =
     toFormattedString lt (has_flag fl kDate) (has_flag fl kTime) (lc_time c) @
     (if has_flag fl kThreadId then ''['' @ show_nat (unat (lc_tid c)) @ '']'' else []) @
     formatter_level (lc_level c) @ '' '' @
     (if has_flag fl kFullName then cd_full (lc_data c)
      else if has_flag fl kShortName then cd_short (lc_data c) else []) @
     (if has_flag fl kLine then '':'' @ show_int (cd_line (lc_data c)) @ '' '' else []) @
     (if has_flag fl kFuncName then cd_func (lc_data c) @ ''()'' else []) @
     ''-> '' @ lc_text c @ [CHR 0x0A]"

text \<open>The line that the synchronous logger prints.\<close>

definition console_line :: "(int \<Rightarrow> tm) \<Rightarrow> u64 \<Rightarrow> int \<Rightarrow> LogLevel \<Rightarrow> string \<Rightarrow> string \<Rightarrow> string \<Rightarrow> int \<Rightarrow> string" where
  "console_line lt tid now level message file func line =
     logLevel2Color level @ toFormattedString lt True True now @
     ''['' @ show_nat (unat tid) @ '']'' @ logLevel2String level @ '' '' @ getShortName file @ '':'' @
     show_int line @ '' '' @ func @ ''()-> '' @ message @ (CHR 0x1B # ''[0m'') @ [CHR 0x0A]"


end
