(* ===== verification/Elog_Stream.thy ===== *)
theory Elog_Stream
  imports Elog_Text
begin

text \<open>
  The log statement, \<^verbatim>\<open>LOG_INFO << a << b\<close>: \<^verbatim>\<open>SelectedLogStream\<close>,
  \<^verbatim>\<open>NullLogger\<close> and \<^verbatim>\<open>Logger::LogStream\<close> (\<^verbatim>\<open>elog/logger.h\<close>) over the
  string that all streams of a thread share (\<^verbatim>\<open>elog/current_thread.h\<close>). An operand may call a
  function that logs, so statements nest. What becomes of an emitted message is the matter of
  \<^verbatim>\<open>Elog_Logger\<close>.
\<close>

section \<open>Statements\<close>

record site =
  s_file :: string
  s_func :: string
  s_line :: int

text \<open>
  \<open>Part ss v\<close>: an operand whose evaluation executes the statements \<open>ss\<close> and whose value is
  formatted as \<open>v\<close>.
\<close>

datatype stmt = Stmt LogLevel site "part list"
  and part = Part "stmt list" string

section \<open>The stream of one thread\<close>

text \<open>\<open>str\<close> is \<^verbatim>\<open>CurrentThread::str()\<close>, \<open>emitted\<close> what its destructor handed on.\<close>

record stream =
  str :: string
  emitted :: "(LogLevel \<times> site \<times> string) list"

definition stream_put :: "string \<Rightarrow> stream \<Rightarrow> stream" where
  "stream_put v s = s\<lparr>str := str s @ v\<rparr>"

definition stream_end :: "LogLevel \<Rightarrow> site \<Rightarrow> stream \<Rightarrow> stream" where
  "stream_end level at s =
     (let s1 = (if str s \<noteq> [] then s\<lparr>emitted := emitted s @ [(level, at, str s)]\<rparr> else s)
      in s1\<lparr>str := []\<rparr>)"

text \<open>
  Below the level that is compiled in, the stream is a \<^verbatim>\<open>NullLogger\<close>, whose operators do
  nothing; the operands are evaluated all the same. An operand is evaluated after the operands to
  its left have been appended.
\<close>

definition selected_put :: "bool \<Rightarrow> string \<Rightarrow> stream \<Rightarrow> stream" where
  "selected_put sel v s = (if sel then stream_put v s else s)"

definition selected_end :: "bool \<Rightarrow> LogLevel \<Rightarrow> site \<Rightarrow> stream \<Rightarrow> stream" where
  "selected_end sel level at s = (if sel then stream_end level at s else s)"

fun run_stmt :: "LogLevel \<Rightarrow> stmt \<Rightarrow> stream \<Rightarrow> stream"
  and run_parts :: "LogLevel \<Rightarrow> LogLevel \<Rightarrow> part list \<Rightarrow> stream \<Rightarrow> stream"
  and run_stmts :: "LogLevel \<Rightarrow> stmt list \<Rightarrow> stream \<Rightarrow> stream" where
  "run_stmt g (Stmt level at ps) s =
     selected_end (log_selected g level) level at (run_parts g level ps s)"
| "run_parts g level [] s = s"
| "run_parts g level (Part ss v # ps) s =
     run_parts g level ps (selected_put (log_selected g level) v (run_stmts g ss s))"
| "run_stmts g [] s = s"
| "run_stmts g (x # xs) s = run_stmts g xs (run_stmt g x s)"

lemmas stream_defs = stream_put_def stream_end_def selected_put_def selected_end_def

section \<open>What a statement should do\<close>

fun part_text :: "part \<Rightarrow> string" where
  "part_text (Part ss v) = v"

fun flat :: "stmt \<Rightarrow> bool" where
  "flat (Stmt level at ps) = list_all (\<lambda>p. case p of Part ss v \<Rightarrow> ss = []) ps"

text \<open>One record with the whole text, if the level is compiled in and there is any text.\<close>

fun stmt_record :: "LogLevel \<Rightarrow> stmt \<Rightarrow> (LogLevel \<times> site \<times> string) list" where
  "stmt_record g (Stmt level at ps) =
     (let text = concat (map part_text ps) in
      if log_selected g level \<and> text \<noteq> [] then [(level, at, text)] else [])"

lemma run_parts_flat:
  "list_all (\<lambda>p. case p of Part ss v \<Rightarrow> ss = []) ps \<Longrightarrow>
   run_parts g level ps s =
     (if log_selected g level then s\<lparr>str := str s @ concat (map part_text ps)\<rparr> else s)"
proof (induction ps arbitrary: s)
  case (Cons p ps)
  then show ?case by (cases p) (simp add: stream_defs)
qed (simp)

lemma run_stmt_flat:
  assumes "flat x" "str s = []"
  shows "run_stmt g x s = s\<lparr>emitted := emitted s @ stmt_record g x\<rparr>"
proof (cases x)
  case (Stmt level at ps)
  with assms run_parts_flat [of ps g level s] show ?thesis by (simp add: stream_defs Let_def)
qed

text \<open>
  The texts in the order of evaluation: what all operands of the statements that are compiled in
  produce.
\<close>

fun stmt_text :: "LogLevel \<Rightarrow> stmt \<Rightarrow> string"
  and parts_text :: "LogLevel \<Rightarrow> LogLevel \<Rightarrow> part list \<Rightarrow> string"
  and stmts_text :: "LogLevel \<Rightarrow> stmt list \<Rightarrow> string" where
  "stmt_text g (Stmt level at ps) = parts_text g level ps"
| "parts_text g level [] = []"
| "parts_text g level (Part ss v # ps) =
     stmts_text g ss @ (if log_selected g level then v else []) @ parts_text g level ps"
| "stmts_text g [] = []"
| "stmts_text g (x # xs) = stmt_text g x @ stmts_text g xs"

definition stream_text :: "stream \<Rightarrow> string" where
  "stream_text s = concat (map (\<lambda>(level, at, text). text) (emitted s)) @ str s"

lemma stream_text_put [simp]:
  "stream_text (selected_put sel v s) = stream_text s @ (if sel then v else [])"
  by (simp add: stream_text_def stream_defs)

lemma stream_text_end [simp]: "stream_text (selected_end sel level at s) = stream_text s"
  by (simp add: stream_text_def stream_defs Let_def)

lemma run_text:
  "stream_text (run_stmt g x s) = stream_text s @ stmt_text g x"
  "stream_text (run_parts g level ps s) = stream_text s @ parts_text g level ps"
  "stream_text (run_stmts g xs s) = stream_text s @ stmts_text g xs"
  by (induction g x s and g level ps s and g xs s rule: run_stmt_run_parts_run_stmts.induct) simp_all

section \<open>Properties\<close>

text \<open>
  C38: a log statement is one message. When no operand logs, a sequence of statements of one
  thread emits for each statement whose level is compiled in, and whose operands are not all empty,
  exactly one message with the texts of its operands put together, in the order of the program; it
  emits nothing else and leaves the shared string empty for the next statement.\<close>

theorem log_statement_output:
  assumes "list_all flat xs" "str s = []"
  shows "run_stmts g xs s = s\<lparr>emitted := emitted s @ concat (map (stmt_record g) xs)\<rparr>"
  using assms by (induction xs arbitrary: s) (simp_all add: run_stmt_flat)

definition hello_site :: site where
  "hello_site = \<lparr>s_file = ''a/b.cpp'', s_func = ''main'', s_line = 7\<rparr>"

theorem log_statement_output_witness:
  "emitted (run_stmts INFO [Stmt DEBUG hello_site [Part [] ''no''],
      Stmt WARN hello_site [Part [] ''fd '', Part [] ''5''], Stmt INFO hello_site [Part [] []]]
      \<lparr>str = [], emitted = []\<rparr>) = [(WARN, hello_site, ''fd 5'')]"
  by (subst log_statement_output) (simp_all add: log_selected_def less_eq_LogLevel_def word_le_nat_alt)

text \<open>
  A nested statement takes the text to its left. All streams of a thread share one string,
  so when an operand calls a function that logs, the message of that function begins with the text
  that the outer statement has collected so far, and the outer message has lost it.\<close>

theorem nested_statement_takes_prefix:
  assumes "log_selected g l1" "log_selected g l2" "a \<noteq> []" "c \<noteq> []" "str s = []"
  shows "run_stmt g (Stmt l1 at1 [Part [] a, Part [Stmt l2 at2 [Part [] b]] c]) s =
    s\<lparr>emitted := emitted s @ [(l2, at2, a @ b), (l1, at1, c)]\<rparr>"
  using assms by (simp add: stream_defs Let_def)

theorem nested_statement_takes_prefix_witness:
  "emitted (run_stmt INFO (Stmt INFO hello_site [Part [] ''sum '',
      Part [Stmt WARN hello_site [Part [] ''slow'']] ''9'']) \<lparr>str = [], emitted = []\<rparr>) =
   [(WARN, hello_site, ''sum slow''), (INFO, hello_site, ''9'')]"
  by (subst nested_statement_takes_prefix) (simp_all add: log_selected_def less_eq_LogLevel_def)

text \<open>
  No text is lost as such: however statements nest, the messages and the string together hold
  the texts of all operands that are compiled in, in the order of evaluation.\<close>

theorem log_text_conserved: "stream_text (run_stmts g xs s) = stream_text s @ stmts_text g xs"
  by (rule run_text(3))

end
