(* ===== verification/Elog_File.thy ===== *)
theory Elog_File
  imports Elog_Text
begin

text \<open>
  The log files: \<^verbatim>\<open>FileAppender\<close> (\<^verbatim>\<open>elog/file_appender.cpp\<close>) and
  \<^verbatim>\<open>LogFile\<close> (\<^verbatim>\<open>elog/log_file.cpp\<close>). The clock, the local time and the results
  of the calls on files are inputs; an exception is an \<open>Inl\<close>.
\<close>

section \<open>\<^verbatim>\<open>FileAppender\<close>\<close>

datatype log_error = StatusFailed | NoDirectory | NotDirectory | OpenFailed | WriteFailed
  | PartialWrite | FlushFailed | NullFile

text \<open>What the directory of the path is: it has no parent part, the status cannot be read, and so on.\<close>

datatype dir_status = NoParent | StatusError | Missing | PlainFile | Directory

definition ensureDirectoryExists :: "dir_status \<Rightarrow> log_error + unit" where
  "ensureDirectoryExists st =
     (case st of NoParent \<Rightarrow> Inr () | StatusError \<Rightarrow> Inl StatusFailed | Missing \<Rightarrow> Inl NoDirectory
      | PlainFile \<Rightarrow> Inl NotDirectory | Directory \<Rightarrow> Inr ())"

text \<open>\<open>fa_data\<close> is what the process has written to the file, \<open>fa_flushed\<close> how much of it was flushed.\<close>

record appender =
  fa_path :: string
  fa_data :: string
  fa_written :: nat
  fa_flushed :: nat

definition open_appender :: "dir_status \<Rightarrow> bool \<Rightarrow> string \<Rightarrow> log_error + appender" where
  "open_appender st fopen_ok path =
     (case ensureDirectoryExists st of
        Inl e \<Rightarrow> Inl e
      | Inr _ \<Rightarrow> if \<not> fopen_ok then Inl OpenFailed
               else Inr \<lparr>fa_path = path, fa_data = [], fa_written = 0, fa_flushed = 0\<rparr>)"

definition close_appender :: "appender \<Rightarrow> appender" where
  "close_appender a = a\<lparr>fa_flushed := length (fa_data a)\<rparr>"

text \<open>The result of \<^verbatim>\<open>fwrite\<close>: everything, or less, with or without an error indicator.\<close>

datatype fwrite_result = Whole | Short bool

definition appender_append :: "fwrite_result \<Rightarrow> string \<Rightarrow> appender \<Rightarrow> log_error + appender" where
  "appender_append fw data a =
     (if data = [] then Inr a
      else case fw of
             Short ferror \<Rightarrow> Inl (if ferror then WriteFailed else PartialWrite)
           | Whole \<Rightarrow> Inr (a\<lparr>fa_data := fa_data a @ data, fa_written := fa_written a + length data\<rparr>))"

definition appender_flush :: "bool \<Rightarrow> appender \<Rightarrow> log_error + appender" where
  "appender_flush ok a = (if ok then Inr (a\<lparr>fa_flushed := length (fa_data a)\<rparr>) else Inl FlushFailed)"

definition resetWrittenBytes :: "appender \<Rightarrow> appender" where
  "resetWrittenBytes a = a\<lparr>fa_written := 0\<rparr>"

section \<open>\<^verbatim>\<open>LogFile\<close>\<close>

definition kRollPerSeconds :: int where
  "kRollPerSeconds = 24 * 60 * 60"

text \<open>\<open>lf_old\<close> are the files closed so far, a record of the history.\<close>

record logfile =
  lf_base :: string
  lf_prefix :: string
  lf_roll :: nat
  lf_interval :: int
  lf_check :: int
  lf_count :: int
  lf_file :: "appender option"
  lf_day :: int
  lf_roll_sec :: int
  lf_flush_sec :: int
  lf_old :: "appender list"

text \<open>The environment of one call: local time, clock, and the results of the file operations.\<close>

record file_env =
  fe_lt :: "int \<Rightarrow> tm"
  fe_now :: int
  fe_dir :: dir_status
  fe_open :: bool
  fe_write :: fwrite_result
  fe_flush :: bool

definition getFilename :: "(int \<Rightarrow> tm) \<Rightarrow> int \<Rightarrow> logfile \<Rightarrow> string" where
  "getFilename lt now s =
     (let t = lt now in
      lf_base s @ ''/'' @ lf_prefix s @ ''.'' @ zero_pad 4 (tm_year t + 1900) @ zero_pad 2 (tm_mon t + 1) @
      zero_pad 2 (tm_mday t) @ ''-'' @ zero_pad 2 (tm_hour t) @ zero_pad 2 (tm_min t) @
      zero_pad 2 (tm_sec t) @ ''.log'')"

definition rollFile :: "file_env \<Rightarrow> logfile \<Rightarrow> log_error + logfile" where
  "rollFile env s =
     (let now = fe_now env;
          filename = getFilename (fe_lt env) now s;
          now_day = now sdiv kRollPerSeconds * kRollPerSeconds
      in if now > lf_roll_sec s
         then (case open_appender (fe_dir env) (fe_open env) filename of
                 Inl e \<Rightarrow> Inl e
               | Inr a \<Rightarrow> Inr (s\<lparr>lf_roll_sec := now, lf_flush_sec := now, lf_day := now_day,
                   lf_old := lf_old s @ (case lf_file s of None \<Rightarrow> [] | Some b \<Rightarrow> [close_appender b]),
                   lf_file := Some a\<rparr>))
         else Inr s)"

text \<open>
  The constructor does not initialise \<^verbatim>\<open>last_roll_second_\<close>, \<^verbatim>\<open>last_day_\<close> and
  \<^verbatim>\<open>last_flush_second_\<close>: \<open>junk\<close> is what their memory holds.
\<close>

definition new_logfile :: "int \<Rightarrow> file_env \<Rightarrow> string \<Rightarrow> string \<Rightarrow> nat \<Rightarrow> int \<Rightarrow> log_error + logfile" where
  "new_logfile junk env basename pre roll interval =
     rollFile env \<lparr>lf_base = basename, lf_prefix = pre, lf_roll = roll, lf_interval = interval,
       lf_check = 1024, lf_count = 0, lf_file = None, lf_day = junk, lf_roll_sec = junk,
       lf_flush_sec = junk, lf_old = []\<rparr>"

definition reset_current :: "logfile \<Rightarrow> logfile" where
  "reset_current s = s\<lparr>lf_file := map_option resetWrittenBytes (lf_file s)\<rparr>"

definition logfile_flush :: "file_env \<Rightarrow> logfile \<Rightarrow> log_error + logfile" where
  "logfile_flush env s =
     (case lf_file s of
        None \<Rightarrow> Inl NullFile
      | Some a \<Rightarrow> (case appender_flush (fe_flush env) a of
                    Inl e \<Rightarrow> Inl e | Inr b \<Rightarrow> Inr (s\<lparr>lf_file := Some b\<rparr>)))"

definition logfile_append :: "file_env \<Rightarrow> string \<Rightarrow> logfile \<Rightarrow> log_error + logfile" where
  "logfile_append env data s =
     (case lf_file s of
        None \<Rightarrow> Inl NullFile
      | Some a \<Rightarrow>
          (case appender_append (fe_write env) data a of
             Inl e \<Rightarrow> Inl e
           | Inr b \<Rightarrow>
               let s1 = s\<lparr>lf_file := Some b\<rparr> in
               if fa_written b > lf_roll s1
               then (case rollFile env s1 of Inl e \<Rightarrow> Inl e | Inr s2 \<Rightarrow> Inr (reset_current s2))
               else let s2 = s1\<lparr>lf_count := lf_count s1 + 1\<rparr> in
                    if lf_count s2 \<ge> lf_check s2
                    then let s3 = s2\<lparr>lf_count := 0\<rparr>; now = fe_now env;
                             cur_day = now sdiv kRollPerSeconds * kRollPerSeconds
                         in if cur_day \<noteq> lf_day s3 then rollFile env s3
                            else if now - lf_flush_sec s3 \<ge> lf_interval s3
                            then logfile_flush env (s3\<lparr>lf_flush_sec := now\<rparr>)
                            else Inr s3
                    else Inr s2))"

section \<open>The contract of a log sink\<close>

definition logfile_bytes :: "logfile \<Rightarrow> string" where
  "logfile_bytes s = concat (map fa_data (lf_old s)) @ (case lf_file s of None \<Rightarrow> [] | Some a \<Rightarrow> fa_data a)"

text \<open>A sequence of appends, each in its own environment; it stops at the first error.\<close>

fun append_all :: "('env \<Rightarrow> string \<Rightarrow> 's \<Rightarrow> 'e + 's) \<Rightarrow> ('env \<times> string) list \<Rightarrow> 's \<Rightarrow> 'e + 's" where
  "append_all app [] s = Inr s"
| "append_all app (x # xs) s =
     (case app (fst x) (snd x) s of Inl e \<Rightarrow> Inl e | Inr t \<Rightarrow> append_all app xs t)"

locale log_sink =
  fixes app :: "'env \<Rightarrow> string \<Rightarrow> 's \<Rightarrow> 'e + 's"
    and flsh :: "'env \<Rightarrow> 's \<Rightarrow> 'e + 's"
    and bytes :: "'s \<Rightarrow> string"
  assumes app_bytes: "app env d s = Inr t \<Longrightarrow> bytes t = bytes s @ d"
    and flsh_bytes: "flsh env s = Inr t \<Longrightarrow> bytes t = bytes s"
begin

lemma append_all_bytes: "append_all app xs s = Inr t \<Longrightarrow> bytes t = bytes s @ concat (map snd xs)"
  by (induction xs arbitrary: s) (auto split: sum.splits dest: app_bytes)

lemma append_flush_bytes:
  "append_all app xs s = Inr t \<Longrightarrow> flsh env t = Inr u \<Longrightarrow> bytes u = bytes s @ concat (map snd xs)"
  using append_all_bytes flsh_bytes by metis

end

lemma rollFile_bytes: "rollFile env s = Inr t \<Longrightarrow> logfile_bytes t = logfile_bytes s"
  by (auto simp: rollFile_def Let_def logfile_bytes_def open_appender_def close_appender_def
      split: if_splits sum.splits option.splits)

lemma logfile_flush_bytes: "logfile_flush env s = Inr t \<Longrightarrow> logfile_bytes t = logfile_bytes s"
  by (auto simp: logfile_flush_def appender_flush_def logfile_bytes_def split: option.splits sum.splits if_splits)

lemma reset_current_bytes [simp]: "logfile_bytes (reset_current s) = logfile_bytes s"
  by (auto simp: reset_current_def resetWrittenBytes_def logfile_bytes_def split: option.splits)

lemma logfile_bytes_frame:
  "lf_old t = lf_old s \<Longrightarrow> lf_file t = lf_file s \<Longrightarrow> logfile_bytes t = logfile_bytes s"
  by (simp add: logfile_bytes_def)

lemma logfile_append_bytes:
  assumes "logfile_append env d s = Inr t"
  shows "logfile_bytes t = logfile_bytes s @ d"
proof -
  obtain a b where a: "lf_file s = Some a" "appender_append (fe_write env) d a = Inr b"
    using assms by (auto simp: logfile_append_def split: option.splits sum.splits)
  have d: "fa_data b = fa_data a @ d"
    using a(2) by (auto simp: appender_append_def split: if_splits fwrite_result.splits)
  have s1: "logfile_bytes (s\<lparr>lf_file := Some b, lf_count := c, lf_flush_sec := f\<rparr>) = logfile_bytes s @ d"
    "logfile_bytes (s\<lparr>lf_file := Some b, lf_count := c\<rparr>) = logfile_bytes s @ d"
    "logfile_bytes (s\<lparr>lf_file := Some b\<rparr>) = logfile_bytes s @ d" for c f
    using a(1) d by (simp_all add: logfile_bytes_def)
  show ?thesis
    using assms s1
    by (auto simp: logfile_append_def a Let_def split: if_splits sum.splits
        dest!: rollFile_bytes logfile_flush_bytes)
qed

interpretation file_sink: log_sink logfile_append logfile_flush logfile_bytes
  by unfold_locales (auto intro: logfile_append_bytes logfile_flush_bytes)

section \<open>Properties\<close>

text \<open>
  C34: rolling loses nothing. Whatever the clock does and however often the file is rolled or
  flushed, as long as no call fails the files written, one after the other, hold exactly what was
  appended, in order.\<close>

theorem logfile_keeps_everything:
  assumes "new_logfile junk env base pre roll interval = Inr s"
    and "append_all logfile_append xs s = Inr t" "logfile_flush env' t = Inr u"
  shows "logfile_bytes u = concat (map snd xs)"
proof -
  have "logfile_bytes s = []"
    using assms(1) by (auto simp: new_logfile_def rollFile_def Let_def logfile_bytes_def open_appender_def
        split: if_splits sum.splits)
  with file_sink.append_flush_bytes [OF assms(2,3)] show ?thesis by simp
qed

definition sample_env :: "int \<Rightarrow> file_env" where
  "sample_env now = \<lparr>fe_lt = (\<lambda>_. sample_tm), fe_now = now, fe_dir = Directory, fe_open = True,
     fe_write = Whole, fe_flush = True\<rparr>"

lemmas logfile_defs = new_logfile_def rollFile_def Let_def open_appender_def close_appender_def
  ensureDirectoryExists_def logfile_append_def appender_append_def logfile_flush_def appender_flush_def
  reset_current_def resetWrittenBytes_def sample_env_def

theorem logfile_keeps_everything_witness:
  "\<exists>u. logfile_bytes u = ''abcdefgh'' \<and> length (lf_old u) = 1"
proof -
  let ?xs = "[(sample_env 101, ''abcde''), (sample_env 101, ''fgh'')]"
  obtain s where s: "new_logfile 0 (sample_env 100) ''log'' ''app'' 4 3 = Inr s"
    by (simp add: logfile_defs)
  obtain t where t: "append_all logfile_append ?xs s = Inr t"
    using s by (auto simp: logfile_defs)
  obtain u where u: "logfile_flush (sample_env 101) t = Inr u" "length (lf_old u) = 1"
    using s t by (auto simp: logfile_defs)
  from logfile_keeps_everything [OF s t u(1)] u(2) show ?thesis
    by - (rule exI [of _ u], simp)
qed

text \<open>
  Two rolls in one second. When the limit is exceeded again in the second in which the
  file was opened, the file is not replaced, but its count of written bytes is reset: with a limit
  of 4 bytes a file of 15 bytes is still current and counts as empty.\<close>

theorem same_second_roll_grows:
  "(case new_logfile 0 (sample_env 100) ''log'' ''app'' 4 3 of
      Inl e \<Rightarrow> None
    | Inr s \<Rightarrow> (case append_all logfile_append (replicate 3 (sample_env 100, ''abcde'')) s of
        Inl e \<Rightarrow> None
      | Inr t \<Rightarrow> map_option (\<lambda>a. (length (fa_data a), fa_written a, lf_old t)) (lf_file t))) =
   Some (15, 0, [])"
  by (simp add: logfile_defs numeral_eq_Suc)

text \<open>
  The first file depends on uninitialised memory. If the memory of
  \<^verbatim>\<open>last_roll_second_\<close> happens to hold a value that is not before the current second, the
  constructor opens no file, and the first append dereferences a null pointer.\<close>

theorem logfile_uninitialised:
  assumes "fe_now env \<le> junk"
  shows "\<exists>s. new_logfile junk env base pre roll interval = Inr s \<and> lf_file s = None \<and>
    logfile_append env' data s = Inl NullFile"
  using assms by (auto simp: new_logfile_def rollFile_def Let_def logfile_append_def)

theorem logfile_uninitialised_witness:
  "\<exists>s. new_logfile 7000000000 (sample_env 100) ''log'' ''app'' 4 3 = Inr s \<and> lf_file s = None \<and>
    logfile_append (sample_env 101) ''x'' s = Inl NullFile"
  by (rule logfile_uninitialised) (simp add: sample_env_def)


section \<open>The size of the files\<close>

text \<open>
  While the clock advances from call to call, a roll always opens a new file, so what was written
  to a file is counted exactly and no closed file exceeds the limit by more than the last line.
\<close>

definition files_bounded :: "nat \<Rightarrow> nat \<Rightarrow> int \<Rightarrow> logfile \<Rightarrow> bool" where
  "files_bounded r len now s \<longleftrightarrow> lf_roll s = r \<and> lf_roll_sec s \<le> now \<and>
     (\<forall>b \<in> set (lf_old s). length (fa_data b) \<le> r + len) \<and>
     (case lf_file s of None \<Rightarrow> False | Some a \<Rightarrow> fa_written a = length (fa_data a) \<and> length (fa_data a) \<le> r)"

lemma rollFile_new:
  assumes "rollFile env s = Inr t" "lf_roll_sec s < fe_now env"
  obtains a where "lf_file t = Some a" "fa_data a = []" "fa_written a = 0" "lf_roll_sec t = fe_now env"
    "lf_roll t = lf_roll s" "lf_old t = lf_old s @ (case lf_file s of None \<Rightarrow> [] | Some b \<Rightarrow> [close_appender b])"
  using assms that
  by (auto simp: rollFile_def Let_def open_appender_def split: sum.splits if_splits)

lemma files_bounded_append:
  assumes s: "files_bounded r len now s" and now: "now < fe_now env" and d: "length d \<le> len"
    and app: "logfile_append env d s = Inr t"
  shows "files_bounded r len (fe_now env) t"
proof -
  obtain a where a: "lf_file s = Some a" "fa_written a = length (fa_data a)" "length (fa_data a) \<le> r"
    using s by (auto simp: files_bounded_def split: option.splits)
  obtain b where b: "appender_append (fe_write env) d a = Inr b"
    using app a(1) by (auto simp: logfile_append_def split: sum.splits)
  then have bd: "fa_data b = fa_data a @ d" "fa_written b = length (fa_data b)"
    using a(2) by (auto simp: appender_append_def split: if_splits fwrite_result.splits)
  define s1 where "s1 = s\<lparr>lf_file := Some b\<rparr>"
  have s1: "lf_file s1 = Some b" "lf_roll s1 = r" "lf_roll_sec s1 < fe_now env"
    "\<forall>b \<in> set (lf_old s1). length (fa_data b) \<le> r + len"
    using s now by (simp_all add: s1_def files_bounded_def)
  have len: "length (fa_data b) \<le> r + len" using a(3) d bd(1) by simp
  have rolled: "files_bounded r len (fe_now env) u" if v: "rollFile env v = Inr u" "lf_file v = Some b"
    "lf_roll v = r" "lf_roll_sec v < fe_now env" "lf_old v = lf_old s1" for v u
  proof -
    obtain x where x: "lf_file u = Some x" "fa_data x = []" "fa_written x = 0" "lf_roll_sec u = fe_now env"
      "lf_roll u = lf_roll v" "lf_old u = lf_old v @ (case lf_file v of None \<Rightarrow> [] | Some b \<Rightarrow> [close_appender b])"
      by (rule rollFile_new [OF v(1,4)])
    with v(2,3,5) s1(4) len show ?thesis by (simp add: files_bounded_def close_appender_def)
  qed
  have reset: "files_bounded r len n (reset_current u)" if "files_bounded r len n u" "lf_file u = Some x" "fa_data x = []" for n u x
    using that by (simp add: files_bounded_def reset_current_def resetWrittenBytes_def)
  show ?thesis
  proof (cases "fa_written b > r")
    case True
    then obtain u where u: "rollFile env s1 = Inr u" "t = reset_current u"
      using app a(1) b s1(2) by (auto simp: logfile_append_def s1_def Let_def split: sum.splits)
    obtain x where "lf_file u = Some x" "fa_data x = []" by (rule rollFile_new [OF u(1) s1(3)])
    with rolled [OF u(1) s1(1-3)] reset u(2) show ?thesis by simp
  next
    case False
    have kept: "files_bounded r len (fe_now env) (s1\<lparr>lf_count := c, lf_flush_sec := f\<rparr>)"
      "files_bounded r len (fe_now env) (s1\<lparr>lf_count := c\<rparr>)" for c f
      using s1 bd(2) False by (simp_all add: files_bounded_def)
    have flushed: "files_bounded r len (fe_now env) u" if "logfile_flush env (s1\<lparr>lf_count := c, lf_flush_sec := f\<rparr>) = Inr u" for c f u
      using that s1 bd(2) False
      by (auto simp: files_bounded_def logfile_flush_def appender_flush_def split: if_splits)
    from app a(1) b False s1(2) kept flushed rolled s1
    show ?thesis
      by (auto simp: logfile_append_def Let_def s1_def [symmetric] split: if_splits)
  qed
qed

fun clocks_advance :: "int \<Rightarrow> (file_env \<times> string) list \<Rightarrow> bool" where
  "clocks_advance now [] = True"
| "clocks_advance now (x # xs) = (now < fe_now (fst x) \<and> clocks_advance (fe_now (fst x)) xs)"

lemma files_bounded_run:
  "files_bounded r len now s \<Longrightarrow> clocks_advance now xs \<Longrightarrow> \<forall>x \<in> set xs. length (snd x) \<le> len \<Longrightarrow>
   append_all logfile_append xs s = Inr t \<Longrightarrow> \<exists>now. files_bounded r len now t"
proof (induction xs arbitrary: now s)
  case (Cons x xs)
  then obtain u where "logfile_append (fst x) (snd x) s = Inr u" "append_all logfile_append xs u = Inr t"
    by (auto split: sum.splits)
  with Cons files_bounded_append [of r len now s "fst x" "snd x" u] show ?case by auto
qed auto

lemma new_logfile_bounded:
  "new_logfile junk env base pre roll interval = Inr s \<Longrightarrow> junk < fe_now env \<Longrightarrow> files_bounded roll len (fe_now env) s"
  by (auto simp: new_logfile_def rollFile_def Let_def files_bounded_def open_appender_def split: sum.splits if_splits)



section \<open>Where errors come from\<close>

text \<open>What an exception says of the environment of the call.\<close>

fun explains :: "file_env \<Rightarrow> string \<Rightarrow> log_error \<Rightarrow> bool" where
  "explains env d StatusFailed = (fe_dir env = StatusError)"
| "explains env d NoDirectory = (fe_dir env = Missing)"
| "explains env d NotDirectory = (fe_dir env = PlainFile)"
| "explains env d OpenFailed = (\<not> fe_open env \<and> fe_dir env \<in> {NoParent, Directory})"
| "explains env d WriteFailed = (d \<noteq> [] \<and> fe_write env = Short True)"
| "explains env d PartialWrite = (d \<noteq> [] \<and> fe_write env = Short False)"
| "explains env d FlushFailed = (\<not> fe_flush env)"
| "explains env d NullFile = False"

lemma rollFile_error: "rollFile env s = Inl e \<Longrightarrow> explains env d e"
  by (cases "fe_dir env")
    (auto simp: rollFile_def Let_def open_appender_def ensureDirectoryExists_def split: if_splits sum.splits)

lemma logfile_append_error:
  assumes "logfile_append env d s = Inl e" "lf_file s \<noteq> None"
  shows "explains env d e"
proof -
  obtain a where a: "lf_file s = Some a" using assms(2) by auto
  show ?thesis
  proof (cases "appender_append (fe_write env) d a")
    case (Inl e')
    with assms(1) a show ?thesis
      by (auto simp: logfile_append_def appender_append_def split: if_splits fwrite_result.splits)
  next
    case (Inr b)
    have "logfile_flush env v = Inl e \<Longrightarrow> lf_file v = Some b \<Longrightarrow> explains env d e" for v
      by (auto simp: logfile_flush_def appender_flush_def split: if_splits)
    with assms(1) a Inr show ?thesis
      by (auto simp: logfile_append_def Let_def split: if_splits sum.splits dest: rollFile_error)
  qed
qed

lemma logfile_append_open:
  assumes "logfile_append env d s = Inr t"
  shows "lf_file t \<noteq> None"
proof -
  have "lf_file u \<noteq> None" if "rollFile env v = Inr u" "lf_file v \<noteq> None" for u v
    using that by (auto simp: rollFile_def Let_def split: if_splits sum.splits)
  moreover have "lf_file u \<noteq> None" if "logfile_flush env v = Inr u" for u v
    using that by (auto simp: logfile_flush_def split: option.splits sum.splits)
  ultimately show ?thesis
    using assms
    by (auto simp: logfile_append_def Let_def reset_current_def split: option.splits sum.splits if_splits)
qed

text \<open>
  C36: every exception has its cause. If the constructor opened a file and a sequence of appends
  ends with an exception, then one of the calls met in its environment just the failure that the
  exception names, and none dereferences a null pointer to the file.\<close>

theorem logfile_errors_explained:
  assumes "new_logfile junk env base pre roll interval = Inr s" "junk < fe_now env"
    and "append_all logfile_append xs s = Inl e"
  shows "\<exists>x \<in> set xs. explains (fst x) (snd x) e"
proof -
  have "lf_file s \<noteq> None"
    using new_logfile_bounded [OF assms(1,2), of 0] by (auto simp: files_bounded_def split: option.splits)
  then show ?thesis
    using assms(3)
  proof (induction xs arbitrary: s)
    case (Cons x xs)
    show ?case
    proof (cases "logfile_append (fst x) (snd x) s")
      case (Inl e')
      with Cons.prems logfile_append_error [OF Inl] show ?thesis by auto
    next
      case (Inr u)
      with Cons.prems Cons.IH [OF logfile_append_open [OF Inr]] show ?thesis by auto
    qed
  qed simp
qed

theorem logfile_errors_explained_witness:
  "\<exists>s. new_logfile 0 (sample_env 100) ''log'' ''app'' 4 3 = Inr s \<and>
     append_all logfile_append [(sample_env 101, ''abc''), ((sample_env 102)\<lparr>fe_dir := Missing\<rparr>, ''def'')] s = Inl NoDirectory \<and>
     (explains (sample_env 101) ''abc'' NoDirectory \<or> explains ((sample_env 102)\<lparr>fe_dir := Missing\<rparr>) ''def'' NoDirectory)"
proof -
  let ?xs = "[(sample_env 101, ''abc''), ((sample_env 102)\<lparr>fe_dir := Missing\<rparr>, ''def'')]"
  obtain s where s: "new_logfile 0 (sample_env 100) ''log'' ''app'' 4 3 = Inr s"
    by (simp add: logfile_defs)
  have e: "append_all logfile_append ?xs s = Inl NoDirectory"
    using s by (auto simp: logfile_defs)
  have "0 < fe_now (sample_env 100)" by (simp add: sample_env_def)
  from logfile_errors_explained [OF s this e] s e show ?thesis by (intro exI [of _ s]) simp
qed

end
