(* ===== verification/Elog_Async.thy ===== *)
theory Elog_Async
  imports Prelude "HOL-Library.Code_Target_Nat"
begin

text \<open>
  The asynchronous logger: \<^verbatim>\<open>FixedBuffer\<close> (\<^verbatim>\<open>elog/fixed_buffer.hpp\<close>) and
  \<^verbatim>\<open>AsyncLogging\<close> (\<^verbatim>\<open>elog/async_logging.cpp\<close>), as an interleaved machine of
  any number of threads that log, the writing thread, and the thread that shuts it down. A message
  is any value; its text is the matter of \<^verbatim>\<open>Elog_Text\<close>, the file that of
  \<^verbatim>\<open>Elog_File\<close>.
\<close>

section \<open>\<^verbatim>\<open>FixedBuffer\<close>\<close>

text \<open>\<open>fb_ok\<close>: the array exists, that is, the buffer was not moved from.\<close>

record 'c fbuf =
  fb_ok :: bool
  fb_items :: "'c list"

definition fb_new :: "'c fbuf" where
  "fb_new = \<lparr>fb_ok = True, fb_items = []\<rparr>"

definition fb_moved :: "'c fbuf" where
  "fb_moved = \<lparr>fb_ok = False, fb_items = []\<rparr>"

text \<open>
  Move assignment: the target, the source, and whether the array that the target owned has
  been forgotten without being deleted.
\<close>

definition fb_assign :: "'c fbuf \<Rightarrow> 'c fbuf \<Rightarrow> 'c fbuf \<times> 'c fbuf \<times> bool" where
  "fb_assign lhs rhs = (rhs, fb_moved, fb_ok lhs)"

definition fb_empty :: "'c fbuf \<Rightarrow> bool" where
  "fb_empty b \<longleftrightarrow> length (fb_items b) = 0"

definition fb_full :: "nat \<Rightarrow> 'c fbuf \<Rightarrow> bool" where
  "fb_full cap b \<longleftrightarrow> length (fb_items b) = cap"

definition fb_push :: "nat \<Rightarrow> 'c \<Rightarrow> 'c fbuf \<Rightarrow> 'c fbuf option" where
  "fb_push cap c b =
     (if \<not> fb_ok b then None
      else if \<not> fb_full cap b then Some (b\<lparr>fb_items := fb_items b @ [c]\<rparr>) else Some b)"

definition fb_reset :: "'c fbuf \<Rightarrow> 'c fbuf" where
  "fb_reset b = b\<lparr>fb_items := []\<rparr>"

section \<open>State\<close>

text \<open>
  The writer is before the test of \<^verbatim>\<open>done_\<close>, before it locks, in
  \<^verbatim>\<open>wait_for\<close>, about to write, about to flush for the last time, or has returned.
\<close>

datatype writer = WCheck | WLock | WSleep | WWrite | WLast | WExit

datatype 'c line = Msg 'c | DropNote nat

text \<open>
  \<open>entered p\<close>: the message of a thread that has passed the test of \<^verbatim>\<open>done_\<close> and has
  not locked yet. \<open>accepted\<close>: the messages in the order in which their threads held the lock;
  \<open>out\<close>: the lines given to the log file. \<open>leaks\<close> counts forgotten arrays; \<open>assert_failed\<close>:
  a message was pushed into a buffer without an array.
\<close>

record 'c async =
  cap :: nat
  done_flag :: bool
  cur_buf :: "'c fbuf"
  next_buf :: "'c fbuf"
  bufs :: "'c fbuf list"
  new_buf1 :: "'c fbuf"
  new_buf2 :: "'c fbuf"
  buf2write :: "'c fbuf list"
  writer_pc :: writer
  entered :: "nat \<Rightarrow> 'c option"
  accepted :: "'c list"
  out :: "'c line list"
  leaks :: nat
  assert_failed :: bool

definition init_async :: "nat \<Rightarrow> 'c async" where
  "init_async n = \<lparr>cap = n, done_flag = False, cur_buf = fb_new, next_buf = fb_new, bufs = [],
     new_buf1 = fb_new, new_buf2 = fb_new, buf2write = [], writer_pc = WCheck, entered = (\<lambda>_. None),
     accepted = [], out = [], leaks = 0, assert_failed = False\<rparr>"

definition leak_if :: "bool \<Rightarrow> 'c async \<Rightarrow> 'c async" where
  "leak_if b s = (if b then s\<lparr>leaks := Suc (leaks s)\<rparr> else s)"

section \<open>\<^verbatim>\<open>pushMessage\<close>\<close>

definition push_enter :: "nat \<Rightarrow> 'c \<Rightarrow> 'c async \<Rightarrow> 'c async option" where
  "push_enter p c s =
     (if entered s p \<noteq> None then None
      else Some (if done_flag s then s else s\<lparr>entered := (entered s)(p \<mapsto> c)\<rparr>))"

definition push_cur :: "'c \<Rightarrow> 'c async \<Rightarrow> 'c async" where
  "push_cur c s =
     (case fb_push (cap s) c (cur_buf s) of
        None \<Rightarrow> s\<lparr>assert_failed := True\<rparr>
      | Some b \<Rightarrow> s\<lparr>cur_buf := b, accepted := accepted s @ [c]\<rparr>)"

text \<open>The section under the lock, when the current buffer is full and when it is not.\<close>

definition push_rotate :: "'c async \<Rightarrow> 'c async" where
  "push_rotate s =
     (let s1 = s\<lparr>bufs := bufs s @ [cur_buf s], cur_buf := fb_moved\<rparr> in
      if fb_ok (next_buf s1)
      then let (b, r, l) = fb_assign (cur_buf s1) (next_buf s1)
           in leak_if l (s1\<lparr>cur_buf := b, next_buf := r\<rparr>)
      else let (b, r, l) = fb_assign (cur_buf s1) fb_new in leak_if l (s1\<lparr>cur_buf := b\<rparr>))"

definition push_locked :: "nat \<Rightarrow> 'c async \<Rightarrow> 'c async option" where
  "push_locked p s =
     (case entered s p of
        None \<Rightarrow> None
      | Some c \<Rightarrow>
          let s1 = s\<lparr>entered := (entered s)(p := None)\<rparr> in
          Some (push_cur c (if \<not> fb_full (cap s1) (cur_buf s1) then s1 else push_rotate s1)))"

section \<open>\<^verbatim>\<open>threadWorker\<close>\<close>

text \<open>The section under the lock, after the wait.\<close>

definition writer_swap :: "'c async \<Rightarrow> 'c async" where
  "writer_swap s =
     (let s1 = (if \<not> fb_empty (cur_buf s)
            then let (b, r, l) = fb_assign fb_moved (new_buf1 s) in
                 leak_if l (s\<lparr>bufs := bufs s @ [cur_buf s], cur_buf := b, new_buf1 := r\<rparr>)
            else s);
          s2 = s1\<lparr>buf2write := bufs s1, bufs := buf2write s1\<rparr>;
          s3 = (if \<not> fb_ok (next_buf s2)
            then let (b, r, l) = fb_assign (next_buf s2) (new_buf2 s2) in
                 leak_if l (s2\<lparr>next_buf := b, new_buf2 := r\<rparr>)
            else s2)
      in s3\<lparr>writer_pc := if buf2write s3 = [] then WCheck else WWrite\<rparr>)"

text \<open>Writing out the buffers without the lock, and keeping two of them for the next round.\<close>

definition writer_drop :: "'c async \<Rightarrow> 'c async" where
  "writer_drop s =
     (if length (buf2write s) > 100
      then s\<lparr>out := out s @ [DropNote (length (buf2write s) - 2)], buf2write := take 2 (buf2write s)\<rparr>
      else s)"

definition writer_write :: "'c async \<Rightarrow> 'c async" where
  "writer_write s = s\<lparr>out := out s @ map Msg (concat (map fb_items (buf2write s)))\<rparr>"

definition writer_recycle :: "'c async \<Rightarrow> 'c async" where
  "writer_recycle s =
     (let bs = (if length (buf2write s) < 2
                then buf2write s @ replicate (2 - length (buf2write s)) fb_new else buf2write s);
          s1 = (if \<not> fb_ok (new_buf1 s)
                then let (b, r, l) = fb_assign (new_buf1 s) (bs ! 0) in
                     leak_if l (s\<lparr>new_buf1 := fb_reset b, buf2write := bs[0 := r]\<rparr>)
                else s\<lparr>buf2write := bs\<rparr>);
          s2 = (if \<not> fb_ok (new_buf2 s1)
                then let (b, r, l) = fb_assign (new_buf2 s1) (buf2write s1 ! 1) in
                     leak_if l (s1\<lparr>new_buf2 := fb_reset b, buf2write := (buf2write s1)[1 := r]\<rparr>)
                else s1)
      in s2\<lparr>buf2write := [], writer_pc := WCheck\<rparr>)"

definition writer_step :: "'c async \<Rightarrow> 'c async option" where
  "writer_step s =
     (case writer_pc s of
        WCheck \<Rightarrow> Some (s\<lparr>writer_pc := if done_flag s then WLast else WLock\<rparr>)
      | WLock \<Rightarrow> Some (if bufs s = [] then s\<lparr>writer_pc := WSleep\<rparr> else writer_swap s)
      | WSleep \<Rightarrow> Some (writer_swap s)
      | WWrite \<Rightarrow> Some (writer_recycle (writer_write (writer_drop s)))
      | WLast \<Rightarrow> Some (s\<lparr>writer_pc := WExit\<rparr>)
      | WExit \<Rightarrow> None)"

section \<open>\<^verbatim>\<open>doDone\<close> and the destructor\<close>

text \<open>
  \<^verbatim>\<open>doDone\<close> sets \<^verbatim>\<open>done_\<close>, wakes the writer, and returns when the writer has left, which
  is \<open>joined_writer\<close>; the destructor and \<^verbatim>\<open>wait4Done\<close> call it unless \<^verbatim>\<open>done_\<close> is set. The
  notification needs no step of its own: the writer's wait may end at any time.
\<close>

definition doDone :: "'c async \<Rightarrow> 'c async" where
  "doDone s = s\<lparr>done_flag := True\<rparr>"

definition joined_writer :: "'c async \<Rightarrow> bool" where
  "joined_writer s \<longleftrightarrow> writer_pc s = WExit"

definition end_async :: "'c async \<Rightarrow> 'c async" where
  "end_async s = (if done_flag s then s else doDone s)"

definition wait4Done :: "'c async \<Rightarrow> 'c async" where
  "wait4Done s = (if done_flag s then s else doDone s)"

lemma end_async_eq [simp]: "end_async s = s\<lparr>done_flag := True\<rparr>" "wait4Done s = s\<lparr>done_flag := True\<rparr>"
  by (cases s; simp add: end_async_def wait4Done_def doDone_def)+

section \<open>The machine\<close>

datatype 'c async_act = Enter nat 'c | Locked nat | Writer | Finish

fun async_step :: "'c async \<Rightarrow> 'c async_act \<Rightarrow> 'c async option" where
  "async_step s (Enter p c) = push_enter p c s"
| "async_step s (Locked p) = push_locked p s"
| "async_step s Writer = writer_step s"
| "async_step s Finish = Some (end_async s)"

section \<open>The invariant\<close>

fun msgs :: "'c line list \<Rightarrow> 'c list" where
  "msgs [] = []"
| "msgs (Msg c # ls) = c # msgs ls"
| "msgs (DropNote n # ls) = msgs ls"

definition drops :: "'c line list \<Rightarrow> bool" where
  "drops ls \<longleftrightarrow> list_ex (case_line (\<lambda>_. False) (\<lambda>_. True)) ls"

lemma msgs_append [simp]: "msgs (xs @ ys) = msgs xs @ msgs ys"
  by (induction xs rule: msgs.induct) auto

lemma msgs_map [simp]: "msgs (map Msg cs) = cs"
  by (induction cs) auto

lemma drops_append [simp]: "drops (xs @ ys) \<longleftrightarrow> drops xs \<or> drops ys"
  by (simp add: drops_def)

lemma drops_simps [simp]: "\<not> drops (map Msg cs)" "drops [DropNote n]"
  by (auto simp: drops_def list_ex_iff)

text \<open>What the logger holds, in the order in which it was accepted.\<close>

definition waiting :: "'c async \<Rightarrow> 'c list" where
  "waiting s = concat (map fb_items (buf2write s)) @ concat (map fb_items (bufs s)) @ fb_items (cur_buf s)"

definition fifo :: "'c async \<Rightarrow> bool" where
  "fifo s \<longleftrightarrow> subseq (msgs (out s) @ waiting s) (accepted s) \<and>
     (\<not> drops (out s) \<longrightarrow> msgs (out s) @ waiting s = accepted s)"

definition buffers_ok :: "'c async \<Rightarrow> bool" where
  "buffers_ok s \<longleftrightarrow> 0 < cap s \<and> fb_ok (cur_buf s) \<and> length (fb_items (cur_buf s)) \<le> cap s \<and>
     (\<forall>b \<in> set (bufs s). fb_ok b) \<and> (\<forall>b \<in> set (buf2write s). fb_ok b) \<and>
     fb_items (next_buf s) = [] \<and> fb_items (new_buf1 s) = [] \<and> fb_items (new_buf2 s) = [] \<and>
     (fb_ok (next_buf s) \<or> bufs s \<noteq> []) \<and>
     (if writer_pc s = WWrite then buf2write s \<noteq> []
      else buf2write s = [] \<and> fb_ok (new_buf1 s) \<and> fb_ok (new_buf2 s)) \<and>
     leaks s = 0 \<and> \<not> assert_failed s"

definition async_ok :: "'c async \<Rightarrow> bool" where
  "async_ok s \<longleftrightarrow> buffers_ok s \<and> fifo s"

lemma async_ok_init: "0 < n \<Longrightarrow> async_ok (init_async n)"
  by (simp add: async_ok_def buffers_ok_def fifo_def init_async_def fb_new_def waiting_def)

lemmas fb_defs = fb_assign_def fb_moved_def fb_new_def fb_empty_def fb_full_def fb_push_def fb_reset_def
  leak_if_def

text \<open>Moving the full current buffer away makes room for the next message.\<close>

lemma push_rotate_ok:
  assumes "buffers_ok s" "fb_full (cap s) (cur_buf s)"
  shows "buffers_ok (push_rotate s)" "waiting (push_rotate s) = waiting s"
    "\<not> fb_full (cap (push_rotate s)) (cur_buf (push_rotate s))"
    "out (push_rotate s) = out s" "accepted (push_rotate s) = accepted s"
  using assms
  by (auto simp: push_rotate_def Let_def fb_defs buffers_ok_def waiting_def)

lemma push_cur_ok:
  assumes "buffers_ok s" "\<not> fb_full (cap s) (cur_buf s)"
  shows "buffers_ok (push_cur c s)" "waiting (push_cur c s) = waiting s @ [c]"
    "out (push_cur c s) = out s" "accepted (push_cur c s) = accepted s @ [c]"
  using assms
  by (auto simp: push_cur_def fb_defs buffers_ok_def waiting_def)

lemma async_ok_locked:
  assumes "async_ok s" "push_locked p s = Some t"
  shows "async_ok t"
proof -
  obtain c where c: "entered s p = Some c" using assms(2) by (auto simp: push_locked_def split: option.splits)
  let ?s = "s\<lparr>entered := (entered s)(p := None)\<rparr>"
  let ?u = "if \<not> fb_full (cap ?s) (cur_buf ?s) then ?s else push_rotate ?s"
  have t: "t = push_cur c ?u" using assms(2) c by (simp add: push_locked_def Let_def)
  have b: "buffers_ok ?s" and f: "fifo ?s"
    using assms(1) by (simp_all add: async_ok_def buffers_ok_def fifo_def waiting_def)
  have u: "buffers_ok ?u" "waiting ?u = waiting ?s" "\<not> fb_full (cap ?u) (cur_buf ?u)"
    "out ?u = out ?s" "accepted ?u = accepted ?s"
    using push_rotate_ok [OF b] b by (simp_all split: if_splits)
  have "fifo t"
    using f push_cur_ok [OF u(1,3), of c] u(2,4,5)
    unfolding t fifo_def by (simp flip: append_assoc)
  then show ?thesis using push_cur_ok(1) [OF u(1,3), of c] by (simp add: async_ok_def t)
qed

lemma writer_swap_ok:
  assumes "async_ok s" "buf2write s = []" "fb_ok (new_buf1 s)" "fb_ok (new_buf2 s)"
  shows "async_ok (writer_swap s)"
proof -
  have f: "fifo s" and b: "buffers_ok s" using assms(1) by (simp_all add: async_ok_def)
  have "waiting (writer_swap s) = waiting s" "out (writer_swap s) = out s"
    "accepted (writer_swap s) = accepted s"
    using b assms(2)
    by (auto simp: writer_swap_def Let_def fb_defs waiting_def buffers_ok_def)
  then have "fifo (writer_swap s)" using f by (simp add: fifo_def)
  moreover have "buffers_ok (writer_swap s)"
    using b assms(2-4)
    by (auto simp: writer_swap_def Let_def fb_defs buffers_ok_def)
  ultimately show ?thesis by (simp add: async_ok_def)
qed

lemma concat_take_subseq: "subseq (concat (take n xss)) (concat xss)"
  by (metis append_take_drop_id concat_append prefixI prefix_imp_subseq)


lemma writer_drop_ok:
  assumes "async_ok s" "writer_pc s = WWrite"
  shows "async_ok (writer_drop s)" "writer_pc (writer_drop s) = WWrite"
proof -
  have b: "buffers_ok s" and f: "fifo s" using assms(1) by (simp_all add: async_ok_def)
  let ?rest = "concat (map fb_items (bufs s)) @ fb_items (cur_buf s)"
  have "subseq (msgs (out s) @ concat (map fb_items (take 2 (buf2write s))) @ ?rest)
      (msgs (out s) @ concat (map fb_items (buf2write s)) @ ?rest)"
    by (intro list_emb_append_mono subseq_order.order_refl)
      (simp add: take_map concat_take_subseq flip: take_map)
  also have "subseq \<dots> (accepted s)" using f by (simp add: fifo_def waiting_def)
  finally have "fifo (writer_drop s)" using f by (simp add: writer_drop_def fifo_def waiting_def)
  moreover have "buffers_ok (writer_drop s)"
    using b assms(2) by (auto simp: writer_drop_def buffers_ok_def dest: in_set_takeD)
  ultimately show "async_ok (writer_drop s)" by (simp add: async_ok_def)
  show "writer_pc (writer_drop s) = WWrite" using assms(2) by (simp add: writer_drop_def)
qed

lemma writer_recycle_write_ok:
  assumes "async_ok s" "writer_pc s = WWrite"
  shows "async_ok (writer_recycle (writer_write s))"
proof -
  have b: "buffers_ok s" and f: "fifo s" using assms(1) by (simp_all add: async_ok_def)
  have "buf2write s \<noteq> []" using b assms(2) by (simp add: buffers_ok_def)
  then obtain b1 bs where b1: "buf2write s = b1 # bs" by (cases "buf2write s") auto
  have ok1: "fb_ok b1" "\<And>b2 bs'. bs = b2 # bs' \<Longrightarrow> fb_ok b2"
    using b by (auto simp: buffers_ok_def b1)
  have fields: "out (writer_recycle t) = out t \<and> bufs (writer_recycle t) = bufs t \<and>
      cur_buf (writer_recycle t) = cur_buf t \<and> buf2write (writer_recycle t) = [] \<and>
      accepted (writer_recycle t) = accepted t \<and> cap (writer_recycle t) = cap t \<and>
      next_buf (writer_recycle t) = next_buf t \<and> writer_pc (writer_recycle t) = WCheck \<and>
      assert_failed (writer_recycle t) = assert_failed t" for t :: "'a async"
    by (simp add: writer_recycle_def Let_def fb_assign_def leak_if_def)
  have wr: "bufs (writer_write s) = bufs s" "cur_buf (writer_write s) = cur_buf s"
    "accepted (writer_write s) = accepted s" "cap (writer_write s) = cap s"
    "next_buf (writer_write s) = next_buf s" "assert_failed (writer_write s) = assert_failed s"
    "out (writer_write s) = out s @ map Msg (concat (map fb_items (buf2write s)))"
    by (simp_all add: writer_write_def)
  have "fifo (writer_recycle (writer_write s))"
    using f fields [of "writer_write s"] unfolding fifo_def waiting_def by (simp add: wr)
  moreover have "fb_ok (new_buf1 (writer_recycle (writer_write s))) \<and>
      fb_ok (new_buf2 (writer_recycle (writer_write s))) \<and>
      fb_items (new_buf1 (writer_recycle (writer_write s))) = [] \<and>
      fb_items (new_buf2 (writer_recycle (writer_write s))) = [] \<and>
      leaks (writer_recycle (writer_write s)) = 0"
    using b ok1
    by (cases bs) (auto simp: writer_recycle_def writer_write_def Let_def fb_defs b1 buffers_ok_def)
  then have "buffers_ok (writer_recycle (writer_write s))"
    using b fields [of "writer_write s"] unfolding buffers_ok_def by (simp add: wr)
  ultimately show ?thesis by (simp add: async_ok_def)
qed

lemma async_ok_pc:
  "async_ok s \<Longrightarrow> writer_pc s \<noteq> WWrite \<Longrightarrow> pc \<noteq> WWrite \<Longrightarrow> async_ok (s\<lparr>writer_pc := pc\<rparr>)"
  unfolding async_ok_def buffers_ok_def fifo_def waiting_def by auto

lemma cap_simps [simp]:
  "cap (leak_if b s) = cap s" "cap (push_rotate s) = cap s" "cap (push_cur c s) = cap s"
  "cap (writer_swap s) = cap s" "cap (writer_drop s) = cap s" "cap (writer_write s) = cap s"
  "cap (writer_recycle s) = cap s"
  by (simp_all add: leak_if_def push_rotate_def push_cur_def writer_swap_def writer_drop_def
      writer_write_def writer_recycle_def Let_def fb_assign_def split: option.split)

lemma cap_step: "async_step s a = Some t \<Longrightarrow> cap t = cap s"
  by (cases a)
    (auto simp: push_enter_def push_locked_def writer_step_def Let_def
      split: if_splits option.splits writer.splits)

lemma async_ok_writer:
  assumes "async_ok s" "writer_step s = Some t"
  shows "async_ok t"
proof -
  have idle: "buf2write s = []" "fb_ok (new_buf1 s)" "fb_ok (new_buf2 s)" if "writer_pc s \<noteq> WWrite"
    using assms(1) that by (simp_all add: async_ok_def buffers_ok_def)
  show ?thesis
  proof (cases "writer_pc s")
    case WCheck
    with assms show ?thesis using async_ok_pc [of s] by (auto simp: writer_step_def)
  next
    case WLock
    with assms idle show ?thesis using async_ok_pc [of s WSleep] writer_swap_ok [of s]
      by (auto simp: writer_step_def split: if_splits)
  next
    case WSleep
    with assms idle show ?thesis using writer_swap_ok [of s] by (auto simp: writer_step_def)
  next
    case WWrite
    with assms(2) have "t = writer_recycle (writer_write (writer_drop s))" by (simp add: writer_step_def)
    then show ?thesis
      using writer_recycle_write_ok [OF writer_drop_ok [OF assms(1) WWrite]] by simp
  next
    case WLast
    with assms show ?thesis using async_ok_pc [of s WExit] by (auto simp: writer_step_def)
  next
    case WExit
    with assms(2) show ?thesis by (simp add: writer_step_def)
  qed
qed

lemma async_ok_step:
  assumes "async_ok s" "async_step s a = Some t"
  shows "async_ok t"
proof (cases a)
  case (Enter p c)
  then have "t = s \<or> t = s\<lparr>entered := (entered s)(p \<mapsto> c)\<rparr>"
    using assms(2) by (simp add: push_enter_def split: if_splits)
  then show ?thesis
    using assms(1) by (elim disjE) (simp_all add: async_ok_def buffers_ok_def fifo_def waiting_def)
next
  case (Locked p)
  then have "push_locked p s = Some t" using assms(2) by simp
  then show ?thesis by (rule async_ok_locked [OF assms(1)])
next
  case Writer
  then have "writer_step s = Some t" using assms(2) by simp
  then show ?thesis by (rule async_ok_writer [OF assms(1)])
next
  case Finish
  then have "t = s\<lparr>done_flag := True\<rparr>" using assms(2) by simp
  then show ?thesis using assms(1) by (simp add: async_ok_def buffers_ok_def fifo_def waiting_def)
qed

interpretation async_machine: machine async_step async_ok
  by unfold_locales (rule async_ok_step)

section \<open>The writer catches up\<close>

text \<open>
  \<open>writes_all m s\<close>: within \<open>m\<close> rounds of the writer alone, nothing waits in a buffer.
\<close>

definition writes_all :: "nat \<Rightarrow> 'c async \<Rightarrow> bool" where
  "writes_all m s \<longleftrightarrow> (\<exists>k\<le>m. \<exists>t::'c async. exec_all async_step s (replicate k Writer) = Some t \<and>
     waiting t = [] \<and> accepted t = accepted s)"

lemma writes_all_now: "waiting s = [] \<Longrightarrow> writes_all m s"
  unfolding writes_all_def by (intro exI [of _ 0] exI [of _ s]) simp

lemma writes_all_step:
  assumes "writer_step s = Some u" "accepted u = accepted s" "writes_all m u"
  shows "writes_all (Suc m) s"
proof -
  obtain k t where "k \<le> m" "exec_all async_step u (replicate k Writer) = Some t" "waiting t = []"
    "accepted t = accepted u"
    using assms(3) by (auto simp: writes_all_def)
  then have "Suc k \<le> Suc m \<and> exec_all async_step s (replicate (Suc k) Writer) = Some t \<and>
    waiting t = [] \<and> accepted t = accepted s"
    using assms(1,2) by simp
  then show ?thesis unfolding writes_all_def by blast
qed

lemma writes_all_mono: "writes_all m s \<Longrightarrow> m \<le> k \<Longrightarrow> writes_all k s"
  unfolding writes_all_def by (meson order_trans)

lemma writer_swap_empties:
  "buf2write s = [] \<Longrightarrow> bufs (writer_swap s) = [] \<and> (fb_items (new_buf1 s) = [] \<longrightarrow> fb_items (cur_buf (writer_swap s)) = []) \<and>
   accepted (writer_swap s) = accepted s \<and>
   writer_pc (writer_swap s) = (if buf2write (writer_swap s) = [] then WCheck else WWrite)"
  by (auto simp: writer_swap_def Let_def fb_defs)

lemma writer_write_empties:
  "buf2write (writer_recycle (writer_write (writer_drop s))) = [] \<and>
   bufs (writer_recycle (writer_write (writer_drop s))) = bufs s \<and>
   cur_buf (writer_recycle (writer_write (writer_drop s))) = cur_buf s \<and>
   accepted (writer_recycle (writer_write (writer_drop s))) = accepted s \<and>
   done_flag (writer_recycle (writer_write (writer_drop s))) = done_flag s \<and>
   writer_pc (writer_recycle (writer_write (writer_drop s))) = WCheck"
  by (simp add: writer_recycle_def writer_write_def writer_drop_def Let_def fb_assign_def leak_if_def)

lemma writes_all_swap:
  assumes "async_ok s" "writer_pc s \<noteq> WWrite" "writer_step s = Some (writer_swap s)"
  shows "writes_all 2 s"
proof -
  have b: "buf2write s = []" "fb_items (new_buf1 s) = []"
    using assms(1,2) by (simp_all add: async_ok_def buffers_ok_def)
  let ?u = "writer_swap s"
  note e = writer_swap_empties [OF b(1)]
  have "writes_all 1 ?u"
  proof (cases "buf2write ?u = []")
    case True
    with e b(2) show ?thesis by (intro writes_all_now) (simp add: waiting_def)
  next
    case False
    with e have "writer_step ?u = Some (writer_recycle (writer_write (writer_drop ?u)))"
      by (simp add: writer_step_def)
    moreover have "waiting (writer_recycle (writer_write (writer_drop ?u))) = []"
      using writer_write_empties [of ?u] e b(2) by (simp add: waiting_def)
    ultimately have "writes_all (Suc 0) ?u"
      using writer_write_empties [of ?u] by (intro writes_all_step [OF _ _ writes_all_now]) auto
    then show ?thesis by simp
  qed
  with assms(3) e have "writes_all (Suc 1) s" by (intro writes_all_step) auto
  then show ?thesis by (simp add: numeral_2_eq_2)
qed

lemma writes_all_sleep:
  assumes "async_ok s" "writer_pc s = WSleep"
  shows "writes_all 2 s"
  using assms by (intro writes_all_swap) (auto simp: writer_step_def)

lemma writes_all_lock:
  assumes "async_ok s" "writer_pc s = WLock"
  shows "writes_all 3 s"
proof (cases "bufs s = []")
  case True
  let ?u = "s\<lparr>writer_pc := WSleep\<rparr>"
  have "async_ok ?u" using assms by (intro async_ok_pc) auto
  then have "writes_all 2 ?u" by (intro writes_all_sleep) auto
  with assms(2) True have "writes_all (Suc 2) s"
    by (intro writes_all_step [of s ?u]) (auto simp: writer_step_def)
  then show ?thesis by (simp add: numeral_3_eq_3)
next
  case False
  with assms have "writes_all 2 s" by (intro writes_all_swap) (auto simp: writer_step_def)
  then show ?thesis by (rule writes_all_mono) simp
qed

lemma writes_all_check:
  assumes "async_ok s" "writer_pc s = WCheck" "\<not> done_flag s"
  shows "writes_all 4 s"
proof -
  let ?u = "s\<lparr>writer_pc := WLock\<rparr>"
  have "async_ok ?u" using assms by (intro async_ok_pc) auto
  then have "writes_all 3 ?u" by (intro writes_all_lock) auto
  with assms(2,3) have "writes_all (Suc 3) s"
    by (intro writes_all_step [of s ?u]) (auto simp: writer_step_def)
  then show ?thesis by simp
qed

lemma writes_all_write:
  assumes "async_ok s" "writer_pc s = WWrite" "\<not> done_flag s"
  shows "writes_all 5 s"
proof -
  let ?u = "writer_recycle (writer_write (writer_drop s))"
  have st: "writer_step s = Some ?u" using assms(2) by (simp add: writer_step_def)
  have "writes_all 4 ?u"
    using writer_write_empties [of s] assms(3) async_ok_writer [OF assms(1) st]
    by (intro writes_all_check) auto
  with st writer_write_empties [of s] have "writes_all (Suc 4) s" by (intro writes_all_step) auto
  then show ?thesis by simp
qed

text \<open>The writer leaves its loop only after the shutdown has begun.\<close>

definition exits_late :: "'c async \<Rightarrow> bool" where
  "exits_late s \<longleftrightarrow> (writer_pc s \<in> {WLast, WExit} \<longrightarrow> done_flag s)"

lemma push_frame [simp]:
  "writer_pc (push_rotate s) = writer_pc s" "done_flag (push_rotate s) = done_flag s"
  "writer_pc (push_cur c s) = writer_pc s" "done_flag (push_cur c s) = done_flag s"
  by (simp_all add: push_rotate_def push_cur_def Let_def fb_assign_def leak_if_def split: option.split)

lemma exits_late_step:
  assumes "exits_late s" "async_step s a = Some t"
  shows "exits_late t"
proof (cases a)
  case (Enter p c)
  with assms show ?thesis by (auto simp: exits_late_def push_enter_def split: if_splits)
next
  case (Locked p)
  with assms show ?thesis by (auto simp: exits_late_def push_locked_def Let_def split: if_splits option.splits)
next
  case Writer
  moreover have "writer_pc (writer_swap s) \<in> {WCheck, WWrite}"
    by (simp add: writer_swap_def Let_def)
  ultimately show ?thesis
    using assms writer_write_empties [of s]
    by (auto simp: exits_late_def writer_step_def split: if_splits writer.splits)
next
  case Finish
  with assms(2) have "t = s\<lparr>done_flag := True\<rparr>" by simp
  then show ?thesis by (simp add: exits_late_def)
qed

interpretation async_exit: machine async_step exits_late
  by unfold_locales (rule exits_late_step)

section \<open>Shutdown\<close>

text \<open>How many steps the writer is from its exit once \<^verbatim>\<open>done_\<close> is set.\<close>

fun to_exit :: "writer \<Rightarrow> nat" where
  "to_exit WExit = 0"
| "to_exit WLast = 1"
| "to_exit WCheck = 2"
| "to_exit WWrite = 3"
| "to_exit WSleep = 4"
| "to_exit WLock = 5"

lemma swap_pc: "to_exit (writer_pc (writer_swap s)) \<le> 3"
  by (simp add: writer_swap_def Let_def)

lemma to_exit_step:
  assumes "done_flag s" "async_step s a = Some t"
  shows "done_flag t \<and> to_exit (writer_pc t) + of_bool (a = Writer) \<le> to_exit (writer_pc s)"
proof (cases a)
  case Writer
  have "done_flag t"
    using assms Writer
    by (auto simp: writer_step_def writer_swap_def writer_recycle_def writer_write_def writer_drop_def
        leak_if_def fb_assign_def Let_def split: writer.splits if_splits)
  moreover have "Suc (to_exit (writer_pc t)) \<le> to_exit (writer_pc s)"
    using assms Writer swap_pc [of s]
    by (auto simp: writer_step_def writer_recycle_def Let_def split: writer.splits if_splits)
  ultimately show ?thesis using Writer by simp
next
  case (Locked p)
  have "done_flag (push_rotate u) = done_flag u" "writer_pc (push_rotate u) = writer_pc u"
    "done_flag (push_cur c u) = done_flag u" "writer_pc (push_cur c u) = writer_pc u" for c and u :: "'a async"
    by (simp_all add: push_rotate_def push_cur_def Let_def fb_assign_def leak_if_def split: option.split)
  then show ?thesis using assms Locked by (auto simp: push_locked_def Let_def split: option.splits)
qed (use assms in \<open>auto simp: push_enter_def split: if_splits\<close>)

interpretation async_down: paced_machine async_step done_flag "\<lambda>a. a = Writer" "\<lambda>s. to_exit (writer_pc s)"
  by unfold_locales (use to_exit_step in blast)+

section \<open>The latch of the constructor\<close>

text \<open>
  The constructor waits until the writer thread has entered its loop. The writer counts the latch
  down inside a \<^verbatim>\<open>call_once\<close> whose flag is a static variable of \<^verbatim>\<open>threadWorker\<close>, so
  all instances of the process share it. \<open>latch i\<close> is the latch of instance \<open>i\<close>, once created.
\<close>

record latches =
  once_flag :: bool
  latch :: "nat \<Rightarrow> nat option"

definition latch_create :: "nat \<Rightarrow> latches \<Rightarrow> latches option" where
  "latch_create i s = (if latch s i = None then Some (s\<lparr>latch := (latch s)(i \<mapsto> 1)\<rparr>) else None)"

definition latch_first_round :: "nat \<Rightarrow> latches \<Rightarrow> latches option" where
  "latch_first_round i s =
     (case latch s i of
        None \<Rightarrow> None
      | Some k \<Rightarrow>
          Some (if once_flag s then s else s\<lparr>once_flag := True, latch := (latch s)(i \<mapsto> k - 1)\<rparr>))"

datatype latch_act = Create nat | FirstRound nat

fun latch_step :: "latches \<Rightarrow> latch_act \<Rightarrow> latches option" where
  "latch_step s (Create i) = latch_create i s"
| "latch_step s (FirstRound i) = latch_first_round i s"

definition constructed :: "latches \<Rightarrow> nat \<Rightarrow> bool" where
  "constructed s i \<longleftrightarrow> latch s i = Some 0"

definition latches_ok :: "latches \<Rightarrow> bool" where
  "latches_ok s \<longleftrightarrow> (once_flag s \<or> (\<forall>i. \<not> constructed s i)) \<and>
     (\<forall>i j. constructed s i \<longrightarrow> constructed s j \<longrightarrow> i = j)"

lemma latches_ok_step:
  assumes "latches_ok s" "latch_step s a = Some t"
  shows "latches_ok t"
proof (cases a)
  case (Create i)
  with assms(2) have "once_flag t = once_flag s" "constructed t j = (constructed s j \<and> j \<noteq> i)" for j
    by (auto simp: latch_create_def constructed_def split: if_splits)
  with assms(1) show ?thesis unfolding latches_ok_def by blast
next
  case (FirstRound i)
  with assms(2) obtain k where k: "latch s i = Some k"
    "t = (if once_flag s then s else s\<lparr>once_flag := True, latch := (latch s)(i \<mapsto> k - 1)\<rparr>)"
    by (cases "latch s i") (simp_all add: latch_first_round_def)
  show ?thesis
  proof (cases "once_flag s")
    case False
    with assms(1) have "\<not> constructed s j" for j by (simp add: latches_ok_def)
    with False k(2) have "once_flag t" "constructed t j \<longrightarrow> j = i" for j
      by (simp_all add: constructed_def)
    then show ?thesis unfolding latches_ok_def by blast
  qed (use assms(1) k(2) in simp)
qed

interpretation latch_machine: machine latch_step latches_ok
  by unfold_locales (rule latches_ok_step)

section \<open>Properties\<close>

text \<open>Two messages per buffer: the third one goes through the spare buffer.\<close>

definition async_demo :: "nat async_act list" where
  "async_demo = [Writer, Writer, Enter 0 1, Locked 0, Enter 0 2, Locked 0, Enter 0 3, Locked 0, Writer,
     Enter 1 4, Writer, Locked 1]"

lemma async_demo_state:
  "map_option (\<lambda>s. (out s, waiting s, accepted s)) (exec_all async_step (init_async 2) async_demo) =
   Some ([Msg 1, Msg 2, Msg 3], [4], [1, 2, 3, 4])"
  by code_simp

text \<open>
  C28: the log keeps the order of the messages. In every interleaving the messages written,
  followed by those that the buffers hold, are the accepted messages in their order, except for
  those that a drop has skipped; without a drop none is missing and none is repeated.\<close>

theorem async_log_fifo:
  assumes "exec_all async_step (init_async n) acts = Some s" "0 < n"
  shows "subseq (msgs (out s) @ waiting s) (accepted s) \<and>
    (\<not> drops (out s) \<longrightarrow> msgs (out s) @ waiting s = accepted s)"
proof -
  have "async_ok s" by (rule async_machine.run_good [OF async_ok_init [OF assms(2)] assms(1)])
  then show ?thesis by (simp add: async_ok_def fifo_def)
qed

theorem async_log_fifo_witness:
  "\<exists>s::nat async. out s = [Msg 1, Msg 2, Msg 3] \<and> msgs (out s) @ waiting s = accepted s"
proof -
  obtain s where s: "exec_all async_step (init_async 2) async_demo = Some s"
    "out s = [Msg 1, Msg 2, Msg 3]"
    using async_demo_state by auto
  from async_log_fifo [OF s(1)] s(2) show ?thesis
    by - (rule exI [of _ s], simp add: drops_def)
qed

text \<open>
  The buffers are always usable and never leak. In every interleaving a message is
  pushed into a buffer that has an array, the current buffer is within its capacity, and no move
  assignment of a buffer forgets an array.\<close>

theorem async_buffers_safe:
  assumes "exec_all async_step (init_async n) acts = Some s" "0 < n"
  shows "\<not> assert_failed s \<and> leaks s = 0 \<and> fb_ok (cur_buf s) \<and> length (fb_items (cur_buf s)) \<le> n"
proof -
  have "async_ok s" by (rule async_machine.run_good [OF async_ok_init [OF assms(2)] assms(1)])
  moreover have "cap s = n"
  proof -
    have "exec_all async_step s1 acts = Some s \<Longrightarrow> cap s = cap s1" for s1
      by (induction acts arbitrary: s1) (auto split: option.splits dest: cap_step)
    from this [OF assms(1)] show ?thesis by (simp add: init_async_def)
  qed
  ultimately show ?thesis by (simp add: async_ok_def buffers_ok_def)
qed

theorem async_buffers_safe_witness:
  "\<exists>s::nat async. accepted s = [1, 2, 3, 4] \<and> \<not> assert_failed s \<and> leaks s = 0"
proof -
  obtain s where s: "exec_all async_step (init_async 2) async_demo = Some s" "accepted s = [1, 2, 3, 4]"
    using async_demo_state by auto
  from async_buffers_safe [OF s(1)] s(2) show ?thesis by - (rule exI [of _ s], simp)
qed

text \<open>
  Nothing is held back while the logger runs. From every state that can occur before the
  shutdown, five steps of the writer write every message accepted so far, unless it has dropped some
  for lack of room.\<close>

theorem log_catches_up:
  fixes s :: "'c async"
  assumes "exec_all async_step (init_async n) acts = Some s" "0 < n" "\<not> done_flag s"
  shows "\<exists>k t. k \<le> 5 \<and> exec_all async_step s (replicate k Writer) = Some t \<and>
    waiting t = [] \<and> subseq (msgs (out t)) (accepted s) \<and> (drops (out t) \<or> msgs (out t) = accepted s)"
proof -
  have ok: "async_ok s" by (rule async_machine.run_good [OF async_ok_init [OF assms(2)] assms(1)])
  have "exits_late (init_async n :: 'c async)" by (simp add: exits_late_def init_async_def)
  then have "exits_late s" using assms(1) by (rule async_exit.run_good)
  then have "writes_all 5 s"
    using writes_all_sleep [OF ok] writes_all_lock [OF ok] writes_all_check [OF ok _ assms(3)]
      writes_all_write [OF ok _ assms(3)] assms(3)
    by (cases "writer_pc s") (auto simp: exits_late_def intro: writes_all_mono)
  then obtain k t where t: "k \<le> 5" "exec_all async_step s (replicate k Writer) = Some t"
    "waiting t = []" "accepted t = accepted s"
    by (auto simp: writes_all_def)
  have "async_ok t" by (rule async_machine.run_good [OF ok t(2)])
  with t show ?thesis by (intro exI [of _ k] exI [of _ t]) (auto simp: async_ok_def fifo_def)
qed

theorem log_catches_up_witness:
  "\<exists>s::nat async. accepted s = [1, 2, 3, 4] \<and> waiting s = [4] \<and>
    (\<exists>k t. k \<le> 5 \<and> exec_all async_step s (replicate k Writer) = Some t \<and> waiting t = [])"
proof -
  have "map_option done_flag (exec_all async_step (init_async 2) async_demo) = Some False" by code_simp
  then obtain s where s: "exec_all async_step (init_async 2) async_demo = Some s"
    "accepted s = [1, 2, 3, 4]" "waiting s = [4]" "\<not> done_flag s"
    using async_demo_state by auto
  from log_catches_up [OF s(1) _ s(4)] s(2,3) show ?thesis by - (rule exI [of _ s], auto)
qed

text \<open>
  The destructor's join returns. Once \<^verbatim>\<open>done_\<close> is set, the writer makes at most five
  more steps in any run, whatever the logging threads do, and it can make the next one until it has
  left; so \<^verbatim>\<open>doDone\<close> and \<^verbatim>\<open>wait4Done\<close> return.\<close>

theorem shutdown_joins:
  fixes s :: "'c async"
  assumes "done_flag s" "exec_all async_step s acts = Some t"
  shows "length (filter (\<lambda>a. a = Writer) acts) + to_exit (writer_pc t) \<le> to_exit (writer_pc s) \<and>
    to_exit (writer_pc s) \<le> 5 \<and> (joined_writer t \<or> async_step t Writer \<noteq> None)"
proof -
  have "to_exit (writer_pc s) \<le> 5" by (cases "writer_pc s") simp_all
  moreover have "joined_writer t \<or> async_step t Writer \<noteq> None"
    by (cases "writer_pc t") (simp_all add: writer_step_def joined_writer_def)
  ultimately show ?thesis using async_down.run_paced [OF assms] by blast
qed

text \<open>
  Shutting down can lose messages. The writer tests \<^verbatim>\<open>done_\<close> only at the top of
  its loop and does not take the buffers again, so a message accepted while it writes is lost when
  the shutdown comes before the next round, although its thread was told nothing.\<close>

theorem shutdown_loses_message:
  "map_option (\<lambda>s. (writer_pc s, out s, accepted s))
     (exec_all async_step (init_async 2)
        ([Writer, Writer, Enter 0 1, Locked 0, Writer, Enter 0 2, Locked 0, Finish] @ replicate 3 Writer)) =
   Some (WExit, [Msg (1::nat)], [1, 2])"
  by code_simp

text \<open>
  Only one asynchronous logger of a process gets past its constructor. The flag of
  \<^verbatim>\<open>call_once\<close> is shared, so the writer of a second instance does not count its latch down,
  and the constructor of that instance waits forever.\<close>

theorem one_async_logging_constructed:
  assumes "exec_all latch_step \<lparr>once_flag = False, latch = Map.empty\<rparr> acts = Some s"
    "constructed s i" "constructed s j"
  shows "i = j"
proof -
  have "latches_ok \<lparr>once_flag = False, latch = Map.empty\<rparr>"
    by (simp add: latches_ok_def constructed_def)
  then have "latches_ok s" using assms(1) by (rule latch_machine.run_good)
  with assms(2,3) show ?thesis unfolding latches_ok_def by blast
qed

theorem one_async_logging_constructed_witness:
  "\<exists>s. exec_all latch_step \<lparr>once_flag = False, latch = Map.empty\<rparr>
      [Create 0, FirstRound 0, Create 1, FirstRound 1] = Some s \<and> constructed s 0 \<and> \<not> constructed s 1"
proof -
  obtain s where s: "exec_all latch_step \<lparr>once_flag = False, latch = Map.empty\<rparr>
      [Create 0, FirstRound 0, Create 1, FirstRound 1] = Some s" "constructed s 0"
    by (simp add: latch_create_def latch_first_round_def constructed_def)
  with one_async_logging_constructed [OF s(1), of 0 1] show ?thesis by auto
qed

end
