(* ===== verification/Elog_Buffer.thy ===== *)
theory Elog_Buffer
  imports Elog_Async
begin

text \<open>
  \<^verbatim>\<open>FixedBuffer\<close> (\<^verbatim>\<open>elog/fixed_buffer.hpp\<close>) as it is laid out: an array of
  \<open>n\<close> contexts, of which the first \<^verbatim>\<open>index_\<close> are in use. It is shown to implement the
  buffers of \<^verbatim>\<open>Elog_Async\<close>, which are lists of messages.
\<close>

section \<open>The array and its index\<close>

text \<open>\<^const>\<open>None\<close> is the null pointer of a buffer that was moved from.\<close>

record 'c fixed =
  fx_ctxs :: "'c list option"
  fx_index :: nat

text \<open>\<open>d\<close> is a default \<^verbatim>\<open>Context\<close>.\<close>

definition fx_new :: "nat \<Rightarrow> 'c \<Rightarrow> 'c fixed" where
  "fx_new n d = \<lparr>fx_ctxs = Some (replicate n d), fx_index = 0\<rparr>"

definition fx_end :: "'c fixed \<Rightarrow> 'c fixed" where
  "fx_end b = \<lparr>fx_ctxs = None, fx_index = 0\<rparr>"

text \<open>The move constructor: the new buffer and what is left of the source.\<close>

definition fx_move :: "'c fixed \<Rightarrow> 'c fixed \<times> 'c fixed" where
  "fx_move rhs =
     (\<lparr>fx_ctxs = fx_ctxs rhs, fx_index = fx_index rhs\<rparr>, rhs\<lparr>fx_ctxs := None, fx_index := 0\<rparr>)"

text \<open>Move assignment; the flag says whether the target is the source itself.\<close>

definition fx_assign :: "bool \<Rightarrow> 'c fixed \<Rightarrow> 'c fixed \<Rightarrow> 'c fixed \<times> 'c fixed" where
  "fx_assign itself lhs rhs =
     (if itself then (lhs, rhs)
      else (lhs\<lparr>fx_ctxs := fx_ctxs rhs, fx_index := fx_index rhs\<rparr>, rhs\<lparr>fx_ctxs := None, fx_index := 0\<rparr>))"

definition fx_check :: "'c fixed \<Rightarrow> bool" where
  "fx_check b \<longleftrightarrow> fx_ctxs b \<noteq> None"

definition fx_empty :: "'c fixed \<Rightarrow> bool" where
  "fx_empty b \<longleftrightarrow> fx_index b = 0"

definition fx_full :: "nat \<Rightarrow> 'c fixed \<Rightarrow> bool" where
  "fx_full n b \<longleftrightarrow> fx_index b = n"

definition fx_size :: "'c fixed \<Rightarrow> nat" where
  "fx_size b = fx_index b"

text \<open>
  Access to an element; \<^const>\<open>None\<close> is a null pointer or an index outside the array. The
  source does not test either.
\<close>

definition fx_at :: "nat \<Rightarrow> 'c fixed \<Rightarrow> 'c option" where
  "fx_at i b = (case fx_ctxs b of None \<Rightarrow> None | Some a \<Rightarrow> if i < length a then Some (a ! i) else None)"

definition fx_put :: "'c \<Rightarrow> 'c fixed \<Rightarrow> 'c fixed option" where
  "fx_put c b =
     (case fx_ctxs b of
        None \<Rightarrow> None
      | Some a \<Rightarrow>
          if fx_index b < length a
          then Some (b\<lparr>fx_ctxs := Some (a[fx_index b := c]), fx_index := Suc (fx_index b)\<rparr>) else None)"

text \<open>\<^verbatim>\<open>push(const Context&)\<close> asserts that there is an array, \<^verbatim>\<open>push(Context&&)\<close> does not.\<close>

definition fx_push :: "nat \<Rightarrow> 'c \<Rightarrow> 'c fixed \<Rightarrow> 'c fixed option" where
  "fx_push n c b =
     (if fx_ctxs b = None then None else if \<not> fx_full n b then fx_put c b else Some b)"

definition fx_push_moved :: "nat \<Rightarrow> 'c \<Rightarrow> 'c fixed \<Rightarrow> 'c fixed option" where
  "fx_push_moved n c b = (if \<not> fx_full n b then fx_put c b else Some b)"

definition fx_reset :: "'c fixed \<Rightarrow> 'c fixed" where
  "fx_reset b = b\<lparr>fx_index := 0\<rparr>"

text \<open>The loop from \<^verbatim>\<open>begin()\<close> to \<^verbatim>\<open>end()\<close>: every element it reads.\<close>

definition fx_loop :: "'c fixed \<Rightarrow> 'c option list" where
  "fx_loop b = map (\<lambda>i. fx_at i b) [0..<fx_index b]"

section \<open>The abstraction\<close>

definition fx_ok :: "nat \<Rightarrow> 'c fixed \<Rightarrow> bool" where
  "fx_ok n b \<longleftrightarrow> (case fx_ctxs b of None \<Rightarrow> fx_index b = 0 | Some a \<Rightarrow> length a = n \<and> fx_index b \<le> n)"

definition fx_abs :: "'c fixed \<Rightarrow> 'c fbuf" where
  "fx_abs b = \<lparr>fb_ok = (fx_ctxs b \<noteq> None),
     fb_items = (case fx_ctxs b of None \<Rightarrow> [] | Some a \<Rightarrow> take (fx_index b) a)\<rparr>"

lemmas fx_defs = fx_new_def fx_end_def fx_move_def fx_assign_def fx_check_def fx_empty_def fx_full_def
  fx_size_def fx_at_def fx_put_def fx_push_def fx_push_moved_def fx_reset_def

lemma fx_loop_items: "fx_ok n b \<Longrightarrow> fx_loop b = map Some (fb_items (fx_abs b))"
  by (auto simp: fx_loop_def fx_ok_def fx_abs_def fx_at_def list_eq_iff_nth_eq split: option.splits)

lemma fx_push_abs:
  assumes "fx_ok n b"
  shows "map_option fx_abs (fx_push n c b) = fb_push n c (fx_abs b)"
    and "fx_push n c b = Some b' \<Longrightarrow> fx_ok n b'"
  using assms
  by (auto simp: fx_ok_def fx_abs_def fx_defs fb_push_def fb_full_def take_Suc_conv_app_nth
      split: option.splits if_splits)

text \<open>
  A buffer's life as the asynchronous logger drives it: pushes, resets, and assignments from a new
  buffer.
\<close>

datatype 'c buf_op = Push 'c | Reset | Renew 'c

fun fx_step :: "nat \<Rightarrow> 'c fixed \<Rightarrow> 'c buf_op \<Rightarrow> 'c fixed option" where
  "fx_step n b (Push c) = fx_push n c b"
| "fx_step n b Reset = Some (fx_reset b)"
| "fx_step n b (Renew d) = Some (fst (fx_assign False b (fx_new n d)))"

fun fb_step :: "nat \<Rightarrow> 'c fbuf \<Rightarrow> 'c buf_op \<Rightarrow> 'c fbuf option" where
  "fb_step n b (Push c) = fb_push n c b"
| "fb_step n b Reset = Some (fb_reset b)"
| "fb_step n b (Renew d) = Some (fst (fb_assign b fb_new))"

lemma fx_ok_step: "fx_ok n b \<Longrightarrow> fx_step n b x = Some c \<Longrightarrow> fx_ok n c"
  by (cases x) (auto simp: fx_push_abs(2), auto simp: fx_ok_def fx_defs split: option.splits)

interpretation fixed_buffer: machine "fx_step n" "fx_ok n" for n
  by unfold_locales (rule fx_ok_step)

lemma fx_step_abs: "fx_ok n b \<Longrightarrow> map_option fx_abs (fx_step n b x) = fb_step n (fx_abs b) x"
  by (cases x) (auto simp: fx_push_abs(1), auto simp: fx_abs_def fx_defs fb_defs split: option.splits)

section \<open>Properties\<close>

text \<open>
  C37: \<^verbatim>\<open>FixedBuffer\<close> is a bounded list. Driven by any sequence of pushes, resets and
  renewals, the array with its index goes through the states of the list of messages that the
  asynchronous logger is modelled with, fails an assertion exactly when the list does, and the loop
  from \<^verbatim>\<open>begin()\<close> to \<^verbatim>\<open>end()\<close> reads exactly the messages of the list, inside the array.\<close>

theorem fixed_buffer_refines:
  assumes "fx_ok n b"
  shows "map_option fx_abs (exec_all (fx_step n) b ops) = exec_all (fb_step n) (fx_abs b) ops \<and>
    (case exec_all (fx_step n) b ops of None \<Rightarrow> True
     | Some c \<Rightarrow> fx_loop c = map Some (fb_items (fx_abs c)) \<and> length (fb_items (fx_abs c)) \<le> n \<and>
         fx_size c = length (fb_items (fx_abs c)) \<and> fx_full n c = fb_full n (fx_abs c) \<and>
         fx_empty c = fb_empty (fx_abs c) \<and> fx_check c = fb_ok (fx_abs c))"
proof -
  have "map_option fx_abs (exec_all (fx_step n) b ops) = exec_all (fb_step n) (fx_abs b) ops"
    using assms
  proof (induction ops arbitrary: b)
    case (Cons x ops)
    from fx_step_abs [OF Cons.prems, of x, symmetric] Cons.IH fx_ok_step [OF Cons.prems, of x]
    show ?case by (cases "fx_step n b x") auto
  qed simp
  moreover have "fx_ok n c" if "exec_all (fx_step n) b ops = Some c" for c
    by (rule fixed_buffer.run_good [OF assms that])
  moreover have "length (fb_items (fx_abs c)) \<le> n \<and> fx_size c = length (fb_items (fx_abs c)) \<and>
      fx_full n c = fb_full n (fx_abs c) \<and> fx_empty c = fb_empty (fx_abs c) \<and> fx_check c = fb_ok (fx_abs c)"
    if "fx_ok n c" for c :: "'a fixed"
    using that
    by (auto simp: fx_ok_def fx_abs_def fx_defs fb_full_def fb_empty_def min_def split: option.splits)
  ultimately show ?thesis by (auto simp: fx_loop_items split: option.split)
qed

theorem fixed_buffer_refines_witness:
  "\<exists>c::nat fixed. exec_all (fx_step 2) (fx_new 2 0) [Push 5, Reset, Push 7, Push 8, Push 9] = Some c \<and>
    fx_loop c = [Some 7, Some 8]"
proof -
  have ok: "fx_ok 2 (fx_new 2 (0::nat))" by (simp add: fx_ok_def fx_new_def)
  have items: "map_option fb_items (exec_all (fb_step 2) (fx_abs (fx_new 2 (0::nat)))
      [Push 5, Reset, Push 7, Push 8, Push 9]) = Some [7, 8]"
    by (simp add: fx_abs_def fx_new_def fb_defs)
  show ?thesis
    using fixed_buffer_refines [OF ok, of "[Push 5, Reset, Push 7, Push 8, Push 9]"] items
    by (cases "exec_all (fx_step 2) (fx_new 2 (0::nat)) [Push 5, Reset, Push 7, Push 8, Push 9]") auto
qed

text \<open>
  \<^verbatim>\<open>push(Context&&)\<close> lacks the assertion of the other overload: on a buffer that was moved
  from it writes through a null pointer.\<close>

theorem push_moved_unchecked:
  "0 < n \<Longrightarrow> fx_push_moved n c (snd (fx_move b)) = None \<and> \<not> fx_full n (snd (fx_move b))"
  by (simp add: fx_defs)

end
