(* ===== verification/Elog_Pipeline.thy ===== *)
theory Elog_Pipeline
  imports Elog_Async Elog_File
begin

text \<open>
  The asynchronous logger with its files: the machine of \<^verbatim>\<open>Elog_Async\<close> whose writer formats
  the messages it takes (\<^verbatim>\<open>Elog_Text\<close>) and appends the lines to a \<^verbatim>\<open>LogFile\<close>
  (\<^verbatim>\<open>Elog_File\<close>), as \<^verbatim>\<open>AsyncLogging::threadWorker\<close> does. The order of the messages is
  shown to carry over to the bytes in the files.
\<close>

section \<open>The composed machine\<close>

text \<open>
  \<open>p_dead\<close>: an exception has left the thread's function, which ends the process. \<open>p_lines\<close> is
  a record of the history: the lines that the writer has appended.
\<close>

record pipe =
  p_async :: "log_ctx async"
  p_file :: logfile
  p_dead :: "log_error option"
  p_lines :: "string list"

definition init_pipe :: "nat \<Rightarrow> logfile \<Rightarrow> pipe" where
  "init_pipe n f = \<lparr>p_async = init_async n, p_file = f, p_dead = None, p_lines = []\<rparr>"

text \<open>The note about dropped buffers, and the lines of one round of the writer.\<close>

definition drop_text :: "(int \<Rightarrow> tm) \<Rightarrow> int \<Rightarrow> nat \<Rightarrow> string" where
  "drop_text lt now k = ''Dropped log messages at '' @ toFormattedString lt True True now @ '', '' @
     show_nat k @ '' larger buffers'' @ [CHR 0x0A]"

definition round_lines :: "(int \<Rightarrow> tm) \<Rightarrow> int \<Rightarrow> log_ctx async \<Rightarrow> string list" where
  "round_lines lt now a =
     (if length (buf2write a) > 100 then [drop_text lt now (length (buf2write a) - 2)] else []) @
     map (format_ctx lt kStdFlags) (concat (map fb_items (buf2write (writer_drop a))))"

text \<open>
  One round writes every line in the environment that the call finds, and flushes; leaving the
  loop, the writer flushes again.
\<close>

definition pipe_round :: "(int \<Rightarrow> tm) \<Rightarrow> file_env list \<Rightarrow> file_env \<Rightarrow> int \<Rightarrow> pipe \<Rightarrow> pipe option" where
  "pipe_round lt envs fenv now s =
     (let ls = round_lines lt now (p_async s) in
      if length envs \<noteq> length ls then None
      else case append_all logfile_append (zip envs ls) (p_file s) of
             Inl e \<Rightarrow> Some (s\<lparr>p_dead := Some e\<rparr>)
           | Inr f \<Rightarrow>
               (case logfile_flush fenv f of
                  Inl e \<Rightarrow> Some (s\<lparr>p_dead := Some e\<rparr>)
                | Inr g \<Rightarrow> map_option (\<lambda>a. s\<lparr>p_async := a, p_file := g, p_lines := p_lines s @ ls\<rparr>)
                    (writer_step (p_async s))))"

definition pipe_last :: "file_env \<Rightarrow> pipe \<Rightarrow> pipe option" where
  "pipe_last fenv s =
     (case logfile_flush fenv (p_file s) of
        Inl e \<Rightarrow> Some (s\<lparr>p_dead := Some e\<rparr>)
      | Inr g \<Rightarrow> map_option (\<lambda>a. s\<lparr>p_async := a, p_file := g\<rparr>) (writer_step (p_async s)))"

datatype pipe_act = PEnter nat log_ctx | PLocked nat | PFinish | PWriter "file_env list" file_env int

definition pipe_step :: "(int \<Rightarrow> tm) \<Rightarrow> pipe \<Rightarrow> pipe_act \<Rightarrow> pipe option" where
  "pipe_step lt s act =
     (if p_dead s \<noteq> None then None
      else case act of
        PEnter p c \<Rightarrow> map_option (\<lambda>a. s\<lparr>p_async := a\<rparr>) (push_enter p c (p_async s))
      | PLocked p \<Rightarrow> map_option (\<lambda>a. s\<lparr>p_async := a\<rparr>) (push_locked p (p_async s))
      | PFinish \<Rightarrow> map_option (\<lambda>a. s\<lparr>p_async := a\<rparr>) (async_step (p_async s) Finish)
      | PWriter envs fenv now \<Rightarrow>
          (case writer_pc (p_async s) of
             WWrite \<Rightarrow> pipe_round lt envs fenv now s
           | WLast \<Rightarrow> pipe_last fenv s
           | _ \<Rightarrow> map_option (\<lambda>a. s\<lparr>p_async := a\<rparr>) (writer_step (p_async s))))"

section \<open>The invariant\<close>

text \<open>What a line of the file says about the abstract output of \<^verbatim>\<open>Elog_Async\<close>.\<close>

fun line_text :: "(int \<Rightarrow> tm) \<Rightarrow> log_ctx line \<Rightarrow> string \<Rightarrow> bool" where
  "line_text lt (Msg c) l = (l = format_ctx lt kStdFlags c)"
| "line_text lt (DropNote k) l = (\<exists>now. l = drop_text lt now k)"

definition pipe_ok :: "(int \<Rightarrow> tm) \<Rightarrow> pipe \<Rightarrow> bool" where
  "pipe_ok lt s \<longleftrightarrow> async_ok (p_async s) \<and> logfile_bytes (p_file s) = concat (p_lines s) \<and>
     list_all2 (line_text lt) (out (p_async s)) (p_lines s)"

lemma out_frame [simp]:
  "out (leak_if b s) = out s" "out (push_rotate s) = out s" "out (push_cur c s) = out s"
  "out (writer_swap s) = out s" "out (writer_recycle s) = out s"
  by (simp_all add: leak_if_def push_rotate_def push_cur_def writer_swap_def writer_recycle_def Let_def
      fb_assign_def split: option.split)

lemma push_out:
  "push_enter p c a = Some b \<Longrightarrow> out b = out a"
  "push_locked p a = Some b \<Longrightarrow> out b = out a"
  by (auto simp: push_enter_def push_locked_def Let_def split: if_splits option.splits)

lemma writer_out:
  "writer_step a = Some b \<Longrightarrow> writer_pc a \<noteq> WWrite \<Longrightarrow> out b = out a"
  by (auto simp: writer_step_def split: writer.splits if_splits)

lemma round_out:
  assumes "writer_step a = Some b" "writer_pc a = WWrite"
  shows "\<exists>ls. out b = out a @ ls \<and> list_all2 (line_text lt) ls (round_lines lt now a)"
proof -
  let ?ms = "concat (map fb_items (buf2write (writer_drop a)))"
  let ?note = "if length (buf2write a) > 100 then [DropNote (length (buf2write a) - 2)] else []"
  have "out b = out a @ ?note @ map Msg ?ms"
    using assms by (auto simp: writer_step_def writer_write_def writer_drop_def)
  moreover have "list_all2 (line_text lt) (map Msg cs) (map (format_ctx lt kStdFlags) cs)" for cs
    by (simp add: list_all2_conv_all_nth)
  then have "list_all2 (line_text lt) (?note @ map Msg ?ms) (round_lines lt now a)"
    unfolding round_lines_def by (intro list_all2_appendI) auto
  ultimately show ?thesis by blast
qed

lemma pipe_ok_async:
  assumes "pipe_ok lt s" "async_step (p_async s) x = Some a" "out a = out (p_async s)"
  shows "pipe_ok lt (s\<lparr>p_async := a\<rparr>)"
  using assms async_ok_step [of "p_async s" x a] by (simp add: pipe_ok_def)

lemma pipe_ok_round:
  assumes "pipe_ok lt s" "pipe_round lt envs fenv now s = Some t" "writer_pc (p_async s) = WWrite"
  shows "pipe_ok lt t"
proof -
  let ?ls = "round_lines lt now (p_async s)"
  consider (dead) e where "t = s\<lparr>p_dead := Some e\<rparr>"
    | (fine) f g a where "length envs = length ?ls"
      "append_all logfile_append (zip envs ?ls) (p_file s) = Inr f" "logfile_flush fenv f = Inr g"
      "writer_step (p_async s) = Some a" "t = s\<lparr>p_async := a, p_file := g, p_lines := p_lines s @ ?ls\<rparr>"
    using assms(2) by (auto simp: pipe_round_def Let_def split: if_splits sum.splits)
  then show ?thesis
  proof cases
    case dead
    with assms(1) show ?thesis by (simp add: pipe_ok_def)
  next
    case fine
    have "logfile_bytes g = logfile_bytes (p_file s) @ concat ?ls"
      using file_sink.append_flush_bytes [OF fine(2,3)] fine(1) by (simp add: map_snd_zip)
    moreover obtain xs where "out a = out (p_async s) @ xs" "list_all2 (line_text lt) xs ?ls"
      using round_out [OF fine(4) assms(3)] by blast
    moreover have "async_ok a"
      using assms(1) async_ok_writer [OF _ fine(4)] by (simp add: pipe_ok_def)
    ultimately show ?thesis
      using assms(1) by (simp add: fine(5) pipe_ok_def list_all2_appendI)
  qed
qed

lemma pipe_ok_last:
  assumes "pipe_ok lt s" "pipe_last fenv s = Some t" "writer_pc (p_async s) = WLast"
  shows "pipe_ok lt t"
proof -
  consider (dead) e where "t = s\<lparr>p_dead := Some e\<rparr>"
    | (fine) g a where "logfile_flush fenv (p_file s) = Inr g" "writer_step (p_async s) = Some a"
      "t = s\<lparr>p_async := a, p_file := g\<rparr>"
    using assms(2) by (auto simp: pipe_last_def split: sum.splits)
  then show ?thesis
  proof cases
    case dead
    with assms(1) show ?thesis by (simp add: pipe_ok_def)
  next
    case fine
    then show ?thesis
      using assms(1,3) file_sink.flsh_bytes [OF fine(1)] writer_out [OF fine(2)]
        async_ok_writer [OF _ fine(2)]
      by (simp add: pipe_ok_def)
  qed
qed

lemma pipe_ok_step:
  assumes ok: "pipe_ok lt s" and st: "pipe_step lt s act = Some t"
  shows "pipe_ok lt t"
proof (cases act)
  case (PEnter p c)
  with st obtain a where "push_enter p c (p_async s) = Some a" "t = s\<lparr>p_async := a\<rparr>"
    by (auto simp: pipe_step_def split: if_splits)
  with ok pipe_ok_async [of lt s "Enter p c" a] show ?thesis by (auto dest: push_out)
next
  case (PLocked p)
  with st obtain a where "push_locked p (p_async s) = Some a" "t = s\<lparr>p_async := a\<rparr>"
    by (auto simp: pipe_step_def split: if_splits)
  with ok pipe_ok_async [of lt s "Locked p" a] show ?thesis by (auto dest: push_out)
next
  case PFinish
  with st have "t = s\<lparr>p_async := (p_async s)\<lparr>done_flag := True\<rparr>\<rparr>"
    by (auto simp: pipe_step_def split: if_splits)
  with ok pipe_ok_async [of lt s Finish] show ?thesis by simp
next
  case (PWriter envs fenv now)
  consider (round) "writer_pc (p_async s) = WWrite" "pipe_round lt envs fenv now s = Some t"
    | (last) "writer_pc (p_async s) = WLast" "pipe_last fenv s = Some t"
    | (other) a where "writer_pc (p_async s) \<noteq> WWrite" "writer_step (p_async s) = Some a"
        "t = s\<lparr>p_async := a\<rparr>"
    using st unfolding PWriter
    by (cases "writer_pc (p_async s)") (auto simp: pipe_step_def split: if_splits)
  then show ?thesis
  proof cases
    case round
    then show ?thesis using pipe_ok_round [OF ok] by simp
  next
    case last
    then show ?thesis using pipe_ok_last [OF ok] by simp
  next
    case other
    then show ?thesis
      using pipe_ok_async [OF ok, of Writer a] writer_out [OF other(2,1)] by simp
  qed
qed

interpretation pipeline: machine "pipe_step lt" "pipe_ok lt" for lt
  by unfold_locales (rule pipe_ok_step)

lemma new_logfile_empty: "new_logfile junk env base pre roll interval = Inr f \<Longrightarrow> logfile_bytes f = []"
  by (auto simp: new_logfile_def rollFile_def Let_def logfile_bytes_def open_appender_def
      split: if_splits sum.splits)

lemma pipe_ok_init: "0 < n \<Longrightarrow> logfile_bytes f = [] \<Longrightarrow> pipe_ok lt (init_pipe n f)"
  using async_ok_init [of n] by (simp add: pipe_ok_def init_pipe_def, simp add: init_async_def)

lemma line_text_msgs:
  "list_all2 (line_text lt) ls ts \<Longrightarrow> \<not> drops ls \<Longrightarrow> ts = map (format_ctx lt kStdFlags) (msgs ls)"
proof (induction ls arbitrary: ts rule: msgs.induct)
  case (2 c ls)
  then show ?case by (auto simp: drops_def list_all2_Cons1)
qed (simp_all add: drops_def)

lemma pipe_bytes:
  assumes "pipe_ok lt s" "\<not> drops (out (p_async s))"
  shows "logfile_bytes (p_file s) @ concat (map (format_ctx lt kStdFlags) (waiting (p_async s))) =
    concat (map (format_ctx lt kStdFlags) (accepted (p_async s)))"
proof -
  have "msgs (out (p_async s)) @ waiting (p_async s) = accepted (p_async s)"
    using assms by (simp add: pipe_ok_def async_ok_def fifo_def)
  moreover have "logfile_bytes (p_file s) =
      concat (map (format_ctx lt kStdFlags) (msgs (out (p_async s))))"
    using assms(1) line_text_msgs [OF _ assms(2)] by (auto simp: pipe_ok_def)
  ultimately show ?thesis by (metis concat_append map_append)
qed

section \<open>Properties\<close>

text \<open>
  C29: the file is the log. In every interleaving of logging threads, writer and shutdown,
  through every roll and flush and as long as no file operation fails and no buffer is dropped, the
  bytes in the files, followed by the lines of the messages that still wait in the buffers, are the
  formatted lines of all accepted messages in the order in which they were accepted.\<close>

theorem log_pipeline_bytes:
  assumes "new_logfile junk env base pre roll interval = Inr f" "0 < n"
    and "exec_all (pipe_step lt) (init_pipe n f) acts = Some s" "\<not> drops (out (p_async s))"
  shows "logfile_bytes (p_file s) @ concat (map (format_ctx lt kStdFlags) (waiting (p_async s))) =
    concat (map (format_ctx lt kStdFlags) (accepted (p_async s)))"
proof -
  have "pipe_ok lt s"
    by (rule pipeline.run_good [OF pipe_ok_init [OF assms(2) new_logfile_empty [OF assms(1)]] assms(3)])
  then show ?thesis using assms(4) by (rule pipe_bytes)
qed

text \<open>Two messages are written, the limit of four bytes rolls the file, a third one waits.\<close>

definition pipe_ctx :: "string \<Rightarrow> log_ctx" where
  "pipe_ctx m = make_ctx 42 INFO m ''a/b.cpp'' ''main'' 7 (new_ctx 1 0)"

definition pipe_demo :: "pipe_act list" where
  "pipe_demo = [PWriter [] (sample_env 100) 0, PWriter [] (sample_env 100) 0,
     PEnter 0 (pipe_ctx ''x''), PLocked 0, PEnter 1 (pipe_ctx ''y''), PLocked 1,
     PWriter [] (sample_env 100) 0, PWriter (replicate 2 (sample_env 101)) (sample_env 101) 0,
     PEnter 0 (pipe_ctx ''z''), PLocked 0]"

lemma pipe_demo_state:
  "(case new_logfile 0 (sample_env 100) ''log'' ''app'' 4 3 of Inl e \<Rightarrow> None | Inr f \<Rightarrow>
    map_option (\<lambda>s. (drops (out (p_async s)), map lc_text (waiting (p_async s)), p_dead s = None,
       length (lf_old (p_file s)), map length (p_lines s)))
     (exec_all (pipe_step (\<lambda>_. sample_tm)) (init_pipe 2 f) pipe_demo)) =
   Some (False, [''z''], True, 1, [53, 53])"
  by code_simp

theorem log_pipeline_bytes_witness:
  "\<exists>f s. exec_all (pipe_step (\<lambda>_. sample_tm)) (init_pipe 2 f) pipe_demo = Some s \<and>
     length (lf_old (p_file s)) = 1 \<and> map lc_text (waiting (p_async s)) = [''z''] \<and>
     logfile_bytes (p_file s) @ concat (map (format_ctx (\<lambda>_. sample_tm) kStdFlags) (waiting (p_async s))) =
       concat (map (format_ctx (\<lambda>_. sample_tm) kStdFlags) (accepted (p_async s)))"
proof -
  obtain f where f: "new_logfile 0 (sample_env 100) ''log'' ''app'' 4 3 = Inr f"
    by (simp add: logfile_defs)
  then obtain s where s: "exec_all (pipe_step (\<lambda>_. sample_tm)) (init_pipe 2 f) pipe_demo = Some s"
    "\<not> drops (out (p_async s))" "map lc_text (waiting (p_async s)) = [''z'']" "length (lf_old (p_file s)) = 1"
    using pipe_demo_state by auto
  from log_pipeline_bytes [OF f _ s(1,2)] s show ?thesis
    by - (rule exI [of _ f], rule exI [of _ s], simp)
qed

end
