(* ===== verification/Elog_Logger.thy ===== *)
theory Elog_Logger
  imports Elog_Text "HOL-Library.Code_Target_Nat"
begin

text \<open>
  \<^verbatim>\<open>Logger\<close> (\<^verbatim>\<open>elog/logger.h\<close>, \<^verbatim>\<open>elog/logger.cpp\<close>): the switch
  between the console and the asynchronous logger. Starting and stopping the logger are each
  guarded by a \<^verbatim>\<open>call_once\<close> flag of the process.
\<close>

section \<open>State and operations\<close>

text \<open>
  \<open>logging\<close>: \<^verbatim>\<open>async_logging_\<close> is not null. \<open>creations\<close> counts the asynchronous
  loggers created, \<open>console\<close> and \<open>pushed\<close> are the messages printed and those pushed to
  the asynchronous logger. \<open>shutting\<close>: a thread is between the two statements of
  \<^verbatim>\<open>shutdownAsyncLogging\<close>; \<open>committed p\<close>: the message of a thread that has seen the
  asynchronous logger enabled. \<open>null_deref\<close>: a null pointer was dereferenced.
\<close>

record logger =
  logging :: bool
  async_enabled :: bool
  init_flag :: bool
  shutdown_flag :: bool
  shutting :: bool
  creations :: nat
  console :: "string list"
  pushed :: "string list"
  committed :: "nat \<Rightarrow> string option"
  null_deref :: bool

definition init_logger :: logger where
  "init_logger = \<lparr>logging = False, async_enabled = False, init_flag = False, shutdown_flag = False,
     shutting = False, creations = 0, console = [], pushed = [], committed = (\<lambda>_. None),
     null_deref = False\<rparr>"

definition initAsyncLogging :: "logger \<Rightarrow> logger" where
  "initAsyncLogging s =
     (if async_enabled s then s
      else if init_flag s then s
      else s\<lparr>init_flag := True, logging := True, creations := Suc (creations s), async_enabled := True\<rparr>)"

text \<open>The call asserts its two numbers first; \<^const>\<open>None\<close>: the assertion fails.\<close>

definition init_call :: "int \<Rightarrow> int \<Rightarrow> logger \<Rightarrow> logger option" where
  "init_call roll_size flush_interval s =
     (if 0 < roll_size \<and> 0 < flush_interval then Some (initAsyncLogging s) else None)"

text \<open>The two statements inside the second \<^verbatim>\<open>call_once\<close>.\<close>

definition shutdown_reset :: "logger \<Rightarrow> logger" where
  "shutdown_reset s =
     (if \<not> async_enabled s then s
      else if shutdown_flag s then s
      else s\<lparr>shutdown_flag := True, logging := False, shutting := True\<rparr>)"

definition shutdown_store :: "logger \<Rightarrow> logger" where
  "shutdown_store s = (if shutting s then s\<lparr>async_enabled := False, shutting := False\<rparr> else s)"

text \<open>
  The destructor of \<^verbatim>\<open>LogStream\<close>: an empty message is dropped; the console prints at once,
  the asynchronous logger gets the message in a second step.
\<close>

definition log_check :: "nat \<Rightarrow> string \<Rightarrow> logger \<Rightarrow> logger option" where
  "log_check p m s =
     (if committed s p \<noteq> None then None
      else Some (if m = [] then s
        else if async_enabled s then s\<lparr>committed := (committed s)(p \<mapsto> m)\<rparr>
        else s\<lparr>console := console s @ [m]\<rparr>))"

text \<open>\<^verbatim>\<open>appendAsyncLog\<close> tests the switch again before it uses the pointer.\<close>

definition log_push :: "nat \<Rightarrow> logger \<Rightarrow> logger option" where
  "log_push p s =
     (case committed s p of
        None \<Rightarrow> None
      | Some m \<Rightarrow>
          let s1 = s\<lparr>committed := (committed s)(p := None)\<rparr> in
          Some (if \<not> async_enabled s1 then s1
                else if \<not> logging s1 then s1\<lparr>null_deref := True\<rparr>
                else s1\<lparr>pushed := pushed s1 @ [m]\<rparr>))"

datatype logger_act = Init int int | ShutReset | ShutStore | LogCheck nat string | LogPush nat

fun logger_step :: "logger \<Rightarrow> logger_act \<Rightarrow> logger option" where
  "logger_step s (Init roll interval) = init_call roll interval s"
| "logger_step s ShutReset = Some (shutdown_reset s)"
| "logger_step s ShutStore = Some (shutdown_store s)"
| "logger_step s (LogCheck p m) = log_check p m s"
| "logger_step s (LogPush p) = log_push p s"

section \<open>The invariant\<close>

text \<open>The pointer is set exactly while logging is enabled, outside the shutdown.\<close>

definition logger_ok :: "logger \<Rightarrow> bool" where
  "logger_ok s \<longleftrightarrow> creations s = of_bool (init_flag s) \<and>
     (if shutting s then async_enabled s \<and> \<not> logging s else logging s = async_enabled s) \<and>
     (async_enabled s \<longrightarrow> init_flag s) \<and> (shutdown_flag s \<longrightarrow> init_flag s) \<and>
     (shutdown_flag s \<and> \<not> shutting s \<longrightarrow> \<not> async_enabled s)"

lemmas logger_defs = init_call_def initAsyncLogging_def shutdown_reset_def shutdown_store_def log_check_def
  log_push_def

lemma logger_ok_step: "logger_ok s \<Longrightarrow> logger_step s a = Some t \<Longrightarrow> logger_ok t"
  by (cases a) (auto simp: logger_defs logger_ok_def Let_def split: if_splits option.splits)

interpretation logger_machine: machine logger_step logger_ok
  by unfold_locales (rule logger_ok_step)

lemma logger_ok_init: "logger_ok init_logger"
  by (simp add: logger_ok_def init_logger_def)

lemma after_shutdown:
  "logger_ok s \<Longrightarrow> shutdown_flag s \<Longrightarrow> \<not> shutting s \<Longrightarrow> logger_step s a = Some t \<Longrightarrow>
   shutdown_flag t \<and> \<not> shutting t \<and> pushed t = pushed s"
  by (cases a) (auto simp: logger_defs logger_ok_def Let_def split: if_splits option.splits)

lemma after_shutdown_run:
  "logger_ok s \<Longrightarrow> shutdown_flag s \<Longrightarrow> \<not> shutting s \<Longrightarrow> exec_all logger_step s acts = Some t \<Longrightarrow>
   logger_ok t \<and> shutdown_flag t \<and> \<not> shutting t \<and> pushed t = pushed s"
proof (induction acts arbitrary: s)
  case (Cons a acts)
  then obtain u where u: "logger_step s a = Some u" "exec_all logger_step u acts = Some t"
    by (auto split: option.splits)
  with after_shutdown [OF Cons.prems(1-3) u(1)] logger_ok_step [OF Cons.prems(1) u(1)] Cons.IH [of u]
  show ?case by simp
qed simp

text \<open>
  Asynchronous logging lives once. In every interleaving of initialisation, shutdown and
  logging at most one asynchronous logger is created; once a shutdown has completed,
  \<^verbatim>\<open>initAsyncLogging\<close> does nothing, and no later message reaches the log file.\<close>

theorem async_logging_once:
  assumes "exec_all logger_step init_logger acts = Some s" "shutdown_flag s" "\<not> shutting s"
    and "exec_all logger_step s acts' = Some t"
  shows "creations t = 1 \<and> \<not> async_enabled t \<and> initAsyncLogging t = t \<and> pushed t = pushed s"
proof -
  have "logger_ok s" by (rule logger_machine.run_good [OF logger_ok_init assms(1)])
  from after_shutdown_run [OF this assms(2-4)] have
    "logger_ok t" "shutdown_flag t" "\<not> shutting t" "pushed t = pushed s" by simp_all
  then show ?thesis by (simp add: logger_ok_def initAsyncLogging_def)
qed

theorem async_logging_once_witness:
  "\<exists>s t. logger_step s (Init 1024 3) = Some t \<and> console t = [] \<and> pushed t = [''a''] \<and> creations t = 1 \<and>
     \<not> async_enabled t"
proof -
  let ?acts = "[Init 1024 3, LogCheck 0 ''a'', LogPush 0, ShutReset, ShutStore]"
  obtain s where s: "exec_all logger_step init_logger ?acts = Some s" "shutdown_flag s" "\<not> shutting s"
    "pushed s = [''a'']" "console s = []"
    by (simp add: logger_defs init_logger_def)
  have t: "exec_all logger_step s [Init 1024 3] = Some (initAsyncLogging s)"
    by (simp add: init_call_def)
  from async_logging_once [OF s(1-3) t] s(4,5)
  show ?thesis
    by - (rule exI [of _ s], rule exI [of _ "initAsyncLogging s"], simp add: logger_defs)
qed

text \<open>
  Shutdown races with logging. The shutdown destroys the asynchronous logger before it
  clears the switch; a thread that logs in between passes both tests of the switch and
  dereferences a null pointer.\<close>

theorem shutdown_races_with_logging:
  "map_option null_deref
     (exec_all logger_step init_logger [Init 1024 3, ShutReset, LogCheck 1 ''late'', LogPush 1]) = Some True"
  by (simp add: logger_defs init_logger_def)

end
