(* ===== verification/Elog_System.thy ===== *)
theory Elog_System
  imports Elog_Pipeline Elog_Stream Elog_Logger
begin

text \<open>
  The whole logging library: threads that execute log statements (\<^verbatim>\<open>Elog_Stream\<close>), the
  switch between console and asynchronous logger (\<^verbatim>\<open>Elog_Logger\<close>), and the asynchronous
  logger with its files (\<^verbatim>\<open>Elog_Pipeline\<close>), from \<^verbatim>\<open>initAsyncLogging\<close> to
  \<^verbatim>\<open>shutdownAsyncLogging\<close>.
\<close>

section \<open>State\<close>

type_synonym message = "LogLevel \<times> site \<times> string"

text \<open>
  \<open>sy_todo p\<close>: the messages that the statements of thread \<open>p\<close> still emit; its statements touch
  only the thread's own string, so they are a function of its program. \<open>sy_cur p\<close>: the message whose
  \<^verbatim>\<open>LogStream\<close> is being destroyed. \<open>sy_ctx p\<close>: the thread-local context of
  \<^verbatim>\<open>appendAsyncLog\<close>. \<open>sy_printed p\<close> records the messages that went to the console.
\<close>

record system =
  sy_logger :: logger
  sy_pipe :: pipe
  sy_todo :: "nat \<Rightarrow> message list"
  sy_cur :: "nat \<Rightarrow> message"
  sy_ctx :: "nat \<Rightarrow> log_ctx"
  sy_printed :: "nat \<Rightarrow> message list"

definition program_messages :: "LogLevel \<Rightarrow> stmt list \<Rightarrow> message list" where
  "program_messages g xs = emitted (run_stmts g xs \<lparr>str = [], emitted = []\<rparr>)"

text \<open>
  \<open>tid p\<close> is the identity of thread \<open>p\<close>, \<open>g\<close> the level that is compiled in, \<open>prog p\<close> the
  statements of thread \<open>p\<close>. The file \<open>f\<close> is the one that the writer thread opens.
\<close>

definition init_system :: "(nat \<Rightarrow> u64) \<Rightarrow> LogLevel \<Rightarrow> (nat \<Rightarrow> stmt list) \<Rightarrow> nat \<Rightarrow> logfile \<Rightarrow> system" where
  "init_system tid g prog n f =
     \<lparr>sy_logger = init_logger, sy_pipe = init_pipe n f, sy_todo = (\<lambda>p. program_messages g (prog p)),
      sy_cur = (\<lambda>_. (TRACE, \<lparr>s_file = [], s_func = [], s_line = 0\<rparr>, [])), sy_ctx = (\<lambda>p. new_ctx (tid p) 0),
      sy_printed = (\<lambda>_. [])\<rparr>"

section \<open>Operations\<close>

text \<open>The destructor of \<^verbatim>\<open>LogStream\<close>, then \<^verbatim>\<open>appendAsyncLog\<close>.\<close>

definition sys_log :: "nat \<Rightarrow> system \<Rightarrow> system option" where
  "sys_log p s =
     (case sy_todo s p of
        [] \<Rightarrow> None
      | r # rs \<Rightarrow>
          if entered (p_async (sy_pipe s)) p \<noteq> None then None
          else map_option (\<lambda>l. s\<lparr>sy_logger := l, sy_todo := (sy_todo s)(p := rs), sy_cur := (sy_cur s)(p := r),
                 sy_printed := (if async_enabled (sy_logger s) then sy_printed s
                                else (sy_printed s)(p := sy_printed s p @ [r]))\<rparr>)
               (log_check p (snd (snd r)) (sy_logger s)))"

definition sys_push :: "(int \<Rightarrow> tm) \<Rightarrow> nat \<Rightarrow> int \<Rightarrow> system \<Rightarrow> system option" where
  "sys_push lt p now s =
     (case log_push p (sy_logger s) of
        None \<Rightarrow> None
      | Some l \<Rightarrow>
          if \<not> (async_enabled l \<and> logging l) then Some (s\<lparr>sy_logger := l\<rparr>)
          else case sy_cur s p of (level, at, text) \<Rightarrow>
            let c = make_ctx now level text (s_file at) (s_func at) (s_line at) (sy_ctx s p) in
            map_option (\<lambda>q. s\<lparr>sy_logger := l, sy_pipe := q, sy_ctx := (sy_ctx s)(p := c)\<rparr>)
              (pipe_step lt (sy_pipe s) (PEnter p c)))"

text \<open>
  \<^verbatim>\<open>shutdownAsyncLogging\<close>: the pointer is reset, which destroys the asynchronous logger:
  \<^verbatim>\<open>done_\<close> is set and the writer joined; then the switch is cleared.
\<close>

definition sys_reset :: "(int \<Rightarrow> tm) \<Rightarrow> system \<Rightarrow> system option" where
  "sys_reset lt s =
     (if async_enabled (sy_logger s) \<and> \<not> shutdown_flag (sy_logger s)
      then map_option (\<lambda>q. s\<lparr>sy_logger := shutdown_reset (sy_logger s), sy_pipe := q\<rparr>)
             (pipe_step lt (sy_pipe s) PFinish)
      else Some (s\<lparr>sy_logger := shutdown_reset (sy_logger s)\<rparr>))"

definition sys_store :: "system \<Rightarrow> system option" where
  "sys_store s =
     (if shutting (sy_logger s) \<and> \<not> joined_writer (p_async (sy_pipe s)) then None
      else Some (s\<lparr>sy_logger := shutdown_store (sy_logger s)\<rparr>))"

datatype sys_act = SInit int int | SLog nat | SPush nat int | SLocked nat
  | SWriter "file_env list" file_env int | SReset | SStore

fun sys_step :: "(int \<Rightarrow> tm) \<Rightarrow> system \<Rightarrow> sys_act \<Rightarrow> system option" where
  "sys_step lt s (SInit roll interval) =
     map_option (\<lambda>l. s\<lparr>sy_logger := l\<rparr>) (init_call roll interval (sy_logger s))"
| "sys_step lt s (SLog p) = sys_log p s"
| "sys_step lt s (SPush p now) = sys_push lt p now s"
| "sys_step lt s (SLocked p) = map_option (\<lambda>q. s\<lparr>sy_pipe := q\<rparr>) (pipe_step lt (sy_pipe s) (PLocked p))"
| "sys_step lt s (SWriter envs fenv now) =
     (if init_flag (sy_logger s)
      then map_option (\<lambda>q. s\<lparr>sy_pipe := q\<rparr>) (pipe_step lt (sy_pipe s) (PWriter envs fenv now)) else None)"
| "sys_step lt s SReset = sys_reset lt s"
| "sys_step lt s SStore = sys_store s"

section \<open>What the steps of the pipeline change\<close>

lemma writer_frame:
  "writer_step a = Some b \<Longrightarrow> accepted b = accepted a \<and> entered b = entered a \<and> done_flag b = done_flag a"
  by (auto simp: writer_step_def writer_swap_def writer_recycle_def writer_write_def writer_drop_def
      leak_if_def fb_assign_def Let_def split: writer.splits if_splits)

lemma pipe_enter:
  assumes "pipe_step lt q (PEnter p c) = Some r"
  shows "entered (p_async q) p = None \<and> accepted (p_async r) = accepted (p_async q) \<and>
    done_flag (p_async r) = done_flag (p_async q) \<and>
    entered (p_async r) = (if done_flag (p_async q) then entered (p_async q) else (entered (p_async q))(p \<mapsto> c))"
  using assms by (auto simp: pipe_step_def push_enter_def split: if_splits)

lemma pipe_locked:
  assumes "pipe_ok lt q" "pipe_step lt q (PLocked p) = Some r"
  shows "\<exists>c. entered (p_async q) p = Some c \<and> accepted (p_async r) = accepted (p_async q) @ [c] \<and>
    entered (p_async r) = (entered (p_async q))(p := None) \<and> done_flag (p_async r) = done_flag (p_async q)"
proof -
  let ?a = "p_async q"
  from assms(2) obtain b where b: "push_locked p ?a = Some b" "r = q\<lparr>p_async := b\<rparr>"
    by (auto simp: pipe_step_def split: if_splits)
  then obtain c where c: "entered ?a p = Some c" by (auto simp: push_locked_def split: option.splits)
  let ?s = "?a\<lparr>entered := (entered ?a)(p := None)\<rparr>"
  let ?u = "if \<not> fb_full (cap ?s) (cur_buf ?s) then ?s else push_rotate ?s"
  have t: "b = push_cur c ?u" using b(1) c by (simp add: push_locked_def Let_def)
  have s: "buffers_ok ?s" using assms(1) by (simp add: pipe_ok_def async_ok_def buffers_ok_def)
  have u: "buffers_ok ?u" "\<not> fb_full (cap ?u) (cur_buf ?u)" "accepted ?u = accepted ?a"
    "entered ?u = entered ?s" "done_flag ?u = done_flag ?a"
    using push_rotate_ok [OF s] s
    by (simp_all add: push_rotate_def Let_def fb_assign_def leak_if_def split: if_splits)
  have "entered b = entered ?u" "done_flag b = done_flag ?u"
    by (simp_all add: t push_cur_def split: option.split)
  then show ?thesis using push_cur_ok(4) [OF u(1,2), of c] u(3-5) c b(2) by (simp add: t)
qed

lemma pipe_writer:
  assumes "pipe_step lt q (PWriter envs fenv now) = Some r"
  shows "accepted (p_async r) = accepted (p_async q) \<and> entered (p_async r) = entered (p_async q) \<and>
    done_flag (p_async r) = done_flag (p_async q)"
proof -
  have "p_async r = p_async q \<or> writer_step (p_async q) = Some (p_async r)"
    using assms
    by (auto simp: pipe_step_def pipe_round_def pipe_last_def Let_def
        split: if_splits writer.splits sum.splits)
  then show ?thesis by (elim disjE) (auto dest: writer_frame)
qed

lemma pipe_finish:
  "pipe_step lt q PFinish = Some r \<Longrightarrow> accepted (p_async r) = accepted (p_async q) \<and>
    entered (p_async r) = entered (p_async q)"
  by (auto simp: pipe_step_def split: if_splits)

section \<open>The invariant\<close>

text \<open>A message as the thread wrote it, and as it is kept in a context.\<close>

definition msg_view :: "message \<Rightarrow> u8 \<times> string \<times> string \<times> int \<times> string" where
  "msg_view m = (case m of (level, at, text) \<Rightarrow> (level_value level, s_file at, s_func at, s_line at, text))"

definition ctx_view :: "log_ctx \<Rightarrow> u8 \<times> string \<times> string \<times> int \<times> string" where
  "ctx_view c = (lc_level c, cd_full (lc_data c), cd_func (lc_data c), cd_line (lc_data c), lc_text c)"

lemma make_ctx_view [simp]:
  "ctx_view (make_ctx now level text (s_file at) (s_func at) (s_line at) c) = msg_view (level, at, text)"
  "lc_tid (make_ctx now level text file func line c) = lc_tid c"
  by (simp_all add: ctx_view_def msg_view_def make_ctx_def with_defs)

text \<open>
  What thread \<open>p\<close> has in the asynchronous logger, the message that it is about to push, and what
  it has yet to log.
\<close>

definition by_thread :: "u64 \<Rightarrow> log_ctx list \<Rightarrow> (u8 \<times> string \<times> string \<times> int \<times> string) list" where
  "by_thread i cs = map ctx_view (filter (\<lambda>c. lc_tid c = i) cs)"

definition under_way :: "nat \<Rightarrow> system \<Rightarrow> (u8 \<times> string \<times> string \<times> int \<times> string) list" where
  "under_way p s =
     (case entered (p_async (sy_pipe s)) p of
        Some c \<Rightarrow> [ctx_view c]
      | None \<Rightarrow> if committed (sy_logger s) p \<noteq> None then [msg_view (sy_cur s p)] else [])"

definition flow :: "u64 \<Rightarrow> nat \<Rightarrow> system \<Rightarrow> (u8 \<times> string \<times> string \<times> int \<times> string) list" where
  "flow i p s = by_thread i (accepted (p_async (sy_pipe s))) @ under_way p s @ map msg_view (sy_todo s p)"

definition owners_ok :: "(nat \<Rightarrow> u64) \<Rightarrow> (nat \<Rightarrow> stmt list) \<Rightarrow> system \<Rightarrow> bool" where
  "owners_ok tid prog s \<longleftrightarrow>
     (\<forall>q. lc_tid (sy_ctx s q) = tid q) \<and>
     (\<forall>q c. entered (p_async (sy_pipe s)) q = Some c \<longrightarrow> lc_tid c = tid q \<and> prog q \<noteq> []) \<and>
     (\<forall>q. committed (sy_logger s) q \<noteq> None \<longrightarrow> prog q \<noteq> [] \<and> entered (p_async (sy_pipe s)) q = None) \<and>
     (\<forall>q. sy_todo s q \<noteq> [] \<longrightarrow> prog q \<noteq> []) \<and>
     (\<forall>q. \<forall>r \<in> set (sy_todo s q). snd (snd r) \<noteq> [])"

definition phase_ok :: "system \<Rightarrow> bool" where
  "phase_ok s \<longleftrightarrow> logger_ok (sy_logger s) \<and> (shutting (sy_logger s) \<longrightarrow> shutdown_flag (sy_logger s)) \<and>
     (\<not> shutdown_flag (sy_logger s) \<longrightarrow> \<not> done_flag (p_async (sy_pipe s)))"

definition order_ok :: "u64 \<Rightarrow> message list \<Rightarrow> nat \<Rightarrow> system \<Rightarrow> bool" where
  "order_ok i ms p s \<longleftrightarrow>
     subseq (flow i p s) (map msg_view ms) \<and>
     (\<not> shutdown_flag (sy_logger s) \<longrightarrow>
        map msg_view (sy_printed s p) @ flow i p s = map msg_view ms \<and>
        (\<not> async_enabled (sy_logger s) \<longrightarrow> by_thread i (accepted (p_async (sy_pipe s))) = [] \<and> under_way p s = []))"

definition system_ok :: "(int \<Rightarrow> tm) \<Rightarrow> (nat \<Rightarrow> u64) \<Rightarrow> LogLevel \<Rightarrow> (nat \<Rightarrow> stmt list) \<Rightarrow> nat \<Rightarrow> system \<Rightarrow> bool" where
  "system_ok lt tid g prog p s \<longleftrightarrow>
     pipe_ok lt (sy_pipe s) \<and> owners_ok tid prog s \<and> phase_ok s \<and>
     ((\<forall>q. q \<noteq> p \<longrightarrow> prog q \<noteq> [] \<longrightarrow> tid q \<noteq> tid p) \<longrightarrow> order_ok (tid p) (program_messages g (prog p)) p s)"

lemma by_thread_append [simp]: "by_thread i (xs @ ys) = by_thread i xs @ by_thread i ys"
  by (simp add: by_thread_def)

lemma by_thread_one [simp]: "by_thread i [c] = (if lc_tid c = i then [ctx_view c] else [])" "by_thread i [] = []"
  by (simp_all add: by_thread_def)

lemma emitted_nonempty:
  "(\<forall>r \<in> set (emitted s). snd (snd r) \<noteq> []) \<Longrightarrow> \<forall>r \<in> set (emitted (run_stmt g x s)). snd (snd r) \<noteq> []"
  "(\<forall>r \<in> set (emitted s). snd (snd r) \<noteq> []) \<Longrightarrow> \<forall>r \<in> set (emitted (run_parts g level ps s)). snd (snd r) \<noteq> []"
  "(\<forall>r \<in> set (emitted s). snd (snd r) \<noteq> []) \<Longrightarrow> \<forall>r \<in> set (emitted (run_stmts g xs s)). snd (snd r) \<noteq> []"
  by (induction g x s and g level ps s and g xs s rule: run_stmt_run_parts_run_stmts.induct)
    (auto simp: stream_defs Let_def)

lemma program_messages_nonempty: "\<forall>r \<in> set (program_messages g xs). snd (snd r) \<noteq> []"
  unfolding program_messages_def by (rule emitted_nonempty(3)) simp

lemma program_messages_Nil [simp]: "program_messages g [] = []"
  by (simp add: program_messages_def)

lemma system_ok_init:
  assumes "0 < n" "logfile_bytes f = []"
  shows "system_ok lt tid g prog p (init_system tid g prog n f)"
proof -
  let ?s = "init_system tid g prog n f"
  have "owners_ok tid prog ?s"
    using program_messages_nonempty [of g]
    by (auto simp: owners_ok_def init_system_def new_ctx_def init_logger_def init_pipe_def init_async_def)
  moreover have "phase_ok ?s"
    using logger_ok_init by (simp add: phase_ok_def init_system_def init_logger_def init_pipe_def init_async_def)
  moreover have "order_ok (tid p) (program_messages g (prog p)) p ?s"
    by (simp add: order_ok_def flow_def under_way_def init_system_def init_logger_def init_pipe_def init_async_def)
  moreover have "pipe_ok lt (sy_pipe ?s)" using pipe_ok_init [OF assms] by (simp add: init_system_def)
  ultimately show ?thesis by (simp add: system_ok_def)
qed

section \<open>Every step keeps the invariant\<close>

lemma subseq_skip: "subseq (xs @ zs) (xs @ y # zs)"
  by (intro list_emb_append_mono subseq_order.order_refl list_emb_Cons)

lemma order_keep:
  assumes "order_ok i ms p s" "subseq (flow i p t) (flow i p s)"
    and "\<not> shutdown_flag (sy_logger t) \<Longrightarrow> \<not> shutdown_flag (sy_logger s) \<and>
      map msg_view (sy_printed t p) @ flow i p t = map msg_view (sy_printed s p) @ flow i p s \<and>
      (\<not> async_enabled (sy_logger t) \<longrightarrow> by_thread i (accepted (p_async (sy_pipe t))) = [] \<and> under_way p t = [])"
  shows "order_ok i ms p t"
  using assms subseq_order.order_trans [OF assms(2)] unfolding order_ok_def by auto

lemma system_ok_log:
  assumes ok: "system_ok lt tid g prog p s" and st: "sys_log p' s = Some t"
  shows "system_ok lt tid g prog p t"
proof -
  obtain r rs where r: "sy_todo s p' = r # rs" and e: "entered (p_async (sy_pipe s)) p' = None"
    using st by (auto simp: sys_log_def split: list.splits if_splits)
  then obtain l where l: "log_check p' (snd (snd r)) (sy_logger s) = Some l"
    and t: "t = s\<lparr>sy_logger := l, sy_todo := (sy_todo s)(p' := rs), sy_cur := (sy_cur s)(p' := r),
       sy_printed := (if async_enabled (sy_logger s) then sy_printed s
                      else (sy_printed s)(p' := sy_printed s p' @ [r]))\<rparr>"
    using st by (auto simp: sys_log_def split: if_splits)
  have own: "owners_ok tid prog s" and ph: "phase_ok s" using ok by (simp_all add: system_ok_def)
  have "r \<in> set (sy_todo s p')" "sy_todo s p' \<noteq> []" using r by simp_all
  then have m: "snd (snd r) \<noteq> []" "prog p' \<noteq> []" using own unfolding owners_ok_def by blast+
  have rs: "\<forall>x \<in> set rs. snd (snd x) \<noteq> []"
    using own r unfolding owners_ok_def by (metis list.set_intros(2))
  have c: "committed (sy_logger s) p' = None"
    and l2: "l = (if async_enabled (sy_logger s)
        then (sy_logger s)\<lparr>committed := (committed (sy_logger s))(p' \<mapsto> snd (snd r))\<rparr>
        else (sy_logger s)\<lparr>console := console (sy_logger s) @ [snd (snd r)]\<rparr>)"
    using l m(1) by (auto simp: log_check_def split: if_splits)
  have "owners_ok tid prog t"
    using own e r m rs by (auto simp: owners_ok_def t l2)
  moreover have "phase_ok t"
    using ph by (auto simp: phase_ok_def t l2 logger_ok_def)
  moreover have "order_ok i ms p t" if o: "order_ok i ms p s" for i ms
  proof (cases "p' = p")
    case True
    show ?thesis
    proof (cases "async_enabled (sy_logger s)")
      case on: True
      have "flow i p t = flow i p s"
        using True on e c r by (simp add: flow_def under_way_def t l2)
      then show ?thesis by (intro order_keep [OF o]) (simp_all add: t l2 on)
    next
      case off: False
      have f: "flow i p s = by_thread i (accepted (p_async (sy_pipe s))) @ map msg_view (r # rs)"
        "flow i p t = by_thread i (accepted (p_async (sy_pipe s))) @ map msg_view rs"
        using True off e c r by (simp_all add: flow_def under_way_def t l2 split: option.split)
      have "under_way p t = []" using True off e c by (simp add: under_way_def t l2)
      moreover have "\<not> shutdown_flag (sy_logger s) \<Longrightarrow> by_thread i (accepted (p_async (sy_pipe s))) = []"
        using o off by (simp add: order_ok_def)
      ultimately show ?thesis
        using True by (intro order_keep [OF o]) (auto simp: f subseq_skip, simp_all add: t l2 off)
    qed
  next
    case False
    have "flow i p t = flow i p s" "under_way p t = under_way p s"
      using False by (simp_all add: flow_def under_way_def t l2 split: option.split)
    moreover have "\<not> shutdown_flag (sy_logger s) \<Longrightarrow> \<not> async_enabled (sy_logger s) \<Longrightarrow>
        by_thread i (accepted (p_async (sy_pipe s))) = [] \<and> under_way p s = []"
      using o by (simp add: order_ok_def)
    ultimately show ?thesis
      using False by (intro order_keep [OF o]) (simp, auto simp: t l2)
  qed
  moreover have "pipe_ok lt (sy_pipe t)" using ok by (simp add: system_ok_def t)
  ultimately show ?thesis using ok by (simp add: system_ok_def)
qed

lemma system_ok_push:
  assumes ok: "system_ok lt tid g prog p s" and st: "sys_push lt p' now s = Some t"
  shows "system_ok lt tid g prog p t"
proof -
  obtain l m where c: "committed (sy_logger s) p' = Some m" and l: "log_push p' (sy_logger s) = Some l"
    using st by (auto simp: sys_push_def log_push_def split: option.splits)
  obtain lv at tx where cur: "sy_cur s p' = (lv, at, tx)" by (cases "sy_cur s p'") auto
  have own: "owners_ok tid prog s" and ph: "phase_ok s" using ok by (simp_all add: system_ok_def)
  have e: "entered (p_async (sy_pipe s)) p' = None" and pr: "prog p' \<noteq> []"
    using own c by (auto simp: owners_ok_def)
  have lf: "committed l = (committed (sy_logger s))(p' := None)"
    "async_enabled l = async_enabled (sy_logger s)" "logging l = logging (sy_logger s)"
    "shutdown_flag l = shutdown_flag (sy_logger s)" "shutting l = shutting (sy_logger s)"
    "init_flag l = init_flag (sy_logger s)" "creations l = creations (sy_logger s)"
    using l c by (auto simp: log_push_def Let_def split: if_splits)
  have lok: "logger_ok l" using ph by (simp add: phase_ok_def logger_ok_def lf)
  define k where "k = make_ctx now lv tx (s_file at) (s_func at) (s_line at) (sy_ctx s p')"
  have kv: "ctx_view k = msg_view (sy_cur s p')" and kt: "lc_tid k = tid p'"
    using own by (simp_all add: k_def cur owners_ok_def)
  consider (off) "\<not> (async_enabled l \<and> logging l)" "t = s\<lparr>sy_logger := l\<rparr>"
    | (on) q where "async_enabled l" "pipe_step lt (sy_pipe s) (PEnter p' k) = Some q"
        "t = s\<lparr>sy_logger := l, sy_pipe := q, sy_ctx := (sy_ctx s)(p' := k)\<rparr>"
    using st l cur by (auto simp: sys_push_def Let_def k_def split: if_splits)
  then show ?thesis
  proof cases
    case off
    have "owners_ok tid prog t" using own by (auto simp: owners_ok_def off(2) lf)
    moreover have "phase_ok t" using ph lok by (simp add: phase_ok_def off(2) lf)
    moreover have "order_ok i ms p t" if o: "order_ok i ms p s" for i ms
    proof (cases "p' = p")
      case True
      have u: "under_way p s = [msg_view (sy_cur s p)]" "under_way p t = []"
        using True e c by (simp_all add: under_way_def off(2) lf)
      have sh: "shutdown_flag (sy_logger s)"
      proof (rule ccontr)
        assume no: "\<not> shutdown_flag (sy_logger s)"
        with ph have "logging (sy_logger s) = async_enabled (sy_logger s)"
          by (auto simp: phase_ok_def logger_ok_def)
        with off(1) lf have "\<not> async_enabled (sy_logger s)" by simp
        with o no u(1) show False by (simp add: order_ok_def)
      qed
      have "subseq (flow i p t) (flow i p s)"
        using True u by (simp add: flow_def off(2) subseq_skip)
      with sh show ?thesis by (intro order_keep [OF o]) (simp_all add: off(2) lf)
    next
      case False
      then have "flow i p t = flow i p s" "under_way p t = under_way p s"
        by (simp_all add: flow_def under_way_def off(2) lf split: option.split)
      with o show ?thesis by (simp add: order_ok_def off(2) lf)
    qed
    moreover have "pipe_ok lt (sy_pipe t)" using ok by (simp add: system_ok_def off(2))
    ultimately show ?thesis using ok by (simp add: system_ok_def)
  next
    case on
    note q = pipe_enter [OF on(2)]
    have "owners_ok tid prog t"
      using own q kt pr by (auto simp: owners_ok_def on(3) lf split: if_splits)
    moreover have "phase_ok t" using ph lok q by (simp add: phase_ok_def on(3) lf)
    moreover have "order_ok i ms p t" if o: "order_ok i ms p s" for i ms
    proof (cases "p' = p")
      case True
      have u: "under_way p s = [msg_view (sy_cur s p)]"
        "under_way p t = (if done_flag (p_async (sy_pipe s)) then [] else [msg_view (sy_cur s p)])"
        using True e c q kv by (simp_all add: under_way_def on(3) lf)
      have dn: "\<not> shutdown_flag (sy_logger s) \<Longrightarrow> \<not> done_flag (p_async (sy_pipe s))"
        using ph by (simp add: phase_ok_def)
      have "subseq (flow i p t) (flow i p s)"
        using True u q by (simp add: flow_def on(3) subseq_skip)
      moreover have "flow i p t = flow i p s" if "\<not> done_flag (p_async (sy_pipe s))"
        using that u q by (simp add: flow_def on(3))
      ultimately show ?thesis using dn on(1) by (intro order_keep [OF o]) (auto simp: on(3) lf)
    next
      case False
      then have "flow i p t = flow i p s" "under_way p t = under_way p s"
        using q by (simp_all add: flow_def under_way_def on(3) lf split: option.split)
      with o q show ?thesis by (simp add: order_ok_def on(3) lf)
    qed
    moreover have "pipe_ok lt (sy_pipe t)" using ok pipe_ok_step [OF _ on(2)] by (simp add: system_ok_def on(3))
    ultimately show ?thesis using ok by (simp add: system_ok_def)
  qed
qed

lemma system_ok_quiet:
  assumes ok: "system_ok lt tid g prog p s" and t: "t = s\<lparr>sy_logger := l, sy_pipe := q\<rparr>"
    and q: "pipe_ok lt q" "accepted (p_async q) = accepted (p_async (sy_pipe s))"
      "entered (p_async q) = entered (p_async (sy_pipe s))"
    and ph: "phase_ok t" and l: "committed l = committed (sy_logger s)"
      "shutdown_flag l \<or> \<not> shutdown_flag (sy_logger s) \<and> (async_enabled (sy_logger s) \<longrightarrow> async_enabled l)"
  shows "system_ok lt tid g prog p t"
proof -
  have "owners_ok tid prog t" using ok by (simp add: system_ok_def owners_ok_def t q l(1))
  moreover have "flow i p t = flow i p s" "under_way p t = under_way p s" for i
    by (simp_all add: flow_def under_way_def t q l(1) split: option.split)
  then have "order_ok i ms p t" if "order_ok i ms p s" for i ms
    using that l(2) by (auto simp: order_ok_def t q)
  ultimately show ?thesis using ok q(1) ph by (simp add: system_ok_def, simp add: t)
qed

lemma system_ok_locked:
  assumes ok: "system_ok lt tid g prog p s" and st: "pipe_step lt (sy_pipe s) (PLocked p') = Some q"
  shows "system_ok lt tid g prog p (s\<lparr>sy_pipe := q\<rparr>)"
proof -
  let ?t = "s\<lparr>sy_pipe := q\<rparr>"
  have own: "owners_ok tid prog s" and ph: "phase_ok s" and pk: "pipe_ok lt (sy_pipe s)"
    using ok by (simp_all add: system_ok_def)
  obtain c where c: "entered (p_async (sy_pipe s)) p' = Some c"
    "accepted (p_async q) = accepted (p_async (sy_pipe s)) @ [c]"
    "entered (p_async q) = (entered (p_async (sy_pipe s)))(p' := None)"
    "done_flag (p_async q) = done_flag (p_async (sy_pipe s))"
    using pipe_locked [OF pk st] by blast
  have k: "lc_tid c = tid p'" "prog p' \<noteq> []" using own c(1) unfolding owners_ok_def by blast+
  have cm: "committed (sy_logger s) p' = None"
    using own c(1) unfolding owners_ok_def by (metis option.distinct(1))
  have "owners_ok tid prog ?t" using own by (auto simp: owners_ok_def c(3))
  moreover have "phase_ok ?t" using ph by (simp add: phase_ok_def c(4))
  moreover have "order_ok (tid p) ms p ?t"
    if o: "order_ok (tid p) ms p s" and d: "\<forall>q. q \<noteq> p \<longrightarrow> prog q \<noteq> [] \<longrightarrow> tid q \<noteq> tid p" for ms
  proof (cases "p' = p")
    case True
    have f: "flow (tid p) p ?t = flow (tid p) p s" "under_way p s \<noteq> []" "under_way p ?t = []"
      using True c cm k by (simp_all add: flow_def under_way_def split: option.split)
    show ?thesis using o f by (auto simp: order_ok_def c(2))
  next
    case False
    then have f: "by_thread (tid p) (accepted (p_async q)) = by_thread (tid p) (accepted (p_async (sy_pipe s)))"
      using d k by (auto simp: c(2))
    moreover have "flow (tid p) p ?t = flow (tid p) p s" "under_way p ?t = under_way p s"
      using False f by (simp_all add: flow_def under_way_def c(3) split: option.split)
    ultimately show ?thesis using o by (simp add: order_ok_def)
  qed
  ultimately show ?thesis using ok pipe_ok_step [OF pk st] by (simp add: system_ok_def)
qed

lemma system_ok_step:
  assumes ok: "system_ok lt tid g prog p s" and st: "sys_step lt s a = Some t"
  shows "system_ok lt tid g prog p t"
proof -
  have ph: "phase_ok s" and pk: "pipe_ok lt (sy_pipe s)" using ok by (simp_all add: system_ok_def)
  show ?thesis
  proof (cases a)
    case (SInit roll interval)
    let ?l = "initAsyncLogging (sy_logger s)"
    have "phase_ok (s\<lparr>sy_logger := ?l, sy_pipe := sy_pipe s\<rparr>)"
      using ph by (auto simp: phase_ok_def logger_ok_def initAsyncLogging_def split: if_splits)
    with st SInit pk show ?thesis
      by (intro system_ok_quiet [OF ok, where t = t and l = ?l and q = "sy_pipe s"]) (auto simp: init_call_def initAsyncLogging_def split: if_splits)
  next
    case (SWriter envs fenv now)
    then obtain q where q: "pipe_step lt (sy_pipe s) (PWriter envs fenv now) = Some q" "t = s\<lparr>sy_pipe := q\<rparr>"
      using st by (auto split: if_splits)
    note w = pipe_writer [OF q(1)]
    have "phase_ok t" using ph w by (simp add: phase_ok_def q(2))
    with q w pipe_ok_step [OF pk q(1)] show ?thesis
      by (intro system_ok_quiet [OF ok, where t = t and l = "sy_logger s" and q = q]) simp_all
  next
    case SReset
    show ?thesis
    proof (cases "async_enabled (sy_logger s) \<and> \<not> shutdown_flag (sy_logger s)")
      case True
      then obtain q where q: "pipe_step lt (sy_pipe s) PFinish = Some q"
        "t = s\<lparr>sy_logger := shutdown_reset (sy_logger s), sy_pipe := q\<rparr>"
        using st SReset by (auto simp: sys_reset_def)
      have "phase_ok t" using ph True by (simp add: phase_ok_def q(2) shutdown_reset_def logger_ok_def)
      with q True pipe_finish [OF q(1)] pipe_ok_step [OF pk q(1)] show ?thesis
        by (intro system_ok_quiet [OF ok q(2)]) (simp_all add: shutdown_reset_def)
    next
      case False
      then have "t = s" using st SReset by (auto simp: sys_reset_def shutdown_reset_def)
      with ok show ?thesis by simp
    qed
  next
    case SStore
    let ?l = "shutdown_store (sy_logger s)"
    have t: "t = s\<lparr>sy_logger := ?l, sy_pipe := sy_pipe s\<rparr>"
      using st SStore by (auto simp: sys_store_def split: if_splits)
    have "phase_ok t" using ph by (auto simp: t phase_ok_def logger_ok_def shutdown_store_def)
    moreover have "shutting (sy_logger s) \<Longrightarrow> shutdown_flag (sy_logger s)" using ph by (simp add: phase_ok_def)
    ultimately show ?thesis
      using pk by (intro system_ok_quiet [OF ok t]) (auto simp: shutdown_store_def)
  qed (use st system_ok_log [OF ok] system_ok_push [OF ok] system_ok_locked [OF ok] in auto)
qed

interpretation logging_system: machine "sys_step lt" "system_ok lt tid g prog p" for lt tid g prog p
  by unfold_locales (rule system_ok_step)

section \<open>Properties\<close>

text \<open>
  C27: the logging library keeps the order of every thread. While there is no shutdown, whatever
  the other threads, the writer and the initialisation do, the messages that the statements of a
  thread emit are, in program order: those that went to the console before the asynchronous logger
  was started, then those in the log, the one under way, and those yet to be logged. The files, with
  the lines that wait in the buffers, hold exactly the lines of the messages in the log, unless the
  writer has dropped buffers. The identity of the thread has to differ from that of the other threads
  that log.\<close>

theorem program_order_kept:
  assumes "new_logfile junk env base pre roll interval = Inr f" "0 < n"
    and "exec_all (sys_step lt) (init_system tid g prog n f) acts = Some s"
    and "\<forall>q. q \<noteq> p \<longrightarrow> prog q \<noteq> [] \<longrightarrow> tid q \<noteq> tid p"
    and "\<not> shutdown_flag (sy_logger s)" "\<not> drops (out (p_async (sy_pipe s)))"
  shows "\<exists>cs. logfile_bytes (p_file (sy_pipe s)) @
        concat (map (format_ctx lt kStdFlags) (waiting (p_async (sy_pipe s)))) =
      concat (map (format_ctx lt kStdFlags) cs) \<and>
    map msg_view (sy_printed s p) @ by_thread (tid p) cs @ under_way p s @ map msg_view (sy_todo s p) =
      map msg_view (program_messages g (prog p))"
proof -
  have "system_ok lt tid g prog p s"
    by (rule logging_system.run_good [OF system_ok_init [OF assms(2) new_logfile_empty [OF assms(1)]] assms(3)])
  then have "pipe_ok lt (sy_pipe s)" "order_ok (tid p) (program_messages g (prog p)) p s"
    using assms(4) by (simp_all add: system_ok_def)
  with assms(5) pipe_bytes [of lt "sy_pipe s"] assms(6) show ?thesis
    by (intro exI [of _ "accepted (p_async (sy_pipe s))"]) (simp add: order_ok_def flow_def)
qed

text \<open>
  Two threads: a message of thread 0 goes to the console, the logger is started, and both threads
  log; the message of thread 1 gets the lock first.
\<close>

definition two_programs :: "nat \<Rightarrow> stmt list" where
  "two_programs q =
     (if q = 0 then [Stmt INFO hello_site [Part [] ''a''], Stmt WARN hello_site [Part [] ''b'', Part [] ''!'']]
      else if q = 1 then [Stmt DEBUG hello_site [Part [] ''no''], Stmt INFO hello_site [Part [] ''c'']] else [])"

definition two_tids :: "nat \<Rightarrow> u64" where
  "two_tids q = of_nat q + 1"

definition two_threads :: "sys_act list" where
  "two_threads = [SLog 0, SInit 4 3, SWriter [] (sample_env 100) 0, SWriter [] (sample_env 100) 0, SLog 0, SLog 1,
     SPush 1 42, SPush 0 42, SLocked 1, SLocked 0, SWriter [] (sample_env 100) 0,
     SWriter (replicate 2 (sample_env 101)) (sample_env 101) 0]"

lemma two_threads_state:
  "(case new_logfile 0 (sample_env 100) ''log'' ''app'' 4 3 of Inl e \<Rightarrow> None | Inr f \<Rightarrow>
    map_option (\<lambda>s. (shutdown_flag (sy_logger s), drops (out (p_async (sy_pipe s))),
       waiting (p_async (sy_pipe s)), map (\<lambda>m. snd (snd m)) (sy_printed s 0), under_way 0 s, sy_todo s 0,
       length (p_lines (sy_pipe s))))
     (exec_all (sys_step (\<lambda>_. sample_tm)) (init_system two_tids INFO two_programs 2 f) two_threads)) =
   Some (False, False, [], [''a''], [], [], 2)"
  by code_simp

theorem program_order_kept_witness:
  "\<exists>f s cs. exec_all (sys_step (\<lambda>_. sample_tm)) (init_system two_tids INFO two_programs 2 f) two_threads = Some s \<and>
     logfile_bytes (p_file (sy_pipe s)) = concat (map (format_ctx (\<lambda>_. sample_tm) kStdFlags) cs) \<and>
     by_thread 1 cs = [(3, ''a/b.cpp'', ''main'', 7, ''b!'')]"
proof -
  obtain f where f: "new_logfile 0 (sample_env 100) ''log'' ''app'' 4 3 = Inr f"
    by (simp add: logfile_defs)
  then obtain s where s: "exec_all (sys_step (\<lambda>_. sample_tm)) (init_system two_tids INFO two_programs 2 f)
      two_threads = Some s" "\<not> shutdown_flag (sy_logger s)" "\<not> drops (out (p_async (sy_pipe s)))"
    "waiting (p_async (sy_pipe s)) = []" "under_way 0 s = []" "sy_todo s 0 = []"
    "map (\<lambda>m. snd (snd m)) (sy_printed s 0) = [''a'']"
    using two_threads_state by auto
  have d: "\<forall>q. q \<noteq> 0 \<longrightarrow> two_programs q \<noteq> [] \<longrightarrow> two_tids q \<noteq> two_tids 0"
    by (simp add: two_programs_def two_tids_def)
  have m: "map msg_view (program_messages INFO (two_programs 0)) =
      [(2, ''a/b.cpp'', ''main'', 7, ''a''), (3, ''a/b.cpp'', ''main'', 7, ''b!'')]"
    by code_simp
  from program_order_kept [OF f _ s(1) d s(2,3)] s(4-6) m
  obtain cs where cs: "logfile_bytes (p_file (sy_pipe s)) = concat (map (format_ctx (\<lambda>_. sample_tm) kStdFlags) cs)"
    "map msg_view (sy_printed s 0) @ by_thread 1 cs =
      [(2, ''a/b.cpp'', ''main'', 7, ''a''), (3, ''a/b.cpp'', ''main'', 7, ''b!'')]"
    by (auto simp: two_tids_def)
  obtain r where "sy_printed s 0 = [r]" using s(7) by auto
  with cs(2) have "by_thread 1 cs = [(3, ''a/b.cpp'', ''main'', 7, ''b!'')]" by simp
  with s(1) cs(1) show ?thesis by blast
qed

text \<open>
  With a shutdown messages may be missing, but those in the log are still in the order of their
  thread's program.\<close>

theorem program_order_shutdown:
  assumes "0 < n" "logfile_bytes f = []"
    and "exec_all (sys_step lt) (init_system tid g prog n f) acts = Some s"
    and "\<forall>q. q \<noteq> p \<longrightarrow> prog q \<noteq> [] \<longrightarrow> tid q \<noteq> tid p"
  shows "subseq (by_thread (tid p) (accepted (p_async (sy_pipe s))) @ under_way p s @ map msg_view (sy_todo s p))
    (map msg_view (program_messages g (prog p)))"
proof -
  have "system_ok lt tid g prog p s"
    by (rule logging_system.run_good [OF system_ok_init [OF assms(1,2)] assms(3)])
  with assms(4) show ?thesis by (simp add: system_ok_def order_ok_def flow_def)
qed

text \<open>
  The shutdown frees the asynchronous logger under a thread that uses it. A thread that has
  entered \<^verbatim>\<open>pushMessage\<close> and waits for the lock is not waited for: the writer leaves, the
  join and the destructor return, and the thread locks a mutex that no longer exists.\<close>

theorem shutdown_frees_in_use:
  "(case new_logfile 0 (sample_env 100) ''log'' ''app'' 4 3 of Inl e \<Rightarrow> None | Inr f \<Rightarrow>
    map_option (\<lambda>s. (shutting (sy_logger s), logging (sy_logger s), writer_pc (p_async (sy_pipe s)),
       map_option lc_text (entered (p_async (sy_pipe s)) 1)))
     (exec_all (sys_step (\<lambda>_. sample_tm)) (init_system two_tids INFO two_programs 2 f)
        [SInit 4 3, SLog 1, SPush 1 42, SReset, SWriter [] (sample_env 100) 0, SWriter [] (sample_env 100) 0, SStore])) =
   Some (False, False, WExit, Some ''c'')"
  by code_simp

end
